(* ===== verification/Hybris_Prelude.thy ===== *)
theory Hybris_Prelude
  imports Main "HOL-Library.Word" "HOL-Library.Signed_Division"
begin

text \<open>
  Shared vocabulary of the development: the machine integers of the C sources as words, and
  the generic facts on words, lists and options that the component theories use.
\<close>

unbundle bit_operations_syntax

type_synonym u8 = "8 word"
type_synonym u16 = "16 word"
type_synonym u32 = "32 word"
type_synonym u64 = "64 word"

section \<open>Fallible steps\<close>

text \<open>
  Sequencing of steps that may fail: the left summand is the failure that ends the run.  The
  collection \<open>succeeds\<close> inverts a run that ended well into its steps.
\<close>

definition try_then :: "'e + 'a \<Rightarrow> ('a \<Rightarrow> 'e + 'b) \<Rightarrow> 'e + 'b" where
  "try_then m f = (case m of Inl e \<Rightarrow> Inl e | Inr x \<Rightarrow> f x)"

named_theorems succeeds

lemma try_then_simps [simp]: "try_then (Inl e) f = Inl e" "try_then (Inr x) f = f x"
  by (simp_all add: try_then_def)

lemma try_then_Inr [succeeds]: "try_then m f = Inr y \<longleftrightarrow> (\<exists>x. m = Inr x \<and> f x = Inr y)"
  by (cases m) auto

lemma try_then_Inl: "try_then m f = Inl e \<longleftrightarrow> m = Inl e \<or> (\<exists>x. m = Inr x \<and> f x = Inl e)"
  by (cases m) auto

lemma try_then_assoc: "try_then (try_then m f) g = try_then m (\<lambda>x. try_then (f x) g)"
  by (cases m) simp_all

lemma if_Inr [succeeds]:
  "(if c then Inl e else m) = Inr y \<longleftrightarrow> \<not> c \<and> m = Inr y"
  "(if c then m else Inl e) = Inr y \<longleftrightarrow> c \<and> m = Inr y"
  by auto

section \<open>Words\<close>

lemma unat_of_nat64: "n < 2 ^ 64 \<Longrightarrow> unat (of_nat n :: u64) = n"
  by (simp add: unsigned_of_nat take_bit_nat_eq_self)

lemma of_nat_unat32: "of_nat (unat (w :: u32)) = w"
  by simp

lemma unat_of_nat32: "n < 2 ^ 32 \<Longrightarrow> unat (of_nat n :: u32) = n"
  by (simp add: unsigned_of_nat take_bit_nat_eq_self)

lemma unat_add64: "unat (a :: u64) + unat b < 2 ^ 64 \<Longrightarrow> unat (a + b) = unat a + unat b"
  using unat_add_lem [of a b] by simp

lemma unat_add_of_nat64:
  "unat (a :: u64) + n < 2 ^ 64 \<Longrightarrow> unat (a + of_nat n) = unat a + n"
  by (subst unat_add64) (simp_all add: unat_of_nat64)

lemma and_not_mask_push_drop: "(x :: 'a::len word) AND NOT (mask n) = push_bit n (drop_bit n x)"
  by (rule bit_word_eqI) (auto simp: bit_simps)

lemma unat_and_not_mask64: "unat ((x :: u64) AND NOT (mask n)) = unat x div 2 ^ n * 2 ^ n"
proof -
  have "unat x div 2 ^ n * 2 ^ n \<le> unat x" by (rule div_times_less_eq_dividend)
  moreover have lt: "unat x < 2 ^ 64" using unsigned_less[of x, where ?'a = nat] by simp
  ultimately have "unat x div 2 ^ n * 2 ^ n < 2 ^ 64" by (rule le_less_trans)
  then show ?thesis using lt
    unfolding and_not_mask_push_drop unsigned_push_bit_eq unsigned_drop_bit_eq
    by (simp add: drop_bit_eq_div push_bit_eq_mult take_bit_nat_eq_self)
qed

lemma unat_and_mask64: "unat ((x :: u64) AND mask n) = unat x mod 2 ^ n"
proof -
  have "x AND mask n = take_bit n x" by (simp add: take_bit_eq_mask)
  then show ?thesis by (simp only: unsigned_take_bit_eq) (simp add: take_bit_eq_mod)
qed

text \<open>A C \<open>int\<close> below its maximum, read with its sign or extended to 64 bits.\<close>

lemma sint_nonneg:
  assumes "unat (x :: u32) < 2 ^ 31"
  shows "sint x = int (unat x)"
proof -
  have ui: "uint x = int (unat x)" by (rule uint_nat)
  have "int (unat x) < int (2 ^ 31)" using assms by (simp only: of_nat_less_iff)
  then have "uint x < 2 ^ 31" by (simp only: ui of_nat_power of_nat_numeral)
  moreover have "- (2 ^ 31) \<le> uint x" by (rule order_trans[OF _ uint_ge_0]) simp
  ultimately have "signed_take_bit 31 (uint x) = uint x" by (intro signed_take_bit_int_eq_self)
  then have "sint x = uint x" by (simp add: sint_uint)
  then show ?thesis using ui by (rule trans)
qed

lemma unat_scast_nonneg:
  assumes "unat (x :: u32) < 2 ^ 31"
  shows "unat (scast x :: u64) = unat x"
proof -
  have "(scast x :: u64) = of_int (sint x)" by (rule of_int_sint[symmetric])
  also have "\<dots> = of_nat (unat x)" by (simp only: sint_nonneg[OF assms] of_int_of_nat_eq)
  finally have "unat (scast x :: u64) = unat (of_nat (unat x) :: u64)" by (rule arg_cong)
  also have "\<dots> = unat x" using assms by (intro unat_of_nat64) simp
  finally show ?thesis .
qed

section \<open>Bytes\<close>

text \<open>The first \<open>n\<close> bytes of a word in little-endian order.\<close>

definition le_bytes :: "nat \<Rightarrow> 'a::len word \<Rightarrow> u8 list" where
  "le_bytes n w = map (\<lambda>i. ucast (drop_bit (8 * i) w)) [0..<n]"

lemma length_le_bytes [simp]: "length (le_bytes n w) = n"
  by (simp add: le_bytes_def)

text \<open>A copy of bytes into memory that is addressed by offsets.\<close>

definition store_at :: "(nat \<Rightarrow> u8) \<Rightarrow> nat \<Rightarrow> u8 list \<Rightarrow> nat \<Rightarrow> u8" where
  "store_at m off bs = (\<lambda>x. if off \<le> x \<and> x < off + length bs then bs ! (x - off) else m x)"

lemma store_at_nil [simp]: "store_at m off [] = m"
  by (rule ext) (auto simp: store_at_def)

lemma store_at_inside: "i < length bs \<Longrightarrow> store_at m off bs (off + i) = bs ! i"
  by (simp add: store_at_def)

lemma store_at_outside: "x < off \<or> off + length bs \<le> x \<Longrightarrow> store_at m off bs x = m x"
  by (auto simp: store_at_def)

section \<open>Powers of two\<close>

text \<open>\<open>powerof2\<close> of \<open>sys/param.h\<close>, and the number of significant bits behind \<open>__builtin_clzl\<close>.\<close>

definition powerof2 :: "u64 \<Rightarrow> bool" where "powerof2 x \<longleftrightarrow> (x - 1) AND x = 0"

fun bit_length :: "nat \<Rightarrow> nat" where
  "bit_length n = (if n = 0 then 0 else Suc (bit_length (n div 2)))"

declare bit_length.simps [simp del]

lemma bit_length_bounds: "0 < n \<Longrightarrow> 2 ^ (bit_length n - 1) \<le> n \<and> n < 2 ^ bit_length n"
proof (induction n rule: bit_length.induct)
  case (1 n)
  show ?case
  proof (cases "n div 2 = 0")
    case True
    with "1.prems" have "n = 1" by linarith
    then show ?thesis by (simp add: bit_length.simps)
  next
    case False
    with 1 have ih: "2 ^ (bit_length (n div 2) - 1) \<le> n div 2" "n div 2 < 2 ^ bit_length (n div 2)" by auto
    have "bit_length (n div 2) \<noteq> 0" using False by (simp add: bit_length.simps)
    then obtain k where k: "bit_length (n div 2) = Suc k" by (cases "bit_length (n div 2)") auto
    have "bit_length n = Suc (Suc k)" using "1.prems" k by (subst bit_length.simps) simp
    moreover have "2 ^ k \<le> n div 2" "n div 2 < 2 * 2 ^ k" using ih k by auto
    then have "2 * 2 ^ k \<le> n" "n < 2 * (2 * 2 ^ k)" by linarith+
    ultimately show ?thesis by simp
  qed
qed

lemma bit_length_pos: "0 < n \<Longrightarrow> 0 < bit_length n"
  by (simp add: bit_length.simps)

lemma bit_length_le: "n < 2 ^ k \<Longrightarrow> bit_length n \<le> k"
proof (cases "n = 0")
  case False
  assume "n < 2 ^ k"
  with bit_length_bounds[of n] False have "(2::nat) ^ (bit_length n - 1) < 2 ^ k" by (meson le_less_trans neq0_conv)
  then have "bit_length n - 1 < k" by (rule power_less_imp_less_exp[rotated]) simp
  with bit_length_pos[of n] False show ?thesis by simp
qed (simp add: bit_length.simps)

lemma bit_top: "2 ^ k \<le> n \<Longrightarrow> n < 2 * 2 ^ k \<Longrightarrow> bit (n :: nat) k"
proof -
  assume "2 ^ k \<le> n" "n < 2 * 2 ^ k"
  then have "n div 2 ^ k = 1" by (intro div_nat_eqI) simp_all
  then show "bit n k" by (simp add: bit_iff_odd)
qed

lemma powerof2_exp:
  assumes "powerof2 x" "x \<noteq> 0"
  obtains k where "k < 64" "x = 2 ^ k" "unat x = 2 ^ k"
proof -
  let ?n = "unat x" and ?k = "bit_length (unat x) - 1"
  have pos: "0 < ?n" using assms(2) by (simp add: unat_gt_0)
  have lt: "?n < 2 ^ 64" using unsigned_less[of x, where ?'a = nat] by simp
  note b = bit_length_bounds[OF pos]
  have l: "bit_length ?n = Suc ?k" using bit_length_pos[OF pos] by simp
  have k: "?k < 64" using bit_length_le[OF lt] l by simp
  have top: "?n < 2 * 2 ^ ?k" using b l by (metis power_Suc)
  have "?n = 2 ^ ?k"
  proof (rule ccontr)
    assume "?n \<noteq> 2 ^ ?k"
    with b have ge: "2 ^ ?k \<le> ?n - 1" by linarith
    have "unat (x - 1) = ?n - 1" using pos by (simp add: unat_minus_one assms(2))
    moreover have "bit (?n - 1) ?k" using ge top by (intro bit_top) simp_all
    moreover have "bit ?n ?k" using b top by (intro bit_top) simp_all
    ultimately have "bit (unat (x - 1)) ?k \<and> bit (unat x) ?k" by simp
    then have "bit (x - 1) ?k \<and> bit x ?k" by (simp add: bit_unsigned_iff)
    then have "bit ((x - 1) AND x) ?k" by (simp add: bit_and_iff)
    with assms(1) show False by (simp add: powerof2_def)
  qed
  moreover from this have "(of_nat ?n :: u64) = of_nat (2 ^ ?k)" by simp
  then have "x = 2 ^ ?k" by simp
  ultimately show ?thesis using that k by blast
qed

lemma find_append: "List.find P (xs @ ys) = (case List.find P xs of Some x \<Rightarrow> Some x | None \<Rightarrow> List.find P ys)"
  by (induction xs) auto

end
