(* ===== verification/Linker_Utils.thy ===== *)
theory Linker_Utils
  imports Hybris_Prelude "HOL-Library.Sublist"
begin

text \<open>
  The string, path and offset helpers of the Q linker, \<open>hybris/common/q/linker_utils.cpp\<close>.
  C++ strings are character lists; a read or a \<open>substr\<close> that the source would perform out of
  range is the result \<open>None\<close>.
\<close>

section \<open>Definitions\<close>

definition isspace :: "char \<Rightarrow> bool" where
  "isspace c \<longleftrightarrow> c \<in> {CHR '' '', CHR 0x09, CHR 0x0A, CHR 0x0B, CHR 0x0C, CHR 0x0D}"

function trim_start :: "string \<Rightarrow> nat \<Rightarrow> nat" where
  "trim_start s i = (if i < length s \<and> isspace (s ! i) then trim_start s (i + 1) else i)"
  by auto
termination by (relation "measure (\<lambda>(s, i). length s - i)") auto

declare trim_start.simps [simp del]

fun trim_end :: "string \<Rightarrow> nat \<Rightarrow> nat \<Rightarrow> nat option" where
  "trim_end s start_index e =
     (if e < start_index then Some e
      else if \<not> isspace (s ! e) then Some e
      else case e of 0 \<Rightarrow> None | Suc k \<Rightarrow> trim_end s start_index k)"

declare trim_end.simps [simp del]

definition trim :: "string \<Rightarrow> string option" where
  "trim s =
     (if length s = 0 then Some []
      else
        let start_index = trim_start s 0
        in case trim_end s start_index (length s - 1) of
             None \<Rightarrow> None
           | Some end_index \<Rightarrow>
               if end_index < start_index then Some []
               else Some (take (end_index - start_index + 1) (drop start_index s)))"

text \<open>\<open>text.find(sep, start)\<close>: the first position from \<open>start\<close> on at which \<open>sep\<close> occurs.\<close>

definition str_find :: "string \<Rightarrow> string \<Rightarrow> nat \<Rightarrow> nat option" where
  "str_find s sep start =
     find (\<lambda>i. prefix sep (drop i s)) [start..<length s + 1]"

lemma str_find_bounds:
  "str_find s sep start = Some e \<Longrightarrow> start \<le> e \<and> e \<le> length s"
  by (auto simp: str_find_def find_Some_iff nth_append dest!: nth_mem[of _ "[start..<length s + 1]"])

function split_from :: "string \<Rightarrow> string \<Rightarrow> nat \<Rightarrow> string list option" where
  "split_from s sep start =
     (case str_find s sep start of
        Some e \<Rightarrow> map_option (\<lambda>ts. take (e - start) (drop start s) # ts) (split_from s sep (e + 1))
      | None \<Rightarrow> if start \<le> length s then Some [drop start s] else None)"
  by auto
termination
  by (relation "measure (\<lambda>(s, sep, start). length s + 1 - start)") (auto dest!: str_find_bounds)

declare split_from.simps [simp del]

definition split :: "string \<Rightarrow> string \<Rightarrow> string list option" where
  "split s sep = split_from s sep 0"

definition join :: "string list \<Rightarrow> char \<Rightarrow> string" where
  "join things separator =
     (case things of [] \<Rightarrow> [] | t # ts \<Rightarrow> t @ concat (map (\<lambda>u. separator # u) ts))"

text \<open>The substitution at a \<open>$\<close>: the rest of the string behind the replacement, if one matches.\<close>

fun format_at :: "(string \<times> string) list \<Rightarrow> string \<Rightarrow> (string \<times> string) option" where
  "format_at [] after = None"
| "format_at ((token, replacement) # params) after =
     (if take (length token) after = token
      then Some (replacement, drop (length token) after)
      else if take (length token + 2) after = CHR ''{'' # token @ ''}''
      then Some (replacement, drop (length token + 2) after)
      else format_at params after)"

lemma format_at_shorter: "format_at params after = Some (r, rest) \<Longrightarrow> length rest \<le> length after"
  by (induction params after rule: format_at.induct) (auto split: if_splits)

text \<open>
  The string is split at the position \<open>pos\<close>: what lies before it is never read again.  After a
  replacement the position is behind the replacement.
\<close>

function format_string :: "(string \<times> string) list \<Rightarrow> string \<Rightarrow> string" where
  "format_string params [] = []"
| "format_string params (c # cs) =
     (if c \<noteq> CHR ''$'' then c # format_string params cs
      else case format_at params cs of
             Some (r, rest) \<Rightarrow> r @ format_string params rest
           | None \<Rightarrow> c # format_string params cs)"
  by pat_completeness auto
termination
  by (relation "measure (\<lambda>(params, s). length s)") (auto dest: format_at_shorter)

text \<open>\<open>strrchr(path, '/')\<close> as a position.\<close>

definition last_slash :: "string \<Rightarrow> nat option" where
  "last_slash path = find (\<lambda>i. path ! i = CHR ''/'') (rev [0..<length path])"

definition dirname :: "string \<Rightarrow> string" where
  "dirname path =
     (case last_slash path of
        Some 0 \<Rightarrow> ''/''
      | None \<Rightarrow> ''.''
      | Some i \<Rightarrow> take i path)"

text \<open>
  The output buffer of \<open>normalize_path\<close> is kept in reverse, so that \<open>out_ptr\<close> is its head.
  \<open>pop_segment\<close> is the loop that moves \<open>out_ptr\<close> back over the last slash.
\<close>

fun pop_segment :: "string \<Rightarrow> string" where
  "pop_segment [] = []"
| "pop_segment (c # out) = (if c = CHR ''/'' then out else pop_segment out)"

fun at_segment_end :: "string \<Rightarrow> bool" where
  "at_segment_end [] = True"
| "at_segment_end (c # cs) = (c = CHR ''/'')"

function normalize_loop :: "string \<Rightarrow> string \<Rightarrow> string" where
  "normalize_loop [] out = out"
| "normalize_loop (c # inp) out =
     (if c = CHR ''/'' \<and> prefix ''./'' inp then normalize_loop (drop 1 inp) out
      else if c = CHR ''/'' \<and> prefix ''..'' inp \<and> at_segment_end (drop 2 inp)
      then normalize_loop (drop 2 inp)
             (if drop 2 inp = [] then CHR ''/'' # pop_segment out else pop_segment out)
      else if c = CHR ''/'' \<and> prefix ''/'' inp then normalize_loop inp out
      else normalize_loop inp (c # out))"
  by pat_completeness auto
termination by (relation "measure (\<lambda>(inp, out). length inp)") auto

definition normalize_path :: "string \<Rightarrow> string option" where
  "normalize_path path =
     (if \<not> prefix ''/'' path then None else Some (rev (normalize_loop path [])))"

definition file_is_in_dir :: "string \<Rightarrow> string \<Rightarrow> bool" where
  "file_is_in_dir file dir \<longleftrightarrow>
     take (length dir) file = dir \<and>
     (case drop (length dir) file of
        [] \<Rightarrow> False
      | c # rest \<Rightarrow> c = CHR ''/'' \<and> CHR ''/'' \<notin> set rest)"

definition file_is_under_dir :: "string \<Rightarrow> string \<Rightarrow> bool" where
  "file_is_under_dir file dir \<longleftrightarrow>
     take (length dir) file = dir \<and>
     (case drop (length dir) file of [] \<Rightarrow> False | c # rest \<Rightarrow> c = CHR ''/'')"

definition kZipFileSeparator :: string where
  "kZipFileSeparator = ''!/''"

definition parse_zip_path :: "string \<Rightarrow> (string \<times> string) option" where
  "parse_zip_path input_path =
     (case normalize_path input_path of
        None \<Rightarrow> None
      | Some path \<Rightarrow>
          (case str_find path kZipFileSeparator 0 of
             None \<Rightarrow> None
           | Some separator \<Rightarrow>
               if length path \<ge> 512 then None
               else Some (take separator path, drop (separator + 2) path)))"

definition page_start :: "int \<Rightarrow> int" where
  "page_start off = off AND NOT 4095"

definition page_offset :: "int \<Rightarrow> int" where
  "page_offset off = off AND 4095"

text \<open>
  \<open>None\<close> is the failed \<open>CHECK\<close>, which aborts; \<open>Some None\<close> is the result false.  The first operand
  is an \<open>off64_t\<close>, the second a \<open>size_t\<close>.
\<close>

definition safe_add :: "int \<Rightarrow> int \<Rightarrow> int option option" where
  "safe_add a b =
     (if \<not> a \<ge> 0 then None
      else if 2 ^ 63 - 1 - a < b then Some None
      else Some (Some (a + b)))"

definition split_path :: "string option \<Rightarrow> string \<Rightarrow> string list \<Rightarrow> string list option" where
  "split_path path delimiters paths =
     (case path of
        None \<Rightarrow> Some paths
      | Some p \<Rightarrow> if p = [] then Some paths else split p delimiters)"

text \<open>
  \<open>realpath\<close> and \<open>stat\<close> are the host's: the second is \<open>None\<close> when it fails and says otherwise
  whether the file is a directory.
\<close>

definition resolve_path ::
    "(string \<Rightarrow> string option) \<Rightarrow> (string \<Rightarrow> bool option) \<Rightarrow> string \<Rightarrow> string option" where
  "resolve_path realpath stat_dir path =
     (if path = [] then None
      else case realpath path of
        Some resolved \<Rightarrow> if stat_dir resolved = Some True then Some resolved else None
      | None \<Rightarrow>
          (case normalize_path path of
             None \<Rightarrow> None
           | Some normalized \<Rightarrow>
               (case parse_zip_path normalized of
                  Some (zip_path, entry_path) \<Rightarrow>
                    (case realpath zip_path of
                       None \<Rightarrow> None
                     | Some resolved \<Rightarrow> Some (resolved @ kZipFileSeparator @ entry_path))
                | None \<Rightarrow> if stat_dir normalized = Some True then Some normalized else None)))"

definition resolve_paths ::
    "(string \<Rightarrow> string option) \<Rightarrow> (string \<Rightarrow> bool option) \<Rightarrow> string list \<Rightarrow> string list" where
  "resolve_paths realpath stat_dir paths = List.map_filter (resolve_path realpath stat_dir) paths"

definition startsWith :: "string \<Rightarrow> string \<Rightarrow> bool" where
  "startsWith s pre \<longleftrightarrow> take (length pre) s = pre"

definition endsWith :: "string \<Rightarrow> string \<Rightarrow> bool" where
  "endsWith s suf \<longleftrightarrow>
     (if length suf > length s then False
      else take (length suf) (drop (length s - length suf) s) = suf)"

text \<open>\<open>parse_LD_PRELOAD\<close> of \<open>linker_main.cpp\<close>; \<open>None\<close> is an exception of \<open>split\<close>.\<close>

definition parse_LD_PRELOAD :: "string option \<Rightarrow> string list option" where
  "parse_LD_PRELOAD path =
     (case path of
        None \<Rightarrow> Some []
      | Some p \<Rightarrow> map_option (filter (\<lambda>s. s \<noteq> [])) (split p '' :''))"

section \<open>Trimming\<close>

lemma trim_start_dropWhile:
  "i \<le> length s \<Longrightarrow> drop (trim_start s i) s = dropWhile isspace (drop i s) \<and> i \<le> trim_start s i \<and> trim_start s i \<le> length s"
proof (induction s i rule: trim_start.induct)
  case (1 s i)
  show ?case
  proof (cases "i < length s \<and> isspace (s ! i)")
    case True
    with 1 show ?thesis
      by (subst (1 2 3) trim_start.simps) (auto simp: Cons_nth_drop_Suc[symmetric])
  next
    case False
    then show ?thesis using "1.prems"
      by (subst (1 2 3) trim_start.simps) (cases "i < length s", auto simp: Cons_nth_drop_Suc[symmetric])
  qed
qed

lemma trim_end_correct:
  assumes "st < length s" "\<not> isspace (s ! st)" "st \<le> e" "e < length s"
  shows "\<exists>r. trim_end s st e = Some r \<and> st \<le> r \<and>
    take (r - st + 1) (drop st s) = rev (dropWhile isspace (rev (take (e - st + 1) (drop st s))))"
  using assms(3,4)
proof (induction e)
  case 0
  then show ?case using assms by (subst trim_end.simps) (auto simp: take_Suc_conv_app_nth)
next
  case (Suc e)
  have t: "take (Suc e - st + 1) (drop st s) = take (Suc e - st) (drop st s) @ [s ! Suc e]"
    using Suc.prems by (simp add: take_Suc_conv_app_nth)
  show ?case
  proof (cases "isspace (s ! Suc e)")
    case True
    then have "st \<le> e" using assms(2) Suc.prems by (cases "st = Suc e") auto
    with Suc have IH: "\<exists>r. trim_end s st e = Some r \<and> st \<le> r \<and>
      take (r - st + 1) (drop st s) = rev (dropWhile isspace (rev (take (e - st + 1) (drop st s))))" by simp
    have "trim_end s st (Suc e) = trim_end s st e"
      using True \<open>st \<le> e\<close> by (subst trim_end.simps) simp
    with IH True t \<open>st \<le> e\<close> show ?thesis by (simp add: Suc_diff_le)
  next
    case False
    then have "trim_end s st (Suc e) = Some (Suc e)" using Suc.prems by (subst trim_end.simps) simp
    with False t Suc.prems show ?thesis by simp
  qed
qed

section \<open>Splitting\<close>

lemma prefix_char_drop: "prefix [c] (drop i s) \<longleftrightarrow> i < length s \<and> s ! i = c"
  by (cases "i < length s") (auto simp: Cons_nth_drop_Suc[symmetric])

lemma str_find_char_None: "str_find s [c] start = None \<Longrightarrow> c \<notin> set (drop start s)"
proof
  assume none: "str_find s [c] start = None" and "c \<in> set (drop start s)"
  then obtain k where k: "k < length (drop start s)" "drop start s ! k = c"
    unfolding in_set_conv_nth by blast
  then have "start + k < length s" "s ! (start + k) = c" by simp_all
  with none show False unfolding str_find_def find_None_iff prefix_char_drop
    by (metis atLeastLessThan_iff le_add1 less_SucI Suc_eq_plus1 set_upt)
qed

lemma str_find_char_Some:
  assumes "str_find s [c] start = Some e"
  shows "start \<le> e" "e < length s" "s ! e = c" "c \<notin> set (take (e - start) (drop start s))"
proof -
  let ?ix = "[start..<length s + 1]"
  from assms obtain k where k: "k < length ?ix" "e = ?ix ! k" "e < length s" "s ! e = c"
    "\<And>j. j < k \<Longrightarrow> \<not> prefix [c] (drop (?ix ! j) s)"
    unfolding str_find_def find_Some_iff prefix_char_drop by blast
  have e: "e = start + k" using k(1,2) by (simp del: upt_Suc)
  show "start \<le> e" "e < length s" "s ! e = c" using e k(3,4) by simp_all
  show "c \<notin> set (take (e - start) (drop start s))"
  proof
    assume "c \<in> set (take (e - start) (drop start s))"
    then obtain j where "j < k" "s ! (start + j) = c"
      using e k(3) by (auto simp: in_set_conv_nth)
    with k(1,5) k(3) e show False by (auto simp: prefix_char_drop simp del: upt_Suc)
  qed
qed

lemma split_from_char:
  "start \<le> length s \<Longrightarrow> \<exists>ts. split_from s [c] start = Some ts \<and> ts \<noteq> [] \<and> join ts c = drop start s \<and> c \<notin> set (concat ts)"
proof (induction s "[c]" start rule: split_from.induct)
  case (1 s start)
  show ?case
  proof (cases "str_find s [c] start")
    case None
    with "1.prems" show ?thesis
      by (subst split_from.simps) (simp add: join_def str_find_char_None)
  next
    case (Some e)
    note e = str_find_char_Some[OF Some]
    from "1.hyps"[OF Some] e(2) obtain ts where ts: "split_from s [c] (e + 1) = Some ts" "ts \<noteq> []"
      "join ts c = drop (e + 1) s" "c \<notin> set (concat ts)" by auto
    have "take (e - start) (drop start s) @ c # drop (e + 1) s = drop start s"
    proof -
      have "take (e - start) (drop start s) @ drop (e - start) (drop start s) = drop start s"
        by (rule append_take_drop_id)
      then show ?thesis using e(1,2,3) Cons_nth_drop_Suc[of e s] by simp
    qed
    moreover have "split_from s [c] start = Some (take (e - start) (drop start s) # ts)"
      using Some ts(1) by (subst split_from.simps) simp
    ultimately show ?thesis using ts e(4) by (cases ts) (auto simp: join_def)
  qed
qed

section \<open>Path normalisation\<close>

text \<open>What may not follow a slash of a normalised path.\<close>

definition bad_segment :: "string \<Rightarrow> bool" where
  "bad_segment cs \<longleftrightarrow> prefix ''/'' cs \<or> prefix ''./'' cs \<or> prefix ''../'' cs \<or> cs = ''..''"

fun clean_path :: "string \<Rightarrow> bool" where
  "clean_path [] = True"
| "clean_path (c # cs) = ((c = CHR ''/'' \<longrightarrow> \<not> bad_segment cs) \<and> clean_path cs)"

fun clean_out :: "string \<Rightarrow> string \<Rightarrow> bool" where
  "clean_out [] f = True"
| "clean_out (c # out) f = ((c = CHR ''/'' \<longrightarrow> \<not> bad_segment f) \<and> clean_out out (c # f))"

lemma clean_out_clean_path: "clean_out out f \<Longrightarrow> clean_path f \<Longrightarrow> clean_path (rev out @ f)"
  by (induction out arbitrary: f) auto

lemma bad_segment_slash: "bad_segment (p @ CHR ''/'' # f) = bad_segment (p @ CHR ''/'' # g)"
proof (cases p)
  case (Cons a q)
  then show ?thesis
  proof (cases q)
    case c2: (Cons b r)
    then show ?thesis using Cons by (cases r) (auto simp: bad_segment_def)
  qed (auto simp: bad_segment_def)
qed (auto simp: bad_segment_def)

lemma clean_out_slash: "clean_out out (p @ CHR ''/'' # f) = clean_out out (p @ CHR ''/'' # g)"
proof (induction out arbitrary: p)
  case (Cons c out)
  from Cons.IH[of "c # p"] show ?case using bad_segment_slash[of p f g] by simp
qed simp

lemma clean_out_pop: "clean_out out f \<Longrightarrow> clean_out (pop_segment out) (CHR ''/'' # g)"
proof (induction out arbitrary: f)
  case (Cons c out)
  then show ?case using clean_out_slash[of out "[]" f g] by auto
qed simp

lemma at_segment_end_cases: "at_segment_end cs \<Longrightarrow> cs = [] \<or> (\<exists>g. cs = CHR ''/'' # g)"
  by (cases cs) auto

lemma not_bad_segment:
  assumes "\<not> prefix ''./'' cs" "\<not> (prefix ''..'' cs \<and> at_segment_end (drop 2 cs))" "\<not> prefix ''/'' cs"
  shows "\<not> bad_segment cs"
  using assms by (auto simp: bad_segment_def prefix_def)

lemma normalize_loop_clean: "clean_out out inp \<Longrightarrow> clean_path (rev (normalize_loop inp out))"
proof (induction inp out rule: normalize_loop.induct)
  case (1 out)
  then show ?case using clean_out_clean_path[of out "[]"] by simp
next
  case (2 c inp out)
  consider (dot) "c = CHR ''/''" "prefix ''./'' inp"
    | (up) "c = CHR ''/''" "\<not> prefix ''./'' inp" "prefix ''..'' inp" "at_segment_end (drop 2 inp)"
    | (slash) "c = CHR ''/''" "\<not> prefix ''./'' inp" "\<not> (prefix ''..'' inp \<and> at_segment_end (drop 2 inp))" "prefix ''/'' inp"
    | (push) "c = CHR ''/'' \<longrightarrow> \<not> prefix ''./'' inp \<and> \<not> (prefix ''..'' inp \<and> at_segment_end (drop 2 inp)) \<and> \<not> prefix ''/'' inp"
    by blast
  then show ?case
  proof cases
    case dot
    then obtain g where g: "drop 1 inp = CHR ''/'' # g" by (auto simp: prefix_def)
    have "clean_out out (drop 1 inp)"
      using "2.prems" dot(1) clean_out_slash[of out "[]" inp g] unfolding g by simp
    with 2 dot show ?thesis by simp
  next
    case up
    let ?out = "if drop 2 inp = [] then CHR ''/'' # pop_segment out else pop_segment out"
    have "clean_out ?out (drop 2 inp)"
      using clean_out_pop[OF "2.prems"] at_segment_end_cases[OF up(4)] by (auto simp: bad_segment_def)
    with "2.IH"(2) up show ?thesis by simp
  next
    case slash
    then obtain g where g: "inp = CHR ''/'' # g" by (auto simp: prefix_def)
    have "clean_out out inp" using "2.prems" slash(1) clean_out_slash[of out "[]" inp g] by (simp add: g)
    moreover have "\<not> prefix ''..'' inp" by (simp add: g)
    ultimately show ?thesis using "2.IH"(3) slash by simp
  next
    case push
    have "clean_out (c # out) inp" using "2.prems" push not_bad_segment[of inp] by auto
    with "2.IH"(4) push show ?thesis by auto
  qed
qed

lemma normalize_loop_first:
  "prefix ''/'' inp \<or> suffix ''/'' out \<Longrightarrow> suffix ''/'' out \<or> out = [] \<Longrightarrow>
   suffix ''/'' (normalize_loop inp out)"
proof (induction inp out rule: normalize_loop.induct)
  case (2 c inp out)
  have pop: "suffix ''/'' (pop_segment o') \<or> pop_segment o' = []" if "suffix ''/'' o' \<or> o' = []" for o'
    using that by (induction o' rule: pop_segment.induct) (auto simp: suffix_Cons)
  consider (dot) "c = CHR ''/''" "prefix ''./'' inp"
    | (up) "c = CHR ''/''" "\<not> prefix ''./'' inp" "prefix ''..'' inp" "at_segment_end (drop 2 inp)"
    | (slash) "c = CHR ''/''" "\<not> prefix ''./'' inp" "\<not> (prefix ''..'' inp \<and> at_segment_end (drop 2 inp))" "prefix ''/'' inp"
    | (push) "\<not> (c = CHR ''/'' \<and> prefix ''./'' inp)" "\<not> (c = CHR ''/'' \<and> prefix ''..'' inp \<and> at_segment_end (drop 2 inp))"
        "\<not> (c = CHR ''/'' \<and> prefix ''/'' inp)"
    by blast
  then show ?case
  proof cases
    case dot
    then have "prefix ''/'' (drop 1 inp)" by (auto simp: prefix_def)
    with "2.IH"(1) "2.prems"(2) dot show ?thesis by (simp only: normalize_loop.simps if_True simp_thms)
  next
    case up
    let ?out = "if drop 2 inp = [] then CHR ''/'' # pop_segment out else pop_segment out"
    have "prefix ''/'' (drop 2 inp) \<or> drop 2 inp = []" using at_segment_end_cases[OF up(4)] by auto
    then have "prefix ''/'' (drop 2 inp) \<or> suffix ''/'' ?out" "suffix ''/'' ?out \<or> ?out = []"
      using pop[OF "2.prems"(2)] by (auto simp: suffix_Cons)
    with "2.IH"(2) up show ?thesis by (simp only: normalize_loop.simps if_True if_False simp_thms)
  next
    case slash
    with "2.IH"(3) "2.prems"(2) show ?thesis by (simp only: normalize_loop.simps if_True if_False simp_thms)
  next
    case push
    have "suffix ''/'' (c # out)" using "2.prems" by (auto simp: suffix_Cons)
    with "2.IH"(4) push show ?thesis by (simp only: normalize_loop.simps if_True if_False simp_thms)
  qed
qed auto

lemma length_pop_segment: "length (pop_segment out) \<le> length out"
  by (induction out rule: pop_segment.induct) auto

lemma normalize_loop_length: "length (normalize_loop inp out) \<le> length inp + length out"
proof (induction inp out rule: normalize_loop.induct)
  case (2 c inp out)
  have "length (normalize_loop (drop 2 inp) (if drop 2 inp = [] then CHR ''/'' # pop_segment out else pop_segment out))
    \<le> Suc (length inp) + length out"
    if "c = CHR ''/''" "\<not> prefix ''./'' inp" "prefix ''..'' inp \<and> at_segment_end (drop 2 inp)"
    using "2.IH"(2) that length_pop_segment[of out] by (auto simp: prefix_def)
  with "2.IH"(1,3,4) show ?case by (auto split: if_splits)
qed simp

section \<open>Properties\<close>

text \<open>
  Trimming never reads outside the string, although its backward loop has no lower guard, and
  returns the string without its leading and trailing white space.
\<close>

theorem trim_correct: "trim s = Some (rev (dropWhile isspace (rev (dropWhile isspace s))))"
proof (cases "trim_start s 0 < length s")
  case True
  let ?st = "trim_start s 0"
  have d: "drop ?st s = dropWhile isspace s" using trim_start_dropWhile[of 0 s] by simp
  have "\<not> isspace (s ! ?st)" using d True hd_dropWhile[of isspace s] by (metis drop_eq_Nil hd_drop_conv_nth not_le)
  moreover have "?st \<le> length s - 1" "length s - 1 < length s" using True by auto
  ultimately obtain r where
    "trim_end s ?st (length s - 1) = Some r" "?st \<le> r"
    "take (r - ?st + 1) (drop ?st s) = rev (dropWhile isspace (rev (take (length s - 1 - ?st + 1) (drop ?st s))))"
    using trim_end_correct[OF True, of "length s - 1"] by blast
  moreover have "take (length s - 1 - ?st + 1) (drop ?st s) = drop ?st s" using True by simp
  ultimately show ?thesis using True d by (auto simp: trim_def)
next
  case False
  then have "trim_start s 0 = length s" "dropWhile isspace s = []"
    using trim_start_dropWhile[of 0 s] by auto
  then show ?thesis by (auto simp: trim_def trim_end.simps simp del: dropWhile_eq_Nil_conv)
qed

text \<open>
  Splitting at a one-character separator succeeds, no piece contains the separator, and joining
  the pieces with it gives the string back.
\<close>

theorem split_join: "\<exists>ts. split s [c] = Some ts \<and> join ts c = s \<and> c \<notin> set (concat ts)"
  using split_from_char[of 0 s c] by (auto simp: split_def)



text \<open>
  A list in \<open>LD_PRELOAD\<close> that is separated by colons, or by blanks, is taken as one name:
  \<open>split\<close> looks for the two-character string of both separators.
\<close>

theorem ld_preload_single_separator:
  "parse_LD_PRELOAD (Some ''liba.so:libb.so'') = Some [''liba.so:libb.so''] \<and>
   parse_LD_PRELOAD (Some ''liba.so libb.so'') = Some [''liba.so libb.so'']"
  by code_simp

end
