(* ===== verification/Linker_Phdr.thy ===== *)
theory Linker_Phdr
  imports Linker_Utils
begin

text \<open>
  Reading and checking of an ELF file by the Q linker, and the program-header tables of
  \<open>hybris/common/q/linker_phdr.cpp\<close> (64-bit AArch64 build), with
  \<open>q/linker_mapped_file_fragment.cpp\<close>.  The file's contents and the host's answers to \<open>mmap64\<close>,
  \<open>mprotect\<close> and \<open>pread64\<close> are parameters; each \<open>DL_ERR\<close> return is a value of \<open>elf_error\<close>.
  Warnings for old target SDK levels do not change the result and are left out.
\<close>

section \<open>Definitions\<close>

record elf_phdr =
  p_type :: u32
  p_flags :: u32
  p_offset :: u64
  p_vaddr :: u64
  p_filesz :: u64
  p_memsz :: u64

record elf_ehdr =
  e_ident :: "u8 list"
  e_type :: u16
  e_machine :: u16
  e_version :: u32
  e_phoff :: u64
  e_shoff :: u64
  e_phnum :: u16
  e_shentsize :: u16
  e_shnum :: u16
  e_shstrndx :: u16

record elf_shdr =
  sh_type :: u32
  sh_offset :: u64
  sh_size :: u64
  sh_link :: u32

definition PT_LOAD :: u32 where "PT_LOAD = 1"
definition PT_DYNAMIC :: u32 where "PT_DYNAMIC = 2"
definition PT_INTERP :: u32 where "PT_INTERP = 3"
definition PT_PHDR :: u32 where "PT_PHDR = 6"
definition PT_GNU_RELRO :: u32 where "PT_GNU_RELRO = 0x6474e552"
definition PF_X :: u32 where "PF_X = 1"
definition PF_W :: u32 where "PF_W = 2"
definition PF_R :: u32 where "PF_R = 4"
definition PROT_READ :: u32 where "PROT_READ = 1"
definition PROT_WRITE :: u32 where "PROT_WRITE = 2"
definition PROT_EXEC :: u32 where "PROT_EXEC = 4"
definition SHT_STRTAB :: u32 where "SHT_STRTAB = 3"
definition SHT_DYNAMIC :: u32 where "SHT_DYNAMIC = 6"
definition EM_AARCH64 :: u16 where "EM_AARCH64 = 183"

lemmas elf_consts = PT_LOAD_def PT_DYNAMIC_def PT_INTERP_def PT_PHDR_def PT_GNU_RELRO_def PF_X_def
  PF_W_def PF_R_def PROT_READ_def PROT_WRITE_def PROT_EXEC_def SHT_STRTAB_def SHT_DYNAMIC_def EM_AARCH64_def

definition PAGE_SIZE :: u64 where "PAGE_SIZE = 4096"

definition PAGE_START :: "u64 \<Rightarrow> u64" where "PAGE_START x = x AND NOT (PAGE_SIZE - 1)"

definition PAGE_OFFSET :: "u64 \<Rightarrow> u64" where "PAGE_OFFSET x = x AND (PAGE_SIZE - 1)"

definition PAGE_END :: "u64 \<Rightarrow> u64" where "PAGE_END x = PAGE_START (x + (PAGE_SIZE - 1))"

definition PFLAGS_TO_PROT :: "u32 \<Rightarrow> u32" where
  "PFLAGS_TO_PROT x =
     (if x AND PF_X \<noteq> 0 then PROT_EXEC else 0) OR (if x AND PF_R \<noteq> 0 then PROT_READ else 0) OR
     (if x AND PF_W \<noteq> 0 then PROT_WRITE else 0)"

datatype elf_error =
    CannotRead | TooSmall
  | BadMagic | Is32Bit | UnknownClass | NotLittleEndian | BadType | BadVersion | WrongMachine
  | BadShentsize | BadShstrndx
  | BadPhnum | BadPhdrRange | PhdrMapFailed
  | NoSectionHeaders | BadShdrRange | ShdrMapFailed
  | NoDynamicSection | DynamicOffset | DynamicSize | DynamicLink | DynamicLinkType
  | BadDynamicRange | DynamicMapFailed | BadStrtabRange | StrtabMapFailed
  | CheckFailed
  | NoLoadable | ReservedTooSmall | CannotReserve
  | PhdrNotFound | PhdrNotLoaded

text \<open>The host's view of the file that is opened: what its bytes decode to, and which maps succeed.\<close>

record elf_file =
  ef_pread :: "int \<Rightarrow> int \<times> elf_ehdr"
  ef_phdrs :: "int \<Rightarrow> nat \<Rightarrow> elf_phdr list"
  ef_shdrs :: "int \<Rightarrow> nat \<Rightarrow> elf_shdr list"
  ef_mmap :: "int \<Rightarrow> int \<Rightarrow> bool"

record elf_reader =
  did_read :: bool
  did_load :: bool
  file_offset :: int
  file_size :: int
  header :: elf_ehdr
  phdr_table :: "elf_phdr list"
  shdr_table :: "elf_shdr list"
  dynamic_range :: "int \<times> int"
  strtab_range :: "int \<times> int"
  load_start :: u64
  load_size :: u64
  load_bias :: u64
  loaded_phdr :: "u64 option"
  mapped_by_caller :: bool

definition ReadElfHeader :: "elf_file \<Rightarrow> elf_reader \<Rightarrow> elf_error + elf_reader" where
  "ReadElfHeader f r =
     (let (rc, h) = ef_pread f (file_offset r) in
      if rc < 0 then Inl CannotRead
      else if rc \<noteq> 64 then Inl TooSmall
      else Inr (r\<lparr>header := h\<rparr>))"

definition VerifyElfHeader :: "int \<Rightarrow> elf_reader \<Rightarrow> elf_error + elf_reader" where
  "VerifyElfHeader sdk r =
     (let h = header r; elf_class = e_ident h ! 4 in
      if take 4 (e_ident h) \<noteq> [0x7f, 0x45, 0x4c, 0x46] then Inl BadMagic
      else if elf_class \<noteq> 2 then (if elf_class = 1 then Inl Is32Bit else Inl UnknownClass)
      else if e_ident h ! 5 \<noteq> 1 then Inl NotLittleEndian
      else if e_type h \<noteq> 3 then Inl BadType
      else if e_version h \<noteq> 1 then Inl BadVersion
      else if e_machine h \<noteq> EM_AARCH64 then Inl WrongMachine
      else if e_shentsize h \<noteq> 64 \<and> sdk \<ge> 26 then Inl BadShentsize
      else if e_shstrndx h = 0 \<and> sdk \<ge> 26 then Inl BadShstrndx
      else Inr r)"

text \<open>\<open>None\<close> is a failed \<open>CHECK\<close> of \<open>safe_add\<close>.\<close>

definition CheckFileRange :: "elf_reader \<Rightarrow> u64 \<Rightarrow> u64 \<Rightarrow> u64 \<Rightarrow> bool option" where
  "CheckFileRange r off sz alignment =
     (if \<not> off > 0 then Some False
      else case safe_add (file_offset r) (uint off) of
        None \<Rightarrow> None
      | Some None \<Rightarrow> Some False
      | Some (Some range_start) \<Rightarrow>
          (case safe_add range_start (uint sz) of
             None \<Rightarrow> None
           | Some None \<Rightarrow> Some False
           | Some (Some range_end) \<Rightarrow>
               Some (range_start < file_size r \<and> range_end \<le> file_size r \<and> off mod alignment = 0)))"

text \<open>
  \<open>MappedFileFragment::Map\<close>: \<open>None\<close> is a failed \<open>CHECK\<close>, \<open>Some None\<close> a failed map, and otherwise
  the result is the file offset of the first byte and the size of the data that is visible.
\<close>

definition Map :: "elf_file \<Rightarrow> int \<Rightarrow> u64 \<Rightarrow> u64 \<Rightarrow> (int \<times> int) option option" where
  "Map f base_offset elf_offset sz =
     (case safe_add base_offset (uint elf_offset) of
        Some (Some off) \<Rightarrow>
          (let page_min = page_start off in
           case safe_add off (uint sz) of
             Some (Some end0) \<Rightarrow>
               (case safe_add end0 (page_offset off) of
                  Some (Some end_offset) \<Rightarrow>
                    (let map_size = end_offset - page_min in
                     if \<not> map_size \<ge> uint sz then None
                     else if \<not> ef_mmap f page_min map_size then Some None
                     else Some (Some (page_min + page_offset off, uint sz)))
                | _ \<Rightarrow> None)
           | _ \<Rightarrow> None)
      | _ \<Rightarrow> None)"

definition checked_map ::
    "elf_file \<Rightarrow> elf_reader \<Rightarrow> u64 \<Rightarrow> u64 \<Rightarrow> u64 \<Rightarrow> elf_error \<Rightarrow> elf_error \<Rightarrow> elf_error + int \<times> int" where
  "checked_map f r off sz alignment bad_range map_failed =
     (case CheckFileRange r off sz alignment of
        None \<Rightarrow> Inl CheckFailed
      | Some False \<Rightarrow> Inl bad_range
      | Some True \<Rightarrow>
          (case Map f (file_offset r) off sz of
             None \<Rightarrow> Inl CheckFailed
           | Some None \<Rightarrow> Inl map_failed
           | Some (Some rng) \<Rightarrow> Inr rng))"

definition ReadProgramHeaders :: "elf_file \<Rightarrow> elf_reader \<Rightarrow> elf_error + elf_reader" where
  "ReadProgramHeaders f r =
     (let phdr_num = unat (e_phnum (header r)) in
      if phdr_num < 1 \<or> phdr_num > 65536 div 56 then Inl BadPhnum
      else case checked_map f r (e_phoff (header r)) (of_nat (phdr_num * 56)) 8 BadPhdrRange PhdrMapFailed of
        Inl e \<Rightarrow> Inl e
      | Inr (off, sz) \<Rightarrow> Inr (r\<lparr>phdr_table := ef_phdrs f off phdr_num\<rparr>))"

definition ReadSectionHeaders :: "elf_file \<Rightarrow> elf_reader \<Rightarrow> elf_error + elf_reader" where
  "ReadSectionHeaders f r =
     (let shdr_num = unat (e_shnum (header r)) in
      if shdr_num = 0 then Inl NoSectionHeaders
      else case checked_map f r (e_shoff (header r)) (of_nat (shdr_num * 64)) 8 BadShdrRange ShdrMapFailed of
        Inl e \<Rightarrow> Inl e
      | Inr (off, sz) \<Rightarrow> Inr (r\<lparr>shdr_table := ef_shdrs f off shdr_num\<rparr>))"

text \<open>The last \<open>PT_DYNAMIC\<close> of the table determines the expected offset and size.\<close>

definition pt_dynamic :: "elf_phdr list \<Rightarrow> u64 \<times> u64" where
  "pt_dynamic phdrs =
     fold (\<lambda>ph acc. if p_type ph = PT_DYNAMIC then (p_offset ph, p_filesz ph) else acc) phdrs (0, 0)"

definition ReadDynamicSection :: "elf_file \<Rightarrow> int \<Rightarrow> elf_reader \<Rightarrow> elf_error + elf_reader" where
  "ReadDynamicSection f sdk r =
     (case find (\<lambda>sh. sh_type sh = SHT_DYNAMIC) (shdr_table r) of
        None \<Rightarrow> Inl NoDynamicSection
      | Some dynamic_shdr \<Rightarrow>
          (let (pt_dynamic_offset, pt_dynamic_filesz) = pt_dynamic (phdr_table r);
               link = unat (sh_link dynamic_shdr) in
           if pt_dynamic_offset \<noteq> sh_offset dynamic_shdr \<and> sdk \<ge> 26 then Inl DynamicOffset
           else if pt_dynamic_filesz \<noteq> sh_size dynamic_shdr \<and> sdk \<ge> 26 then Inl DynamicSize
           else if link \<ge> length (shdr_table r) then Inl DynamicLink
           else
             let strtab_shdr = shdr_table r ! link in
             if sh_type strtab_shdr \<noteq> SHT_STRTAB then Inl DynamicLinkType
             else case checked_map f r (sh_offset dynamic_shdr) (sh_size dynamic_shdr) 8
                         BadDynamicRange DynamicMapFailed of
               Inl e \<Rightarrow> Inl e
             | Inr dyn \<Rightarrow>
                 (case checked_map f r (sh_offset strtab_shdr) (sh_size strtab_shdr) 1
                         BadStrtabRange StrtabMapFailed of
                    Inl e \<Rightarrow> Inl e
                  | Inr strtab \<Rightarrow> Inr (r\<lparr>dynamic_range := dyn, strtab_range := strtab\<rparr>))))"

text \<open>Sequencing of the steps that may fail.\<close>

definition Read :: "elf_file \<Rightarrow> int \<Rightarrow> int \<Rightarrow> int \<Rightarrow> elf_reader \<Rightarrow> elf_error + elf_reader" where
  "Read f sdk foff fsize r =
     (if did_read r then Inr r
      else try_then (ReadElfHeader f (r\<lparr>file_offset := foff, file_size := fsize\<rparr>))
         (\<lambda>r1. try_then (VerifyElfHeader sdk r1)
         (\<lambda>r2. try_then (ReadProgramHeaders f r2)
         (\<lambda>r3. try_then (ReadSectionHeaders f r3)
         (\<lambda>r4. try_then (ReadDynamicSection f sdk r4)
         (\<lambda>r5. Inr (r5\<lparr>did_read := True\<rparr>)))))))"

text \<open>The extent of the loadable segments: size, lowest and highest page address.\<close>

definition phdr_table_get_load_size :: "elf_phdr list \<Rightarrow> u64 \<times> u64 \<times> u64" where
  "phdr_table_get_load_size phdrs =
     (let (min_vaddr, max_vaddr, found) =
            fold (\<lambda>ph (mn, mx, found).
                    if p_type ph \<noteq> PT_LOAD then (mn, mx, found)
                    else let segment_end = p_vaddr ph + p_memsz ph in
                         (if p_vaddr ph < mn then p_vaddr ph else mn,
                          if segment_end > mx then segment_end else mx, True))
              phdrs (0xFFFFFFFFFFFFFFFF, 0, False);
          min_vaddr = PAGE_START (if \<not> found then 0 else min_vaddr);
          max_vaddr = PAGE_END max_vaddr
      in (max_vaddr - min_vaddr, min_vaddr, max_vaddr))"

definition align_up :: "u64 \<Rightarrow> u64 \<Rightarrow> u64" where
  "align_up p align = (p + align - 1) AND NOT (align - 1)"

definition align_down :: "u64 \<Rightarrow> u64 \<Rightarrow> u64" where
  "align_down p align = p AND NOT (align - 1)"

text \<open>
  \<open>ReserveAligned\<close>: the host maps a region of the given size or fails, and \<open>random\<close> is the value
  of \<open>rand()\<close>.  The result is the start of the reservation.
\<close>

definition ReserveAligned ::
    "(u64 \<Rightarrow> u64 option) \<Rightarrow> bool \<Rightarrow> u64 \<Rightarrow> u64 \<Rightarrow> u64 \<Rightarrow> u64 option" where
  "ReserveAligned mmap_anon first_stage_init random sz align =
     (if align = PAGE_SIZE then mmap_anon sz
      else
        let mmap_size = align_up sz align + align - PAGE_SIZE in
        case mmap_anon mmap_size of
          None \<Rightarrow> None
        | Some mmap_ptr \<Rightarrow>
            (let first = align_up mmap_ptr align;
                 last = align_down (mmap_ptr + mmap_size) align - sz;
                 n = (if first_stage_init then 0 else random mod ((last - first) div PAGE_SIZE + 1))
             in Some (first + n * PAGE_SIZE)))"

definition kLibraryAlignment :: u64 where
  "kLibraryAlignment = push_bit 18 1"

record address_space_params =
  start_addr :: u64
  reserved_size :: u64
  must_use_address :: bool

text \<open>The thunk reserve: \<open>p_filesz\<close> times the number of bytes of thunk per byte of code.\<close>

definition thunk_reserve :: "elf_phdr list \<Rightarrow> u64" where
  "thunk_reserve phdrs =
     fold (\<lambda>ph acc. if p_type ph = PT_LOAD \<and> p_flags ph AND PF_X \<noteq> 0
                    then acc + p_filesz ph * (96 div 4) else acc) phdrs 0"

definition ReserveAddressSpace ::
    "(u64 \<Rightarrow> u64 option) \<Rightarrow> bool \<Rightarrow> u64 \<Rightarrow> bool \<Rightarrow> elf_reader \<Rightarrow> address_space_params
      \<Rightarrow> elf_error + elf_reader \<times> address_space_params" where
  "ReserveAddressSpace mmap_anon first_stage_init random patching r asp =
     (let (lsize, min_vaddr, _) = phdr_table_get_load_size (phdr_table r) in
      if lsize = 0 then Inl NoLoadable
      else
        let lsize = (if patching then lsize + PAGE_END (thunk_reserve (phdr_table r)) else lsize) in
        if lsize > reserved_size asp then
          (if must_use_address asp then Inl ReservedTooSmall
           else case ReserveAligned mmap_anon first_stage_init random lsize kLibraryAlignment of
             None \<Rightarrow> Inl CannotReserve
           | Some start \<Rightarrow>
               Inr (r\<lparr>load_size := lsize, load_start := start, load_bias := start - min_vaddr\<rparr>, asp))
        else
          let start = start_addr asp in
          Inr (r\<lparr>load_size := lsize, mapped_by_caller := True, load_start := start,
                 load_bias := start - min_vaddr\<rparr>,
               asp\<lparr>start_addr := start + lsize, reserved_size := reserved_size asp - lsize\<rparr>))"

text \<open>
  The protection loops: the calls of \<open>mprotect\<close> in order, up to the first that fails, and whether
  all succeeded.
\<close>

type_synonym prot_call = "u64 \<times> u64 \<times> u32"

definition load_prot_call :: "u64 \<Rightarrow> u32 \<Rightarrow> elf_phdr \<Rightarrow> prot_call" where
  "load_prot_call bias extra_prot_flags ph =
     (let seg_page_start = PAGE_START (p_vaddr ph) + bias;
          seg_page_end = PAGE_END (p_vaddr ph + p_memsz ph) + bias;
          prot = PFLAGS_TO_PROT (p_flags ph);
          prot = (if extra_prot_flags AND PROT_WRITE \<noteq> 0 then prot AND NOT PROT_EXEC else prot);
          prot = (if prot AND PROT_EXEC \<noteq> 0 then prot OR PROT_READ else prot)
      in (seg_page_start, seg_page_end - seg_page_start, prot OR extra_prot_flags))"

fun phdr_table_set_load_prot ::
    "(prot_call \<Rightarrow> bool) \<Rightarrow> elf_phdr list \<Rightarrow> u64 \<Rightarrow> u32 \<Rightarrow> prot_call list \<times> bool" where
  "phdr_table_set_load_prot mprotect [] bias extra = ([], True)"
| "phdr_table_set_load_prot mprotect (ph # phs) bias extra =
     (if p_type ph \<noteq> PT_LOAD \<or> p_flags ph AND PF_W \<noteq> 0
      then phdr_table_set_load_prot mprotect phs bias extra
      else let c = load_prot_call bias extra ph in
           if \<not> mprotect c then ([c], False)
           else let (cs, ok) = phdr_table_set_load_prot mprotect phs bias extra in (c # cs, ok))"

definition phdr_table_protect_segments ::
    "(prot_call \<Rightarrow> bool) \<Rightarrow> elf_phdr list \<Rightarrow> u64 \<Rightarrow> prot_call list \<times> bool" where
  "phdr_table_protect_segments mprotect phs bias = phdr_table_set_load_prot mprotect phs bias 0"

definition phdr_table_unprotect_segments ::
    "(prot_call \<Rightarrow> bool) \<Rightarrow> elf_phdr list \<Rightarrow> u64 \<Rightarrow> prot_call list \<times> bool" where
  "phdr_table_unprotect_segments mprotect phs bias = phdr_table_set_load_prot mprotect phs bias PROT_WRITE"

definition page_span :: "u64 \<Rightarrow> elf_phdr \<Rightarrow> u64 \<times> u64" where
  "page_span bias ph =
     (let s = PAGE_START (p_vaddr ph) + bias; e = PAGE_END (p_vaddr ph + p_memsz ph) + bias in (s, e - s))"

fun phdr_table_set_gnu_relro_prot ::
    "(prot_call \<Rightarrow> bool) \<Rightarrow> elf_phdr list \<Rightarrow> u64 \<Rightarrow> u32 \<Rightarrow> prot_call list \<times> bool" where
  "phdr_table_set_gnu_relro_prot mprotect [] bias prot = ([], True)"
| "phdr_table_set_gnu_relro_prot mprotect (ph # phs) bias prot =
     (if p_type ph \<noteq> PT_GNU_RELRO then phdr_table_set_gnu_relro_prot mprotect phs bias prot
      else let (s, n) = page_span bias ph; c = (s, n, prot) in
           if \<not> mprotect c then ([c], False)
           else let (cs, ok) = phdr_table_set_gnu_relro_prot mprotect phs bias prot in (c # cs, ok))"

definition phdr_table_protect_gnu_relro ::
    "(prot_call \<Rightarrow> bool) \<Rightarrow> elf_phdr list \<Rightarrow> u64 \<Rightarrow> prot_call list \<times> bool" where
  "phdr_table_protect_gnu_relro mprotect phs bias = phdr_table_set_gnu_relro_prot mprotect phs bias PROT_READ"

text \<open>
  \<open>phdr_table_serialize_gnu_relro\<close>: the host answers each write with the number of bytes written
  and each map with success; the result is the list of address, size and file offset of the maps
  done, and the final offset when all succeeded.
\<close>

fun phdr_table_serialize_gnu_relro ::
    "(u64 \<Rightarrow> u64 \<Rightarrow> u64) \<Rightarrow> (u64 \<Rightarrow> u64 \<Rightarrow> u64 \<Rightarrow> bool) \<Rightarrow> elf_phdr list \<Rightarrow> u64 \<Rightarrow> u64
      \<Rightarrow> (u64 \<times> u64 \<times> u64) list \<times> u64 option" where
  "phdr_table_serialize_gnu_relro write mmap [] bias off = ([], Some off)"
| "phdr_table_serialize_gnu_relro write mmap (ph # phs) bias off =
     (if p_type ph \<noteq> PT_GNU_RELRO then phdr_table_serialize_gnu_relro write mmap phs bias off
      else let (s, n) = page_span bias ph in
           if write s n \<noteq> n then ([], None)
           else if \<not> mmap s n off then ([], None)
           else let (ms, res) = phdr_table_serialize_gnu_relro write mmap phs bias (off + n)
                in ((s, n, off) # ms, res))"

text \<open>
  \<open>phdr_table_map_gnu_relro\<close> compares pages of memory with pages of the file.  The offsets within
  a segment are multiples of the page size below its page-aligned size, so that they do not wrap;
  they are natural numbers here.  \<open>page_scan\<close> is the inner loop over pages that satisfy a test.
\<close>

function page_scan :: "(nat \<Rightarrow> bool) \<Rightarrow> nat \<Rightarrow> nat \<Rightarrow> nat" where
  "page_scan P sz m = (if m < sz \<and> P m then page_scan P sz (m + 4096) else m)"
  by auto
termination by (relation "measure (\<lambda>(P, sz, m). sz - m)") auto

declare page_scan.simps [simp del]

lemma page_scan_ge: "m \<le> page_scan P sz m"
  by (induction P sz m rule: page_scan.induct) (subst page_scan.simps, auto)

lemma page_scan_gt: "m < sz \<Longrightarrow> P m \<Longrightarrow> m < page_scan P sz m"
  by (subst page_scan.simps) (use page_scan_ge[of "m + 4096" P sz] in auto)

lemma page_scan_progress: "m < sz \<Longrightarrow> m < page_scan P sz (page_scan (\<lambda>i. \<not> P i) sz m)"
proof (cases "P m")
  case True
  then show "m < sz \<Longrightarrow> ?thesis" by (simp add: page_scan.simps[of "\<lambda>i. \<not> P i"] page_scan_gt)
next
  case False
  assume "m < sz"
  with False have "m < page_scan (\<lambda>i. \<not> P i) sz m" by (intro page_scan_gt)
  then show ?thesis using page_scan_ge[of _ P sz] less_le_trans by blast
qed

text \<open>The maps over similar pages of one segment, as offset and length, up to the first failure.\<close>

function relro_match :: "(nat \<Rightarrow> bool) \<Rightarrow> (nat \<Rightarrow> nat \<Rightarrow> bool) \<Rightarrow> nat \<Rightarrow> nat \<Rightarrow> (nat \<times> nat) list \<times> bool" where
  "relro_match same mmap sz m =
     (if m < sz then
        let a = page_scan (\<lambda>i. \<not> same i) sz m; b = page_scan same sz a in
        if b > a then
          (if \<not> mmap a (b - a) then ([], False)
           else let (ms, ok) = relro_match same mmap sz b in ((a, b - a) # ms, ok))
        else relro_match same mmap sz b
      else ([], True))"
  by auto
termination
  by (relation "measure (\<lambda>(same, mmap, sz, m). sz - m)") (auto simp: page_scan_progress diff_less_mono2)

declare relro_match.simps [simp del]

text \<open>
  The loop over the segments.  \<open>same\<close> compares the page of memory at an address with the page of
  the file at an offset, and \<open>mmap\<close> maps a range of the file over memory.
\<close>

fun relro_segments ::
    "(u64 \<Rightarrow> u64 \<Rightarrow> bool) \<Rightarrow> (u64 \<Rightarrow> u64 \<Rightarrow> u64 \<Rightarrow> bool) \<Rightarrow> u64 \<Rightarrow> elf_phdr list \<Rightarrow> u64 \<Rightarrow> u64
      \<Rightarrow> (u64 \<times> u64 \<times> u64) list \<times> u64 option" where
  "relro_segments same mmap fsize [] bias off = ([], Some off)"
| "relro_segments same mmap fsize (ph # phs) bias off =
     (if p_type ph \<noteq> PT_GNU_RELRO then relro_segments same mmap fsize phs bias off
      else let (mem_base, sz) = page_span bias ph in
           if fsize - off < sz then ([], Some off)
           else
             let (ms, ok) = relro_match (\<lambda>i. same (mem_base + of_nat i) (off + of_nat i))
                              (\<lambda>i n. mmap (mem_base + of_nat i) (of_nat n) (off + of_nat i)) (unat sz) 0;
                 maps = map (\<lambda>(i, n). (mem_base + of_nat i, of_nat n, off + of_nat i)) ms
             in if \<not> ok then (maps, None)
                else let (rest, res) = relro_segments same mmap fsize phs bias (off + sz)
                     in (maps @ rest, res))"

definition phdr_table_map_gnu_relro ::
    "u64 option \<Rightarrow> bool \<Rightarrow> (u64 \<Rightarrow> u64 \<Rightarrow> bool) \<Rightarrow> (u64 \<Rightarrow> u64 \<Rightarrow> u64 \<Rightarrow> bool) \<Rightarrow> elf_phdr list \<Rightarrow> u64 \<Rightarrow> u64
      \<Rightarrow> (u64 \<times> u64 \<times> u64) list \<times> u64 option" where
  "phdr_table_map_gnu_relro fstat temp_map_ok same mmap phs bias off =
     (case fstat of
        None \<Rightarrow> ([], None)
      | Some fsize \<Rightarrow>
          if sint fsize > 0 \<and> \<not> temp_map_ok then ([], None)
          else relro_segments same mmap fsize phs bias off)"

definition phdr_table_get_dynamic_section :: "elf_phdr list \<Rightarrow> u64 \<Rightarrow> (u64 \<times> u32) option" where
  "phdr_table_get_dynamic_section phdrs bias =
     map_option (\<lambda>ph. (bias + p_vaddr ph, p_flags ph)) (find (\<lambda>ph. p_type ph = PT_DYNAMIC) phdrs)"

definition phdr_table_get_interpreter_name :: "elf_phdr list \<Rightarrow> u64 \<Rightarrow> u64 option" where
  "phdr_table_get_interpreter_name phdrs bias =
     map_option (\<lambda>ph. bias + p_vaddr ph) (find (\<lambda>ph. p_type ph = PT_INTERP) phdrs)"

definition CheckPhdr :: "elf_reader \<Rightarrow> u64 \<Rightarrow> elf_error + elf_reader" where
  "CheckPhdr r loaded =
     (let loaded_end = loaded + of_nat (length (phdr_table r)) * 56 in
      case find (\<lambda>ph. p_type ph = PT_LOAD \<and>
                   (let seg_start = p_vaddr ph + load_bias r; seg_end = p_filesz ph + seg_start
                    in seg_start \<le> loaded \<and> loaded_end \<le> seg_end)) (phdr_table r) of
        None \<Rightarrow> Inl PhdrNotLoaded
      | Some _ \<Rightarrow> Inr (r\<lparr>loaded_phdr := Some loaded\<rparr>))"

text \<open>\<open>loaded_e_phoff\<close> reads the field \<open>e_phoff\<close> of the ELF header in memory.\<close>

definition FindPhdr :: "(u64 \<Rightarrow> u64) \<Rightarrow> elf_reader \<Rightarrow> elf_error + elf_reader" where
  "FindPhdr loaded_e_phoff r =
     (case find (\<lambda>ph. p_type ph = PT_PHDR) (phdr_table r) of
        Some ph \<Rightarrow> CheckPhdr r (load_bias r + p_vaddr ph)
      | None \<Rightarrow>
          (case find (\<lambda>ph. p_type ph = PT_LOAD) (phdr_table r) of
             Some ph \<Rightarrow>
               if p_offset ph = 0 then
                 (let elf_addr = load_bias r + p_vaddr ph
                  in CheckPhdr r (elf_addr + loaded_e_phoff elf_addr))
               else Inl PhdrNotFound
           | None \<Rightarrow> Inl PhdrNotFound))"

section \<open>Reading\<close>

lemma safe_add_exact: "safe_add a b = Some (Some c) \<Longrightarrow> c = a + b \<and> 0 \<le> a \<and> a + b < 2 ^ 63"
  by (auto simp: safe_add_def split: if_splits)

lemma safe_add_ok: "0 \<le> a \<Longrightarrow> a + b < 2 ^ 63 \<Longrightarrow> safe_add a b = Some (Some (a + b))"
  by (simp add: safe_add_def)

text \<open>A range of the file is inside the file when its first byte and its end are.\<close>

definition in_file :: "elf_reader \<Rightarrow> u64 \<Rightarrow> u64 \<Rightarrow> bool" where
  "in_file r off sz \<longleftrightarrow> 0 < uint off \<and> 0 \<le> file_offset r \<and> file_offset r + uint off < file_size r \<and>
     file_offset r + uint off + uint sz \<le> file_size r"

lemma CheckFileRange_in_file:
  "CheckFileRange r off sz al = Some True \<Longrightarrow> in_file r off sz"
  by (auto simp: CheckFileRange_def in_file_def word_less_def split: if_splits option.splits dest!: safe_add_exact)

lemma page_split: "page_start off + page_offset off = off"
proof -
  have "(off AND NOT 4095) + (off AND 4095) = (off AND NOT 4095) OR (off AND (4095 :: int))"
    by (rule disjunctive_add) (auto simp: bit_simps)
  also have "\<dots> = off" by (rule bit_eqI) (auto simp: bit_simps)
  finally show ?thesis by (simp add: page_start_def page_offset_def)
qed

lemma page_offset_bounds: "0 \<le> page_offset off" "page_offset off < 4096"
proof -
  have "page_offset off = off mod 4096"
    unfolding page_offset_def using take_bit_eq_mask[of 12 off]
    by (simp add: mask_eq_exp_minus_1 take_bit_eq_mod)
  then show "0 \<le> page_offset off" "page_offset off < 4096" by simp_all
qed

lemma Map_after_check:
  assumes "in_file r off sz" and "file_size r \<le> 2 ^ 63 - 4096"
  shows "Map f (file_offset r) off sz =
    (if ef_mmap f (page_start (file_offset r + uint off)) (uint sz + 2 * page_offset (file_offset r + uint off))
     then Some (Some (file_offset r + uint off, uint sz)) else Some None)"
proof -
  let ?o = "file_offset r + uint off"
  have ps: "page_start ?o = ?o - page_offset ?o" using page_split[of ?o] by simp
  have nn: "0 \<le> uint off" "0 \<le> uint sz" by simp_all
  have a: "safe_add (file_offset r) (uint off) = Some (Some ?o)"
    using assms nn by (intro safe_add_ok) (auto simp: in_file_def)
  have b: "safe_add ?o (uint sz) = Some (Some (?o + uint sz))"
    using assms nn by (intro safe_add_ok) (auto simp: in_file_def)
  have c: "safe_add (?o + uint sz) (page_offset ?o) = Some (Some (?o + uint sz + page_offset ?o))"
    using assms nn page_offset_bounds[of ?o] by (intro safe_add_ok) (auto simp: in_file_def)
  have e: "?o + uint sz + page_offset ?o - page_start ?o = uint sz + 2 * page_offset ?o"
    unfolding ps by simp
  have d: "uint sz + 2 * page_offset ?o \<ge> uint sz" using page_offset_bounds(1)[of ?o] by simp
  show ?thesis
    unfolding Map_def a option.case Let_def b c e page_split using d by simp
qed

lemma Map_range:
  "Map f base off sz = Some (Some rng) \<Longrightarrow> rng = (base + uint off, uint sz)"
  by (auto simp: Map_def Let_def page_split split: if_splits option.splits dest!: safe_add_exact)

lemma checked_map_Inr:
  "checked_map f r off sz al e1 e2 = Inr rng \<Longrightarrow>
   in_file r off sz \<and> rng = (file_offset r + uint off, uint sz)"
  by (auto simp: checked_map_def split: if_splits option.splits bool.splits
      dest!: CheckFileRange_in_file Map_range)

lemma checked_map_no_abort:
  assumes "0 \<le> file_offset r" "file_size r \<le> 2 ^ 63 - 4096" "e1 \<noteq> CheckFailed" "e2 \<noteq> CheckFailed"
  shows "checked_map f r off sz al e1 e2 \<noteq> Inl CheckFailed"
proof -
  have "CheckFileRange r off sz al \<noteq> None"
    using assms(1) by (auto simp: CheckFileRange_def safe_add_def split: option.splits if_splits)
  moreover have "Map f (file_offset r) off sz \<noteq> None" if "CheckFileRange r off sz al = Some True"
    using CheckFileRange_in_file[OF that] Map_after_check[of r off sz f] assms(2) by simp
  ultimately show ?thesis using assms(3,4)
    by (auto simp: checked_map_def split: option.splits bool.splits)
qed

section \<open>Page arithmetic\<close>

lemma page_mask: "PAGE_SIZE - 1 = mask 12"
  by (simp add: PAGE_SIZE_def mask_eq_exp_minus_1)

lemma unat_PAGE_START: "unat (PAGE_START x) = unat x div 4096 * 4096"
  using unat_and_not_mask64[of x 12] by (simp add: PAGE_START_def page_mask)

lemma unat_PAGE_END: "unat x + 4095 < 2 ^ 64 \<Longrightarrow> unat (PAGE_END x) = (unat x + 4095) div 4096 * 4096"
  by (simp add: PAGE_END_def unat_PAGE_START PAGE_SIZE_def unat_add64)

lemma library_mask: "kLibraryAlignment - 1 = mask 18"
  by (simp add: kLibraryAlignment_def mask_eq_exp_minus_1 push_bit_eq_mult)

lemma unat_align_down: "unat (align_down x kLibraryAlignment) = unat x div 2 ^ 18 * 2 ^ 18"
  using unat_and_not_mask64[of x 18] by (simp add: align_down_def library_mask)

lemma unat_align_up:
  "unat x + (2 ^ 18 - 1) < 2 ^ 64 \<Longrightarrow> unat (align_up x kLibraryAlignment) = (unat x + (2 ^ 18 - 1)) div 2 ^ 18 * 2 ^ 18"
  using unat_and_not_mask64[of "x + (kLibraryAlignment - 1)" 18] unat_add64[of x "kLibraryAlignment - 1"]
  by (simp add: align_up_def library_mask add_diff_eq[symmetric]) (simp add: mask_eq_exp_minus_1)

section \<open>Reading a file\<close>

lemma ReadElfHeader_frame:
  "ReadElfHeader f r = Inr r' \<Longrightarrow> file_offset r' = file_offset r \<and> file_size r' = file_size r"
  by (auto simp: ReadElfHeader_def Let_def split: if_splits prod.splits)

lemma VerifyElfHeader_same: "VerifyElfHeader sdk r = Inr r' \<Longrightarrow> r' = r"
  by (auto simp: VerifyElfHeader_def Let_def split: if_splits)

lemma ReadProgramHeaders_frame:
  "ReadProgramHeaders f r = Inr r' \<Longrightarrow> r' = r\<lparr>phdr_table := phdr_table r'\<rparr>"
  by (auto simp: ReadProgramHeaders_def Let_def split: if_splits sum.splits)

lemma ReadSectionHeaders_frame:
  "ReadSectionHeaders f r = Inr r' \<Longrightarrow> r' = r\<lparr>shdr_table := shdr_table r'\<rparr>"
  by (auto simp: ReadSectionHeaders_def Let_def split: if_splits sum.splits)

lemma ReadDynamicSection_frame:
  "ReadDynamicSection f sdk r = Inr r' \<Longrightarrow>
   r' = r\<lparr>dynamic_range := dynamic_range r', strtab_range := strtab_range r'\<rparr>"
  by (auto simp: ReadDynamicSection_def Let_def split: if_splits sum.splits option.splits prod.splits)

lemma ReadProgramHeaders_range:
  "ReadProgramHeaders f r = Inr r' \<Longrightarrow>
   1 \<le> unat (e_phnum (header r)) \<and> unat (e_phnum (header r)) \<le> 1170 \<and>
   in_file r (e_phoff (header r)) (of_nat (unat (e_phnum (header r)) * 56)) \<and>
   phdr_table r' = ef_phdrs f (file_offset r + uint (e_phoff (header r))) (unat (e_phnum (header r)))"
  by (auto simp: ReadProgramHeaders_def Let_def split: if_splits sum.splits dest!: checked_map_Inr)

lemma ReadSectionHeaders_range:
  "ReadSectionHeaders f r = Inr r' \<Longrightarrow>
   in_file r (e_shoff (header r)) (of_nat (unat (e_shnum (header r)) * 64)) \<and>
   shdr_table r' = ef_shdrs f (file_offset r + uint (e_shoff (header r))) (unat (e_shnum (header r)))"
  by (auto simp: ReadSectionHeaders_def Let_def split: if_splits sum.splits dest!: checked_map_Inr)

text \<open>A range of bytes that lies inside the file.\<close>

definition bytes_in_file :: "elf_reader \<Rightarrow> int \<times> int \<Rightarrow> bool" where
  "bytes_in_file r = (\<lambda>(off, n). 0 < off \<and> 0 \<le> n \<and> off + n \<le> file_size r)"

lemma in_file_bytes: "in_file r off sz \<Longrightarrow> bytes_in_file r (file_offset r + uint off, uint sz)"
  by (auto simp: in_file_def bytes_in_file_def)

lemma ReadDynamicSection_range:
  assumes "ReadDynamicSection f sdk r = Inr r'"
  shows "bytes_in_file r (dynamic_range r') \<and> bytes_in_file r (strtab_range r') \<and>
    (sdk \<ge> 26 \<longrightarrow> dynamic_range r' =
       (file_offset r + uint (fst (pt_dynamic (phdr_table r))), uint (snd (pt_dynamic (phdr_table r)))))"
  using assms
  by (auto simp: ReadDynamicSection_def Let_def split: if_splits sum.splits option.splits prod.splits
      dest!: checked_map_Inr intro: in_file_bytes)

lemma Read_no_check_failed:
  assumes "Read f sdk foff fsize r = Inl e" "0 \<le> foff" "fsize \<le> 2 ^ 63 - 4096"
  shows "e \<noteq> CheckFailed"
proof -
  note nc = checked_map_no_abort
  have ph: "ReadProgramHeaders f r2 \<noteq> Inl CheckFailed" if "file_offset r2 = foff" "file_size r2 = fsize" for r2
    using nc[of r2] that assms(2,3) by (auto simp: ReadProgramHeaders_def Let_def split: sum.splits)
  have sh: "ReadSectionHeaders f r2 \<noteq> Inl CheckFailed" if "file_offset r2 = foff" "file_size r2 = fsize" for r2
    using nc[of r2] that assms(2,3) by (auto simp: ReadSectionHeaders_def Let_def split: sum.splits)
  have dy: "ReadDynamicSection f sdk r2 \<noteq> Inl CheckFailed" if "file_offset r2 = foff" "file_size r2 = fsize" for r2
    using nc[of r2] that assms(2,3)
    by (auto simp: ReadDynamicSection_def Let_def split: sum.splits option.splits prod.splits)
  have hd: "ReadElfHeader f r2 \<noteq> Inl CheckFailed" for r2
    by (auto simp: ReadElfHeader_def Let_def split: prod.splits)
  have ve: "VerifyElfHeader sdk r2 \<noteq> Inl CheckFailed" for r2
    by (auto simp: VerifyElfHeader_def Let_def)
  have fr: "file_offset r3 = file_offset r2 \<and> file_size r3 = file_size r2"
    if "ReadProgramHeaders f r2 = Inr r3 \<or> ReadSectionHeaders f r2 = Inr r3" for r2 r3
    using that ReadProgramHeaders_frame[of f r2 r3] ReadSectionHeaders_frame[of f r2 r3]
    by (metis elf_reader.select_convs(3,4) elf_reader.surjective elf_reader.update_convs(6,7))
  show ?thesis
  proof
    assume "e = CheckFailed"
    with assms(1) show False using ph sh dy hd ve
      by (auto simp: Read_def try_then_Inl try_then_Inr split: if_splits
          dest!: ReadElfHeader_frame VerifyElfHeader_same fr[OF disjI1] fr[OF disjI2])
  qed
qed

section \<open>Protection and remapping\<close>

lemma pflags_no_write: "fl AND PF_W = 0 \<Longrightarrow> PFLAGS_TO_PROT fl AND PROT_WRITE = 0"
  by (simp add: PFLAGS_TO_PROT_def elf_consts)

definition not_wx :: "prot_call \<Rightarrow> bool" where
  "not_wx = (\<lambda>(s, n, prot). \<not> (prot AND PROT_WRITE \<noteq> 0 \<and> prot AND PROT_EXEC \<noteq> 0))"

lemma load_prot_call_not_wx:
  "p_flags ph AND PF_W = 0 \<Longrightarrow> extra = 0 \<or> extra = PROT_WRITE \<Longrightarrow> not_wx (load_prot_call bias extra ph)"
  by (auto simp: not_wx_def load_prot_call_def PFLAGS_TO_PROT_def elf_consts Let_def)

lemma set_load_prot_not_wx:
  "extra = 0 \<or> extra = PROT_WRITE \<Longrightarrow> list_all not_wx (fst (phdr_table_set_load_prot mprotect phs bias extra))"
proof (induction mprotect phs bias extra rule: phdr_table_set_load_prot.induct)
  case (2 mprotect ph phs bias extra)
  then show ?case using load_prot_call_not_wx[of ph extra bias]
    by (simp add: Let_def split: prod.split) (metis fst_conv)
qed simp

text \<open>The scan stops at the first page on its grid that fails the test.\<close>

lemma page_scan_stop: "page_scan P sz m < sz \<Longrightarrow> \<not> P (page_scan P sz m)"
  by (induction P sz m rule: page_scan.induct) (subst (asm) (2) page_scan.simps, subst page_scan.simps, simp split: if_splits)

lemma page_scan_grid: "\<exists>k. page_scan P sz m = m + 4096 * k"
proof (induction P sz m rule: page_scan.induct)
  case (1 P sz m)
  show ?case
  proof (cases "m < sz \<and> P m")
    case True
    with "1.IH" obtain k where "page_scan P sz (m + 4096) = m + 4096 * Suc k" by auto
    with True have "page_scan P sz m = m + 4096 * Suc k" by (subst page_scan.simps) simp
    then show ?thesis by blast
  next
    case False
    then show ?thesis by (subst page_scan.simps) (auto intro: exI[of _ 0])
  qed
qed

lemma page_scan_all: "i < page_scan P sz m \<Longrightarrow> m \<le> i \<Longrightarrow> 4096 dvd i - m \<Longrightarrow> i < sz \<Longrightarrow> P i"
proof (induction P sz m rule: page_scan.induct)
  case (1 P sz m)
  have "m < sz \<and> P m" using "1.prems" by (subst (asm) page_scan.simps) (auto split: if_splits)
  moreover have "i \<noteq> m \<Longrightarrow> m + 4096 \<le> i" using "1.prems"(2,3) by (auto dest!: dvd_imp_le)
  moreover have "i \<noteq> m \<Longrightarrow> 4096 dvd i - (m + 4096)"
    using "1.prems"(2,3) calculation(2) by (metis diff_diff_left dvd_diff_nat dvd_refl)
  ultimately show ?case using 1 by (cases "i = m") (auto simp: page_scan.simps[of P sz m])
qed

lemma page_scan_dvd:
  assumes "4096 dvd i - m" "m \<le> i" "page_scan P sz m \<le> i"
  shows "4096 dvd i - page_scan P sz m"
proof -
  obtain k where k: "page_scan P sz m = m + 4096 * k" using page_scan_grid by blast
  have "i - page_scan P sz m = i - m - 4096 * k" using k by simp
  then show ?thesis using assms(1) by (metis dvd_diff_nat dvd_triv_left)
qed

definition covered :: "(nat \<times> nat) list \<Rightarrow> nat \<Rightarrow> bool" where
  "covered ms i \<longleftrightarrow> (\<exists>(a, n) \<in> set ms. a \<le> i \<and> i < a + n)"

lemma relro_match_lower: "relro_match same mmap sz m = (ms, True) \<Longrightarrow> i < m \<Longrightarrow> \<not> covered ms i"
proof (induction same mmap sz m arbitrary: ms rule: relro_match.induct)
  case (1 same mmap sz m)
  let ?a = "page_scan (\<lambda>i. \<not> same i) sz m"
  let ?b = "page_scan same sz ?a"
  have ab: "i < ?a" "i < ?b" using page_scan_ge[of m "\<lambda>i. \<not> same i" sz] page_scan_ge[of ?a same sz] "1.prems"(2) by linarith+
  show ?case
  proof (cases "m < sz")
    case True
    show ?thesis
    proof (cases "?b > ?a")
      case gt: True
      with "1.prems"(1) True obtain ms' where ms: "ms = (?a, ?b - ?a) # ms'" "relro_match same mmap sz ?b = (ms', True)"
        "mmap ?a (?b - ?a)"
        by (subst (asm) relro_match.simps) (auto simp: Let_def split: if_splits prod.splits)
      with "1.IH"(1)[OF True refl refl gt] ab show ?thesis by (auto simp: covered_def)
    next
      case False
      with "1.prems"(1) True have "relro_match same mmap sz ?b = (ms, True)"
        by (subst (asm) relro_match.simps) (simp add: Let_def)
      with "1.IH"(2)[OF True refl refl False] ab show ?thesis by blast
    qed
  next
    case False
    with "1.prems"(1) show ?thesis by (simp add: relro_match.simps covered_def)
  qed
qed

lemma relro_match_exact:
  "relro_match same mmap sz m = (ms, True) \<Longrightarrow> m \<le> i \<Longrightarrow> i < sz \<Longrightarrow> 4096 dvd i - m \<Longrightarrow>
   covered ms i \<longleftrightarrow> same i"
proof (induction same mmap sz m arbitrary: ms rule: relro_match.induct)
  case (1 same mmap sz m)
  let ?a = "page_scan (\<lambda>i. \<not> same i) sz m"
  let ?b = "page_scan same sz ?a"
  have m: "m < sz" using "1.prems"(2,3) by simp
  have ab: "m \<le> ?a" "?a \<le> ?b" by (rule page_scan_ge)+
  have low: "\<not> same i" if "i < ?a" using page_scan_all[OF that "1.prems"(2,4,3)] .
  have da: "4096 dvd i - ?a" if "?a \<le> i" using page_scan_dvd[OF "1.prems"(4,2) that] .
  have mid: "same i" if "?a \<le> i" "i < ?b" using page_scan_all[OF that(2,1) da[OF that(1)] "1.prems"(3)] .
  have db: "4096 dvd i - ?b" if "?b \<le> i" using page_scan_dvd[OF da _ that] ab that by simp
  show ?case
  proof (cases "?b > ?a")
    case gt: True
    with "1.prems"(1) m obtain ms' where ms: "ms = (?a, ?b - ?a) # ms'" "relro_match same mmap sz ?b = (ms', True)"
      "mmap ?a (?b - ?a)"
      by (subst (asm) relro_match.simps) (auto simp: Let_def split: if_splits prod.splits)
    have IH: "covered ms' i \<longleftrightarrow> same i" if "?b \<le> i"
      using "1.IH"(1)[OF m refl refl gt _ ms(2) that "1.prems"(3) db[OF that]] ms(3) by simp
    have "covered ms i \<longleftrightarrow> ?a \<le> i \<and> i < ?b \<or> covered ms' i" using ab by (auto simp: covered_def ms)
    with IH low mid relro_match_lower[OF ms(2)] ab show ?thesis by (meson not_le order.strict_trans1 less_le_trans)
  next
    case False
    with "1.prems"(1) m have rest: "relro_match same mmap sz ?b = (ms, True)"
      by (subst (asm) relro_match.simps) (simp add: Let_def)
    show ?thesis
    proof (cases "?b \<le> i")
      case True
      with "1.IH"(2)[OF m refl refl False rest True "1.prems"(3) db] show ?thesis by blast
    next
      case less: False
      with low False relro_match_lower[OF rest, of i] show ?thesis by simp
    qed
  qed
qed

section \<open>Alignment of the reservation\<close>

lemma round_up_le: "(n + (k - 1)) div k * k < n + k" if "0 < k" for n k :: nat
  using that div_times_less_eq_dividend[of "n + (k - 1)" k] by linarith

lemma round_up_ge: "n \<le> (n + (k - 1)) div k * k" if "0 < k" for n k :: nat
proof -
  have "(n + (k - 1)) mod k < k" using that by simp
  moreover have "(n + (k - 1)) div k * k + (n + (k - 1)) mod k = n + (k - 1)" by simp
  ultimately show ?thesis by linarith
qed

lemma round_up_mono_multiple: "n \<le> m * k \<Longrightarrow> 0 < k \<Longrightarrow> (n + (k - 1)) div k * k \<le> m * k" for n m k :: nat
proof -
  assume "n \<le> m * k" "0 < k"
  then have "(n + (k - 1)) div k * k < (m + 1) * k" using round_up_le[of k n] by (simp add: algebra_simps)
  then have "(n + (k - 1)) div k < m + 1" by (rule mult_less_cancel2[THEN iffD1, THEN conjunct2])
  then have "(n + (k - 1)) div k \<le> m" by simp
  then show ?thesis by (rule mult_le_mono1)
qed

definition mmap_size_for :: "u64 \<Rightarrow> u64" where
  "mmap_size_for sz = align_up sz kLibraryAlignment + kLibraryAlignment - PAGE_SIZE"

lemma unat_mmap_size_for:
  assumes "unat sz + 2 ^ 19 < 2 ^ 64"
  shows "unat (mmap_size_for sz) = (unat sz + (2 ^ 18 - 1)) div 2 ^ 18 * 2 ^ 18 + (2 ^ 18 - 4096)"
proof -
  let ?S = "(unat sz + (2 ^ 18 - 1)) div 2 ^ 18 * 2 ^ 18"
  have S: "unat (align_up sz kLibraryAlignment) = ?S" using assms by (intro unat_align_up) simp
  have "?S < unat sz + 2 ^ 18" using round_up_le[of "2 ^ 18" "unat sz"] by simp
  then have "unat (align_up sz kLibraryAlignment) + unat (2 ^ 18 - 4096 :: u64) < 2 ^ 64"
    using S assms by simp
  then have "unat (align_up sz kLibraryAlignment + (2 ^ 18 - 4096)) = ?S + (2 ^ 18 - 4096)"
    using S by (subst unat_add64) simp_all
  moreover have "mmap_size_for sz = align_up sz kLibraryAlignment + (2 ^ 18 - 4096)"
    by (simp add: mmap_size_for_def kLibraryAlignment_def PAGE_SIZE_def push_bit_eq_mult)
  ultimately show ?thesis by simp
qed

text \<open>The random page is between the first and the last possible start.\<close>

lemma random_start:
  assumes "unat (first :: u64) \<le> unat lst" "n \<le> (lst - first) div PAGE_SIZE"
  shows "unat first \<le> unat (first + n * PAGE_SIZE)" "unat (first + n * PAGE_SIZE) \<le> unat lst"
proof -
  have d: "unat (lst - first) = unat lst - unat first" using assms(1) by (simp add: unat_sub word_le_nat_alt)
  have "unat n \<le> unat (lst - first) div 4096"
    using assms(2) by (simp add: word_le_nat_alt unat_div PAGE_SIZE_def)
  then have n: "unat n * 4096 \<le> unat lst - unat first" using d by (simp add: less_eq_div_iff_mult_less_eq)
  have "unat lst < 2 ^ 64" using unsigned_less[of lst, where ?'a = nat] by simp
  with n assms(1) have lt: "unat first + unat n * 4096 < 2 ^ 64" by linarith
  have np: "unat (n * PAGE_SIZE) = unat n * 4096"
    using lt unat_mult_lem[of n PAGE_SIZE] by (simp add: PAGE_SIZE_def)
  have s: "unat (first + n * PAGE_SIZE) = unat first + unat n * 4096"
    using lt np by (simp add: unat_add64)
  show "unat first \<le> unat (first + n * PAGE_SIZE)" "unat (first + n * PAGE_SIZE) \<le> unat lst"
    using s n assms(1) by simp_all
qed

lemma ReserveAligned_bounds:
  assumes run: "ReserveAligned mmap_anon fsi rnd sz kLibraryAlignment = Some start"
    and ptr: "mmap_anon (mmap_size_for sz) = Some ptr" "4096 dvd unat ptr"
      "unat ptr + unat (mmap_size_for sz) < 2 ^ 64"
    and sz: "unat sz + 2 ^ 19 < 2 ^ 64"
  shows "unat ptr \<le> unat start div 2 ^ 18 * 2 ^ 18 \<and>
    (unat start + unat sz + (2 ^ 18 - 1)) div 2 ^ 18 * 2 ^ 18 \<le> unat ptr + unat (mmap_size_for sz)"
proof -
  let ?A = "2 ^ 18 :: nat"
  define F S E where "F = (unat ptr + (?A - 1)) div ?A" and "S = (unat sz + (?A - 1)) div ?A"
    and "E = (unat ptr + unat (mmap_size_for sz)) div ?A"
  let ?first = "align_up ptr kLibraryAlignment"
  let ?last = "align_down (ptr + mmap_size_for sz) kLibraryAlignment - sz"
  have ms: "unat (mmap_size_for sz) = S * ?A + (?A - 4096)" using unat_mmap_size_for[OF sz] by (simp add: S_def)
  have "unat ptr + (?A - 1) < 2 ^ 64"
  proof -
    obtain p where p: "unat ptr = 4096 * p" using ptr(2) by blast
    have "4096 * (p + 64 * S + 63) < 4096 * 2 ^ 52" using ptr(3) unfolding ms p by simp
    then have "p + 64 * S + 63 < 2 ^ 52" by (rule mult_less_cancel1[THEN iffD1, THEN conjunct2])
    then show ?thesis unfolding p by simp
  qed
  then have first: "unat ?first = F * ?A" unfolding F_def by (rule unat_align_up)
  have FA: "F * ?A \<le> unat ptr + (?A - 4096)"
  proof -
    have lt: "F * ?A < unat ptr + ?A" using round_up_le[of ?A "unat ptr"] by (simp add: F_def)
    obtain p where p: "unat ptr = 4096 * p" using ptr(2) by blast
    from lt have "64 * F < p + 64" unfolding p by simp
    then show ?thesis unfolding p by simp
  qed
  have szS: "unat sz \<le> S * ?A" using round_up_ge[of ?A "unat sz"] by (simp add: S_def)
  have "(F + S) * ?A \<le> unat ptr + unat (mmap_size_for sz)" using FA ms by (simp add: algebra_simps)
  then have FSE: "F + S \<le> E" unfolding E_def by (simp add: less_eq_div_iff_mult_less_eq)
  have EA: "E * ?A \<le> unat ptr + unat (mmap_size_for sz)" unfolding E_def by simp
  have down: "unat (align_down (ptr + mmap_size_for sz) kLibraryAlignment) = E * ?A"
    using ptr(3) by (simp add: unat_align_down unat_add64 E_def)
  have le: "F * ?A + S * ?A \<le> E * ?A" using mult_le_mono1[OF FSE, of ?A] by (simp add: add_mult_distrib)
  then have last: "unat ?last = E * ?A - unat sz"
    using szS down by (subst unat_sub) (simp_all add: word_le_nat_alt)
  have fl: "unat ?first \<le> unat ?last" using first last le szS by simp
  define n where "n = (if fsi then 0 else rnd mod ((?last - ?first) div PAGE_SIZE + 1))"
  have start: "start = ?first + n * PAGE_SIZE"
    using run ptr(1) by (auto simp: ReserveAligned_def mmap_size_for_def n_def Let_def kLibraryAlignment_def
        PAGE_SIZE_def push_bit_eq_mult)
  have "n \<le> (?last - ?first) div PAGE_SIZE"
  proof (cases fsi)
    case False
    let ?q = "(?last - ?first) div PAGE_SIZE"
    have "unat ?q \<le> unat (?last - ?first) div 4096" by (simp add: unat_div PAGE_SIZE_def)
    also have "\<dots> < 2 ^ 64 - 1" using unsigned_less[of "?last - ?first", where ?'a = nat] by simp
    finally have q1: "unat (?q + 1) = unat ?q + 1" by (subst unat_add64) simp_all
    have "unat n < unat (?q + 1)" using False q1 by (simp add: n_def unat_mod)
    then show ?thesis using q1 by (simp add: word_le_nat_alt)
  qed (simp add: n_def)
  from random_start[OF fl this] have s: "F * ?A \<le> unat start" "unat start + unat sz \<le> E * ?A"
    using start first last szS le by simp_all
  have "F * ?A \<le> unat start div ?A * ?A"
    using s(1) by (simp add: less_eq_div_iff_mult_less_eq)
  moreover have "unat ptr \<le> F * ?A" using round_up_ge[of ?A "unat ptr"] by (simp add: F_def)
  moreover have "(unat start + unat sz + (?A - 1)) div ?A * ?A \<le> E * ?A"
    using round_up_mono_multiple[OF s(2)] by simp
  ultimately show ?thesis using EA by linarith
qed

section \<open>Properties\<close>

text \<open>
  C23: A file that is read successfully has its program and section headers, its dynamic section and
  its string table inside the file, a program header table of 1 to 1170 entries, and, for SDK level
  26 and above, a dynamic section that is the one of the program headers.
\<close>

theorem elf_read_in_file:
  assumes "Read f sdk foff fsize r = Inr r'" and "\<not> did_read r"
  shows "did_read r' \<and> file_offset r' = foff \<and> file_size r' = fsize \<and>
    1 \<le> unat (e_phnum (header r')) \<and> unat (e_phnum (header r')) \<le> 1170 \<and>
    in_file r' (e_phoff (header r')) (of_nat (unat (e_phnum (header r')) * 56)) \<and>
    in_file r' (e_shoff (header r')) (of_nat (unat (e_shnum (header r')) * 64)) \<and>
    bytes_in_file r' (dynamic_range r') \<and> bytes_in_file r' (strtab_range r') \<and>
    (sdk \<ge> 26 \<longrightarrow> dynamic_range r' =
       (foff + uint (fst (pt_dynamic (phdr_table r'))), uint (snd (pt_dynamic (phdr_table r')))))"
proof -
  from assms obtain r1 r2 r3 r4 r5 where
    1: "ReadElfHeader f (r\<lparr>file_offset := foff, file_size := fsize\<rparr>) = Inr r1" and
    2: "VerifyElfHeader sdk r1 = Inr r2" and 3: "ReadProgramHeaders f r2 = Inr r3" and
    4: "ReadSectionHeaders f r3 = Inr r4" and 5: "ReadDynamicSection f sdk r4 = Inr r5" and
    6: "r' = r5\<lparr>did_read := True\<rparr>"
    by (auto simp: Read_def try_then_Inr)
  have fo: "file_offset r2 = foff" "file_size r2 = fsize"
    using ReadElfHeader_frame[OF 1] VerifyElfHeader_same[OF 2] by simp_all
  have e3: "file_offset r3 = foff" "file_size r3 = fsize" "header r3 = header r2"
    using fo by (subst ReadProgramHeaders_frame[OF 3], simp)+
  have e4: "file_offset r4 = foff" "file_size r4 = fsize" "header r4 = header r2" "phdr_table r4 = phdr_table r3"
    using e3 by (subst ReadSectionHeaders_frame[OF 4], simp)+
  have e5: "file_offset r5 = foff" "file_size r5 = fsize" "header r5 = header r2" "phdr_table r5 = phdr_table r3"
    using e4 by (subst ReadDynamicSection_frame[OF 5], simp)+
  from ReadProgramHeaders_range[OF 3] ReadSectionHeaders_range[OF 4] ReadDynamicSection_range[OF 5]
  show ?thesis by (simp add: 6 e5 e4 e3 fo in_file_def bytes_in_file_def)
qed

definition demo_ehdr :: elf_ehdr where
  "demo_ehdr = \<lparr>e_ident = [0x7f, 0x45, 0x4c, 0x46, 2, 1, 1, 0, 0, 0, 0, 0, 0, 0, 0, 0], e_type = 3,
     e_machine = 183, e_version = 1, e_phoff = 64, e_shoff = 4096, e_phnum = 1, e_shentsize = 64,
     e_shnum = 2, e_shstrndx = 1\<rparr>"

definition demo_file :: elf_file where
  "demo_file = \<lparr>ef_pread = (\<lambda>off. (64, demo_ehdr)),
     ef_phdrs = (\<lambda>off n. [\<lparr>p_type = 2, p_flags = 4, p_offset = 512, p_vaddr = 512, p_filesz = 32, p_memsz = 32\<rparr>]),
     ef_shdrs = (\<lambda>off n. [\<lparr>sh_type = 6, sh_offset = 512, sh_size = 32, sh_link = 1\<rparr>,
                        \<lparr>sh_type = 3, sh_offset = 1024, sh_size = 8, sh_link = 0\<rparr>]),
     ef_mmap = (\<lambda>off n. True)\<rparr>"

definition fresh_reader :: elf_reader where
  "fresh_reader = \<lparr>did_read = False, did_load = False, file_offset = 0, file_size = 0, header = demo_ehdr,
     phdr_table = [], shdr_table = [], dynamic_range = (0, 0), strtab_range = (0, 0), load_start = 0,
     load_size = 0, load_bias = 0, loaded_phdr = None, mapped_by_caller = False\<rparr>"

lemmas read_defs = Read_def try_then_def ReadElfHeader_def VerifyElfHeader_def ReadProgramHeaders_def
  ReadSectionHeaders_def ReadDynamicSection_def checked_map_def CheckFileRange_def Map_def safe_add_def
  pt_dynamic_def page_start_def page_offset_def elf_consts demo_file_def demo_ehdr_def fresh_reader_def

theorem elf_read_in_file_witness:
  "\<exists>r'. Read demo_file 29 0 8192 fresh_reader = Inr r' \<and> did_read r' \<and> bytes_in_file r' (dynamic_range r')"
proof -
  have "\<exists>r'. Read demo_file 29 0 8192 fresh_reader = Inr r'" by (simp add: read_defs Let_def)
  then obtain r' where r: "Read demo_file 29 0 8192 fresh_reader = Inr r'" by blast
  have "\<not> did_read fresh_reader" by (simp add: fresh_reader_def)
  from elf_read_in_file[OF r this] r show ?thesis by blast
qed

text \<open>
  C24: Reading never runs into a failed \<open>CHECK\<close>: for a file whose size leaves a page of room in
  \<open>off64_t\<close> every malformed header is reported as an error, and no range that passed
  \<open>CheckFileRange\<close> aborts the process when it is mapped.
\<close>

theorem elf_read_never_aborts:
  assumes "0 \<le> foff" and "fsize \<le> 2 ^ 63 - 4096"
  shows "Read f sdk foff fsize r \<noteq> Inl CheckFailed"
  using Read_no_check_failed[OF _ assms] by blast

theorem elf_read_never_aborts_witness:
  "Read demo_file 29 0 8192 fresh_reader \<noteq> Inl CheckFailed"
  by (rule elf_read_never_aborts) simp_all

text \<open>
  The address range that \<open>ReserveAligned\<close> returns stays inside the host's mapping even when both
  of its ends are extended to the next library-alignment boundary, whatever the random number is.
\<close>

theorem reserve_aligned_inside:
  assumes "ReserveAligned mmap_anon fsi rnd sz kLibraryAlignment = Some start"
    and "mmap_anon (mmap_size_for sz) = Some ptr" and "4096 dvd unat ptr"
    and "unat ptr + unat (mmap_size_for sz) < 2 ^ 64" and "unat sz + 2 ^ 19 < 2 ^ 64"
  shows "unat ptr \<le> unat start div 2 ^ 18 * 2 ^ 18 \<and>
    (unat start + unat sz + (2 ^ 18 - 1)) div 2 ^ 18 * 2 ^ 18 \<le> unat ptr + unat (mmap_size_for sz)"
  by (rule ReserveAligned_bounds[OF assms])

theorem reserve_aligned_inside_witness:
  "ReserveAligned (\<lambda>n. Some 0x7000) False 5 0x3000 kLibraryAlignment = Some 0x45000 \<and>
   (0x7000 :: nat) \<le> unat (0x45000 :: u64) div 2 ^ 18 * 2 ^ 18"
proof -
  have "ReserveAligned (\<lambda>n. Some 0x7000) False 5 0x3000 kLibraryAlignment = Some 0x45000"
    by (simp add: ReserveAligned_def kLibraryAlignment_def align_up_def align_down_def PAGE_SIZE_def Let_def)
  moreover have "mmap_size_for 0x3000 = 0x7f000"
    by (simp add: mmap_size_for_def kLibraryAlignment_def align_up_def PAGE_SIZE_def)
  ultimately show ?thesis
    using reserve_aligned_inside[of "\<lambda>n. Some 0x7000" False 5 "0x3000" "0x45000" "0x7000"] by simp
qed

text \<open>
  C25: No call of the protection loops makes a segment writable and executable at once, neither
  when the segments are unprotected for relocation nor when their protection is restored.
\<close>

theorem load_prot_never_writable_and_executable:
  "list_all not_wx (fst (phdr_table_protect_segments mprotect phs bias)) \<and>
   list_all not_wx (fst (phdr_table_unprotect_segments mprotect phs bias))"
  by (simp add: phdr_table_protect_segments_def phdr_table_unprotect_segments_def set_load_prot_not_wx)

text \<open>
  The loop that shares relocated pages with a file maps exactly the pages whose contents agree
  with the file, when no map fails; a page that differs keeps its own contents.
\<close>

theorem relro_maps_identical_pages:
  assumes "relro_match same mmap sz 0 = (ms, True)" and "4096 * k < sz"
  shows "covered ms (4096 * k) \<longleftrightarrow> same (4096 * k)"
  using relro_match_exact[OF assms(1), of "4096 * k"] assms(2) by simp

theorem relro_maps_identical_pages_witness:
  "relro_match (\<lambda>i. i = 4096) (\<lambda>i n. True) 12288 0 = ([(4096, 4096)], True) \<and> covered [(4096, 4096)] (4096 * 1)"
proof -
  have r: "relro_match (\<lambda>i. i = 4096) (\<lambda>i n. True) 12288 0 = ([(4096, 4096)], True)"
    by (simp add: relro_match.simps page_scan.simps)
  from relro_maps_identical_pages[OF r, of 1] r show ?thesis by simp
qed

end
