(* ===== verification/Bump_Allocator.thy ===== *)
theory Bump_Allocator
  imports Hybris_Prelude
begin

text \<open>
  The contract of an allocator that moves one offset forward and never frees: the thunk region of
  the TLS patcher and the pool of process-shared objects provide it.  A request \<open>op\<close> needs
  \<open>need op\<close> bytes; \<open>place\<close> reads the start of a block from what the allocator returns, \<open>top\<close> is the
  first free offset of a state.
\<close>

primrec alloc_all :: "('op \<Rightarrow> 's \<Rightarrow> ('h \<times> 's) option) \<Rightarrow> 'op list \<Rightarrow> 's \<Rightarrow> ('h list \<times> 's) option" where
  "alloc_all alloc [] s = Some ([], s)"
| "alloc_all alloc (op # ops) s =
     (case alloc op s of
        None \<Rightarrow> None
      | Some (h, s1) \<Rightarrow> (case alloc_all alloc ops s1 of None \<Rightarrow> None | Some (hs, s2) \<Rightarrow> Some (h # hs, s2)))"

lemma alloc_all_append:
  "alloc_all alloc (xs @ ys) s =
     (case alloc_all alloc xs s of
        None \<Rightarrow> None
      | Some (hs, s1) \<Rightarrow> map_option (\<lambda>(ks, s2). (hs @ ks, s2)) (alloc_all alloc ys s1))"
  by (induction xs arbitrary: s) (auto simp: option.map_id split: option.splits)

lemma alloc_all_set:
  "\<lbrakk>alloc_all alloc ops s = Some (hs, s'); \<And>op s h s'. alloc op s = Some (h, s') \<Longrightarrow> P h; h \<in> set hs\<rbrakk> \<Longrightarrow> P h"
  by (induction ops arbitrary: s hs) (fastforce split: option.splits)+

text \<open>Blocks that follow each other without a gap, from one offset to another.\<close>

fun consecutive :: "nat \<Rightarrow> (nat \<times> nat) list \<Rightarrow> nat \<Rightarrow> bool" where
  "consecutive lo [] hi \<longleftrightarrow> lo = hi"
| "consecutive lo ((start, n) # bs) hi \<longleftrightarrow> start = lo \<and> consecutive (lo + n) bs hi"

lemma consecutive_hi: "consecutive lo bs hi \<Longrightarrow> hi = lo + sum_list (map snd bs)"
  by (induction lo bs hi rule: consecutive.induct) auto

lemma consecutive_nth: "consecutive lo bs hi \<Longrightarrow> i < length bs \<Longrightarrow> lo \<le> fst (bs ! i) \<and> fst (bs ! i) + snd (bs ! i) \<le> hi"
proof (induction lo bs hi arbitrary: i rule: consecutive.induct)
  case (2 lo start n bs hi)
  then have "hi = lo + n + sum_list (map snd bs)" using consecutive_hi by auto
  with 2 show ?case by (cases i) fastforce+
qed simp

lemma consecutive_disjoint:
  "consecutive lo bs hi \<Longrightarrow> i < j \<Longrightarrow> j < length bs \<Longrightarrow> fst (bs ! i) + snd (bs ! i) \<le> fst (bs ! j)"
proof (induction lo bs hi arbitrary: i j rule: consecutive.induct)
  case (2 lo start n bs hi)
  then obtain j' where j: "j = Suc j'" by (cases j) auto
  show ?case
  proof (cases i)
    case 0
    then show ?thesis using 2 j consecutive_nth[of "lo + n" bs hi j'] by simp
  next
    case (Suc i')
    then show ?thesis using 2 j by simp
  qed
qed simp

locale bump_allocator =
  fixes alloc :: "'op \<Rightarrow> 's \<Rightarrow> ('h \<times> 's) option"
    and inv :: "'s \<Rightarrow> bool"
    and top :: "'s \<Rightarrow> nat"
    and place :: "'h \<Rightarrow> nat"
    and need :: "'op \<Rightarrow> nat"
    and admissible :: "'op \<Rightarrow> bool"
    and limit :: nat
  assumes alloc_law: "\<lbrakk>inv s; admissible op; top s + need op \<le> limit; alloc op s = Some (h, s')\<rbrakk>
    \<Longrightarrow> inv s' \<and> place h = top s \<and> top s' = top s + need op"
begin

lemma alloc_all_consecutive:
  "\<lbrakk>alloc_all alloc ops s = Some (hs, s'); inv s; \<forall>op \<in> set ops. admissible op;
    top s + sum_list (map need ops) \<le> limit\<rbrakk>
   \<Longrightarrow> inv s' \<and> length hs = length ops \<and> consecutive (top s) (zip (map place hs) (map need ops)) (top s')"
proof (induction ops arbitrary: s hs)
  case (Cons op ops)
  from Cons.prems(1) obtain h s1 ks where a: "alloc op s = Some (h, s1)"
    and rest: "alloc_all alloc ops s1 = Some (ks, s')" and hs: "hs = h # ks" by (auto split: option.splits)
  have law: "inv s1" "place h = top s" "top s1 = top s + need op"
    using alloc_law[OF _ _ _ a] Cons.prems by auto
  from Cons.IH[OF rest law(1)] Cons.prems law(3) have
    "inv s'" "length ks = length ops" "consecutive (top s1) (zip (map place ks) (map need ops)) (top s')" by auto
  with law hs show ?case by simp
qed simp

lemma blocks_disjoint:
  assumes "alloc_all alloc ops s = Some (hs, s')" and "inv s" and "\<forall>op \<in> set ops. admissible op"
    and "top s + sum_list (map need ops) \<le> limit" and "i < j" and "j < length ops"
  shows "top s \<le> place (hs ! i) \<and> place (hs ! i) + need (ops ! i) \<le> place (hs ! j) \<and>
    place (hs ! j) + need (ops ! j) \<le> top s'"
proof -
  have len: "length hs = length ops"
    and con: "consecutive (top s) (zip (map place hs) (map need ops)) (top s')"
    using alloc_all_consecutive[OF assms(1-4)] by auto
  from consecutive_nth[OF con, of i] consecutive_nth[OF con, of j] consecutive_disjoint[OF con, of i j] len assms(5,6)
  show ?thesis by simp
qed

end

text \<open>An allocator that serves every admissible request below its limit.\<close>

locale total_bump_allocator = bump_allocator +
  assumes alloc_succeeds: "\<lbrakk>inv s; admissible op; top s + need op \<le> limit\<rbrakk> \<Longrightarrow> alloc op s \<noteq> None"
begin

lemma alloc_all_succeeds:
  "\<lbrakk>inv s; \<forall>op \<in> set ops. admissible op; top s + sum_list (map need ops) \<le> limit\<rbrakk>
   \<Longrightarrow> \<exists>hs s'. alloc_all alloc ops s = Some (hs, s') \<and> inv s' \<and> length hs = length ops \<and>
     top s' = top s + sum_list (map need ops)"
proof (induction ops arbitrary: s)
  case (Cons op ops)
  then have fits: "admissible op" "top s + need op \<le> limit" by auto
  from alloc_succeeds[OF Cons.prems(1) fits] obtain h s1 where a: "alloc op s = Some (h, s1)" by auto
  note law = alloc_law[OF Cons.prems(1) fits a]
  with Cons.IH[of s1] Cons.prems show ?case using a by (auto simp: add.assoc)
qed simp

end

end
