(* ===== verification/Tls_Patcher.thy ===== *)
theory Tls_Patcher
  imports Bump_Allocator
begin

text \<open>
  The AArch64 TLS thunk patcher: \<open>hybris/common/tls_patcher.c\<close>,
  \<open>tls_patcher_aarch64.c\<close> and the decoder of \<open>tls_patcher.h\<close>.
  Code memory is modelled by its 32-bit cells, a function from the address of a word to the
  word; the patcher only reads and writes whole instruction words.  Each \<open>abort()\<close> of the
  source is a value of \<open>tls_fatal\<close>.
\<close>

section \<open>Definitions\<close>

type_synonym code_mem = "u64 \<Rightarrow> u32"

datatype tls_fatal =
    ThunkRegionExhausted
  | ThunkTooFar
  | TlsOffsetRange
  | ReturnBranchRange
  | MrsBranchRange

record thunk_region =
  tr_start :: u64
  tr_size :: u64
  tr_used :: u64

definition hybris_is_tls_mrs :: "u32 \<Rightarrow> bool" where
  "hybris_is_tls_mrs instruction \<longleftrightarrow>
     (instruction AND 0xffffffe0) = 0xd53bd040 \<and> (instruction AND 31) \<noteq> 31"

definition HYBRIS_TLS_THUNK_SIZE :: u64 where
  "HYBRIS_TLS_THUNK_SIZE = 96"

definition hybris_register_thunk_region :: "u64 \<Rightarrow> u64 \<Rightarrow> thunk_region \<Rightarrow> thunk_region" where
  "hybris_register_thunk_region start sz r =
     r\<lparr>tr_start := start, tr_size := sz, tr_used := 0\<rparr>"

definition hybris_allocate_thunk_near ::
    "thunk_region \<Rightarrow> u64 \<Rightarrow> u64 \<Rightarrow> tls_fatal + u64 \<times> thunk_region" where
  "hybris_allocate_thunk_near r target_addr thunk_size =
     (let aligned_size = (thunk_size + 15) AND NOT 15 in
      if tr_start r = 0 \<or> tr_used r + aligned_size > tr_size r
      then Inl ThunkRegionExhausted
      else
        let thunk = tr_start r + tr_used r;
            distance = (if target_addr > thunk then target_addr - thunk else thunk - target_addr)
        in if distance > 128 * 1024 * 1024 then Inl ThunkTooFar
           else Inr (thunk, r\<lparr>tr_used := tr_used r + aligned_size\<rparr>))"

text \<open>The \<open>int\<close> difference is converted to \<open>size_t\<close> by the division, and back on return.\<close>

definition hybris_calculate_tls_offset :: "u64 \<Rightarrow> u64 \<Rightarrow> u32" where
  "hybris_calculate_tls_offset tp tls_area =
     ucast ((scast (ucast (tls_area - tp) :: u32) :: u64) div 8)"

text \<open>The address \<open>&text[i]\<close> of an instruction word of a segment.\<close>

definition text_word :: "u64 \<Rightarrow> nat \<Rightarrow> u64" where
  "text_word seg i = seg + of_nat (4 * i)"

primrec count_tls_words :: "code_mem \<Rightarrow> u64 \<Rightarrow> nat list \<Rightarrow> nat" where
  "count_tls_words m seg [] = 0"
| "count_tls_words m seg (i # is) =
     (if hybris_is_tls_mrs (m (text_word seg i)) then 1 else 0) + count_tls_words m seg is"

definition hybris_count_tls_arch :: "code_mem \<Rightarrow> u64 \<Rightarrow> u64 \<Rightarrow> nat" where
  "hybris_count_tls_arch m segment_addr segment_size =
     count_tls_words m segment_addr [0..<unat (segment_size div 4)]"

primrec store_words :: "code_mem \<Rightarrow> u64 \<Rightarrow> u32 list \<Rightarrow> code_mem" where
  "store_words m a [] = m"
| "store_words m a (w # ws) = store_words (m(a := w)) (a + 4) ws"

text \<open>The words of a thunk, as a function of the immediates, the register and the branch offset.\<close>

definition tls_thunk_code :: "u32 \<Rightarrow> u32 \<Rightarrow> u32 \<Rightarrow> u32 \<Rightarrow> u64 \<Rightarrow> u32 list" where
  "tls_thunk_code imm_lo imm_hi target_register return_offset helper =
     [0xa9be47f0,
      0xf9000bfe,
      0xd53bd050,
      0x91000210 OR push_bit 10 imm_lo,
      0x91400210 OR push_bit 10 imm_hi,
      0xf9400211,
      0xb4000071,
      0xf9400631,
      0xb5000091,
      0x580001b1,
      0xd63f0220,
      0xd503201f,
      0xf9400bfe,
      0xa8c247f0,
      0xd53bd040 OR target_register,
      0x91000000 OR push_bit 5 target_register OR target_register OR push_bit 10 imm_lo,
      0x91400000 OR push_bit 5 target_register OR target_register OR push_bit 10 imm_hi,
      0xf9400000 OR push_bit 5 target_register OR target_register,
      0x14000000 OR (return_offset AND 0x3ffffff),
      0xd503201f, 0xd503201f, 0xd503201f,
      ucast helper,
      ucast (drop_bit 32 helper)]"

definition branch_out_of_range :: "int \<Rightarrow> bool" where
  "branch_out_of_range diff \<longleftrightarrow>
     diff smod 4 \<noteq> 0 \<or> diff sdiv 4 < - (2 ^ 25) \<or> diff sdiv 4 \<ge> 2 ^ 25"

definition generate_tls_thunk ::
    "u64 \<Rightarrow> u32 \<Rightarrow> u32 \<Rightarrow> u64 \<Rightarrow> u64 \<Rightarrow> code_mem \<Rightarrow> tls_fatal + code_mem" where
  "generate_tls_thunk helper tls_offset_words target_register mrs_location thunk m =
     (let tls_offset_bytes = sint tls_offset_words * 8 in
      if tls_offset_bytes < 0 \<or> tls_offset_bytes > 0xFFFFFF then Inl TlsOffsetRange
      else
        let imm_lo = word_of_int (tls_offset_bytes AND 0xFFF);
            imm_hi = word_of_int (drop_bit 12 tls_offset_bytes AND 0xFFF);
            return_addr = mrs_location + 4;
            return_diff = sint (return_addr - (thunk + 72))
        in if branch_out_of_range return_diff then Inl ReturnBranchRange
           else Inr (store_words m thunk
                      (tls_thunk_code imm_lo imm_hi target_register
                         (word_of_int (return_diff sdiv 4)) helper)))"

definition patch_mrs_with_branch :: "u64 \<Rightarrow> u64 \<Rightarrow> code_mem \<Rightarrow> tls_fatal + code_mem" where
  "patch_mrs_with_branch mrs_location thunk m =
     (let diff = sint (thunk - mrs_location) in
      if branch_out_of_range diff then Inl MrsBranchRange
      else Inr (m(mrs_location := 0x14000000 OR (word_of_int (diff sdiv 4) AND 0x3FFFFFF))))"

fun patch_tls_words ::
    "u64 \<Rightarrow> u32 \<Rightarrow> u64 \<Rightarrow> nat list \<Rightarrow> code_mem \<Rightarrow> thunk_region \<Rightarrow> nat
      \<Rightarrow> tls_fatal + code_mem \<times> thunk_region \<times> nat" where
  "patch_tls_words helper tls_offset seg [] m r patches_applied = Inr (m, r, patches_applied)"
| "patch_tls_words helper tls_offset seg (i # is) m r patches_applied =
     (let loc = text_word seg i in
      if \<not> hybris_is_tls_mrs (m loc)
      then patch_tls_words helper tls_offset seg is m r patches_applied
      else
        case hybris_allocate_thunk_near r loc HYBRIS_TLS_THUNK_SIZE of
          Inl e \<Rightarrow> Inl e
        | Inr (thunk, r') \<Rightarrow>
            (case generate_tls_thunk helper tls_offset (m loc AND 31) loc thunk m of
               Inl e \<Rightarrow> Inl e
             | Inr m1 \<Rightarrow>
                 (case patch_mrs_with_branch loc thunk m1 of
                    Inl e \<Rightarrow> Inl e
                  | Inr m2 \<Rightarrow>
                      patch_tls_words helper tls_offset seg is m2 r' (Suc patches_applied))))"

text \<open>The last component says whether the instruction cache of the segment was cleared.\<close>

definition hybris_patch_tls_arch ::
    "u64 \<Rightarrow> u32 \<Rightarrow> u64 \<Rightarrow> u64 \<Rightarrow> code_mem \<Rightarrow> thunk_region
      \<Rightarrow> tls_fatal + code_mem \<times> thunk_region \<times> bool" where
  "hybris_patch_tls_arch helper tls_offset segment_addr segment_size m r =
     (case patch_tls_words helper tls_offset segment_addr
             [0..<unat (segment_size div 4)] m r 0 of
        Inl e \<Rightarrow> Inl e
      | Inr (m', r', patches_applied) \<Rightarrow> Inr (m', r', patches_applied > 0))"

definition hybris_patch_tls ::
    "u64 \<Rightarrow> u64 \<Rightarrow> u64 \<Rightarrow> u64 \<Rightarrow> u64 \<Rightarrow> code_mem \<Rightarrow> thunk_region
      \<Rightarrow> tls_fatal + code_mem \<times> thunk_region \<times> bool" where
  "hybris_patch_tls helper tp tls_area segment_addr segment_size m r =
     hybris_patch_tls_arch helper (hybris_calculate_tls_offset tp tls_area)
       segment_addr segment_size m r"

section \<open>Reference notions\<close>

text \<open>
  \<open>decode_b\<close> reads an AArch64 unconditional branch: the opcode in bits 31 to 26 and a signed
  offset in words in the other 26 bits.
\<close>

definition decode_b :: "u64 \<Rightarrow> u32 \<Rightarrow> u64 option" where
  "decode_b pc w =
     (if w AND 0xfc000000 = 0x14000000
      then Some (pc + word_of_int (4 * signed_take_bit 25 (uint w))) else None)"

lemma b_encoding_opcode: "(0x14000000 OR (w AND 0x3ffffff)) AND 0xfc000000 = (0x14000000 :: u32)"
proof -
  have "(w AND 0x3ffffff) AND 0xfc000000 = (w AND (0x3ffffff AND 0xfc000000) :: u32)"
    by (simp only: and.assoc)
  then have "(w AND 0x3ffffff) AND 0xfc000000 = (0 :: u32)" by simp
  then show ?thesis by (simp add: bit.conj_disj_distrib2)
qed

lemma b_encoding_offset:
  assumes "- (2 ^ 25) \<le> k" and "k < 2 ^ 25"
  shows "signed_take_bit 25 (uint (0x14000000 OR (word_of_int k AND 0x3ffffff) :: u32)) = k"
proof -
  have m: "(0x3ffffff :: int) = mask 26" by (simp add: mask_eq_exp_minus_1)
  have "take_bit 26 (uint (0x14000000 OR (word_of_int k AND 0x3ffffff) :: u32)) = take_bit 26 k AND mask 26"
    by (simp add: unsigned_or_eq unsigned_and_eq take_bit_or take_bit_and uint_word_of_int_eq m)
  also have "\<dots> = take_bit 26 k" by (simp flip: take_bit_eq_mask)
  finally have "signed_take_bit 25 (uint (0x14000000 OR (word_of_int k AND 0x3ffffff) :: u32)) = signed_take_bit 25 k"
    by (simp add: signed_take_bit_eq_iff_take_bit_eq)
  with assms show ?thesis by (simp add: signed_take_bit_int_eq_self)
qed

lemma in_range_exact:
  assumes "\<not> branch_out_of_range d"
  shows "4 * (d sdiv 4) = d" "- (2 ^ 25) \<le> d sdiv 4" "d sdiv 4 < 2 ^ 25"
proof -
  have "d smod 4 = 0" using assms by (simp add: branch_out_of_range_def)
  moreover have "d = d sdiv 4 * 4 + d smod 4" by (simp add: sdiv_mult_smod_eq)
  ultimately show "4 * (d sdiv 4) = d" by simp
qed (use assms in \<open>auto simp: branch_out_of_range_def\<close>)

lemma decode_b_encoding:
  assumes "\<not> branch_out_of_range (sint (target - pc))"
  shows "decode_b pc (0x14000000 OR (word_of_int (sint (target - pc) sdiv 4) AND 0x3ffffff)) = Some target"
  using in_range_exact[OF assms] by (simp add: decode_b_def b_encoding_opcode b_encoding_offset)

lemma store_words_other:
  "(\<And>j. j < length ws \<Longrightarrow> b \<noteq> a + of_nat (4 * j)) \<Longrightarrow> store_words m a ws b = m b"
proof (induction ws arbitrary: m a)
  case (Cons w ws)
  have "b \<noteq> a" using Cons.prems[of 0] by simp
  have "b \<noteq> (a + 4) + of_nat (4 * j)" if "j < length ws" for j
    using Cons.prems[of "Suc j"] that by (simp add: algebra_simps)
  then have "store_words (m(a := w)) (a + 4) ws b = (m(a := w)) b" by (rule Cons.IH)
  with \<open>b \<noteq> a\<close> show ?case by simp
qed simp

lemma store_words_at:
  "j < length ws \<Longrightarrow> 4 * length ws \<le> 2 ^ 64 \<Longrightarrow> store_words m a ws (a + of_nat (4 * j)) = ws ! j"
proof (induction ws arbitrary: m a j)
  case (Cons w ws)
  show ?case
  proof (cases j)
    case 0
    have "a \<noteq> (a + 4) + of_nat (4 * k)" if "k < length ws" for k
    proof
      assume "a = (a + 4) + of_nat (4 * k)"
      then have "(of_nat (4 + 4 * k) :: u64) = 0" by simp
      then have "2 ^ 64 dvd 4 + 4 * k" by (simp only: word_of_nat_eq_0_iff) simp
      with that Cons.prems(2) show False by (auto dest: dvd_imp_le)
    qed
    then show ?thesis using 0 by (simp add: store_words_other)
  next
    case (Suc k)
    with Cons.prems have "store_words (m(a := w)) (a + 4) ws (a + 4 + of_nat (4 * k)) = ws ! k"
      by (intro Cons.IH) auto
    with Suc show ?thesis by (simp add: add.assoc)
  qed
qed simp

definition region_ok :: "thunk_region \<Rightarrow> bool" where
  "region_ok r \<longleftrightarrow> 4096 \<le> unat (tr_start r) \<and> unat (tr_start r) + unat (tr_size r) \<le> 2 ^ 64 \<and>
     unat (tr_used r) \<le> unat (tr_size r)"

lemma allocate_thunk:
  assumes "hybris_allocate_thunk_near r target HYBRIS_TLS_THUNK_SIZE = Inr (thunk, r')" and "region_ok r"
  shows "thunk = tr_start r + tr_used r" "unat thunk = unat (tr_start r) + unat (tr_used r)"
    "unat (tr_used r') = unat (tr_used r) + 96" "tr_start r' = tr_start r" "tr_size r' = tr_size r"
    "region_ok r'"
proof -
  have le: "tr_used r + 96 \<le> tr_size r" and r': "r' = r\<lparr>tr_used := tr_used r + 96\<rparr>"
    and th: "thunk = tr_start r + tr_used r"
    using assms(1) by (auto simp: hybris_allocate_thunk_near_def HYBRIS_TLS_THUNK_SIZE_def Let_def
        not_less split: if_splits)
  have u: "unat (tr_used r + 96) = unat (tr_used r) + 96"
    using assms(2) by (subst unat_add_lem [THEN iffD1]) (auto simp: region_ok_def)
  show "thunk = tr_start r + tr_used r" by (fact th)
  have lt: "unat (tr_used r) + 96 \<le> unat (tr_size r)" using le u by (simp add: word_le_nat_alt)
  show "unat thunk = unat (tr_start r) + unat (tr_used r)"
    unfolding th using assms(2) lt by (subst unat_add_lem [THEN iffD1]) (auto simp: region_ok_def)
  show "unat (tr_used r') = unat (tr_used r) + 96" "tr_start r' = tr_start r" "tr_size r' = tr_size r"
    using u by (simp_all add: r')
  show "region_ok r'" using assms(2) lt u by (simp add: region_ok_def r')
qed

text \<open>The thunk region is a bump allocator: its thunks lie one after the other.\<close>

definition thunk_request :: "u64 \<Rightarrow> thunk_region \<Rightarrow> (u64 \<times> thunk_region) option" where
  "thunk_request target r =
     (case hybris_allocate_thunk_near r target HYBRIS_TLS_THUNK_SIZE of Inl e \<Rightarrow> None | Inr (thunk, r') \<Rightarrow> Some (thunk, r'))"

definition region_top :: "thunk_region \<Rightarrow> nat" where "region_top r = unat (tr_start r) + unat (tr_used r)"

interpretation thunks: bump_allocator thunk_request region_ok region_top unat "\<lambda>target. 96" "\<lambda>target. True" "2 ^ 64"
  using allocate_thunk by unfold_locales (auto simp: thunk_request_def region_top_def split: sum.splits)

definition patched_site :: "u64 \<Rightarrow> u32 \<Rightarrow> u32 \<Rightarrow> u64 \<Rightarrow> u64 \<Rightarrow> code_mem \<Rightarrow> bool" where
  "patched_site helper tls_offset rt loc thunk m \<longleftrightarrow>
     0 \<le> sint tls_offset * 8 \<and> sint tls_offset * 8 \<le> 0xFFFFFF \<and>
     decode_b loc (m loc) = Some thunk \<and>
     decode_b (thunk + 72) (m (thunk + 72)) = Some (loc + 4) \<and>
     (\<exists>ret. \<forall>j < 24. m (thunk + of_nat (4 * j)) =
        tls_thunk_code (word_of_int (sint tls_offset * 8 AND 0xFFF))
          (word_of_int (drop_bit 12 (sint tls_offset * 8) AND 0xFFF)) rt ret helper ! j)"

lemma length_tls_thunk_code [simp]: "length (tls_thunk_code lo hi rt ret helper) = 24"
  by (simp add: tls_thunk_code_def)

lemma thunk_cells:
  assumes "unat (thunk :: u64) + 96 \<le> 2 ^ 64" and "j < 24"
  shows "unat (thunk + of_nat (4 * j)) = unat thunk + 4 * j"
  using assms by (intro unat_add_of_nat64) simp

lemma patch_one_site:
  assumes gen: "generate_tls_thunk helper off rt loc thunk m = Inr m1"
    and pat: "patch_mrs_with_branch loc thunk m1 = Inr m2"
    and nowrap: "unat thunk + 96 \<le> 2 ^ 64"
    and out: "unat loc < unat thunk \<or> unat thunk + 96 \<le> unat loc"
  shows "patched_site helper off rt loc thunk m2"
    and "\<And>a. a \<noteq> loc \<Longrightarrow> unat a < unat thunk \<or> unat thunk + 96 \<le> unat a \<Longrightarrow> m2 a = m a"
proof -
  let ?d = "sint (loc + 4 - (thunk + 72))"
  let ?code = "tls_thunk_code (word_of_int (sint off * 8 AND 0xFFF))
          (word_of_int (drop_bit 12 (sint off * 8) AND 0xFFF)) rt (word_of_int (?d sdiv 4)) helper"
  from gen have rng: "0 \<le> sint off * 8" "sint off * 8 \<le> 0xFFFFFF"
    and ret: "\<not> branch_out_of_range ?d" and m1: "m1 = store_words m thunk ?code"
    by (auto simp: generate_tls_thunk_def Let_def not_less split: if_splits)
  from pat have br: "\<not> branch_out_of_range (sint (thunk - loc))"
    and m2: "m2 = m1(loc := 0x14000000 OR (word_of_int (sint (thunk - loc) sdiv 4) AND 0x3FFFFFF))"
    by (auto simp: patch_mrs_with_branch_def Let_def split: if_splits)
  have ne: "loc \<noteq> thunk + of_nat (4 * j)" if "j < 24" for j
    using thunk_cells[OF nowrap that] out that by auto
  have cell: "m2 (thunk + of_nat (4 * j)) = ?code ! j" if "j < 24" for j
    using ne[OF that] that store_words_at[of j ?code m thunk] by (simp add: m2 m1)
  have "m2 (thunk + 72) = ?code ! 18" using cell[of 18] by simp
  then have "m2 (thunk + 72) = 0x14000000 OR (word_of_int (?d sdiv 4) AND 0x3ffffff)"
    by (simp add: tls_thunk_code_def)
  then have "decode_b (thunk + 72) (m2 (thunk + 72)) = Some (loc + 4)"
    using decode_b_encoding[OF ret] by simp
  moreover have "decode_b loc (m2 loc) = Some thunk"
    using decode_b_encoding[OF br] by (simp add: m2)
  ultimately show "patched_site helper off rt loc thunk m2"
    using rng cell unfolding patched_site_def by blast
  fix a assume "a \<noteq> loc" and a: "unat a < unat thunk \<or> unat thunk + 96 \<le> unat a"
  have "a \<noteq> thunk + of_nat (4 * j)" if "j < 24" for j
    using thunk_cells[OF nowrap that] a that by auto
  then have "store_words m thunk ?code a = m a" by (intro store_words_other) simp
  then show "m2 a = m a" using \<open>a \<noteq> loc\<close> by (simp add: m2 m1)
qed

lemma patched_site_mono:
  assumes "patched_site helper off rt loc thunk m" and "unat thunk + 96 \<le> 2 ^ 64" and "m' loc = m loc"
    and "\<And>a. unat thunk \<le> unat a \<Longrightarrow> unat a < unat thunk + 96 \<Longrightarrow> m' a = m a"
  shows "patched_site helper off rt loc thunk m'"
proof -
  have c: "m' (thunk + of_nat (4 * j)) = m (thunk + of_nat (4 * j))" if "j < 24" for j
    using thunk_cells[OF assms(2) that] that by (intro assms(4)) auto
  have "m' (thunk + 72) = m (thunk + 72)" using c[of 18] by simp
  with assms(1,3) c show ?thesis unfolding patched_site_def by metis
qed

lemma unat_text_word: "unat seg + 4 * i < 2 ^ 64 \<Longrightarrow> unat (text_word seg i) = unat seg + 4 * i"
  unfolding text_word_def by (rule unat_add_of_nat64)

lemma count_tls_words_cong:
  "(\<And>i. i \<in> set is \<Longrightarrow> m' (text_word seg i) = m (text_word seg i)) \<Longrightarrow>
   count_tls_words m' seg is = count_tls_words m seg is"
  by (induction "is") auto

definition sites_clear :: "thunk_region \<Rightarrow> u64 \<Rightarrow> nat list \<Rightarrow> bool" where
  "sites_clear r seg is \<longleftrightarrow> distinct is \<and>
     (\<forall>i\<in>set is. unat seg + 4 * i < 2 ^ 64 \<and>
        (unat seg + 4 * i < unat (tr_start r) \<or>
         unat (tr_start r) + unat (tr_size r) \<le> unat seg + 4 * i))"

definition patched_words ::
    "u64 \<Rightarrow> u32 \<Rightarrow> u64 \<Rightarrow> nat list \<Rightarrow> code_mem \<Rightarrow> thunk_region \<Rightarrow> code_mem \<Rightarrow> thunk_region \<Rightarrow> bool" where
  "patched_words helper off seg is m r m' r' \<longleftrightarrow>
     region_ok r' \<and> tr_start r' = tr_start r \<and> tr_size r' = tr_size r \<and>
     unat (tr_used r') = unat (tr_used r) + 96 * count_tls_words m seg is \<and>
     (\<forall>a. (\<forall>i\<in>set is. a \<noteq> text_word seg i) \<longrightarrow>
          (unat a < unat (tr_start r) + unat (tr_used r) \<or>
           unat (tr_start r) + unat (tr_used r') \<le> unat a) \<longrightarrow> m' a = m a) \<and>
     (\<forall>k < length is. let loc = text_word seg (is ! k) in
        if hybris_is_tls_mrs (m loc)
        then patched_site helper off (m loc AND 31) loc
               (tr_start r + tr_used r + of_nat (96 * count_tls_words m seg (take k is))) m'
        else m' loc = m loc)"

lemma patched_words_frame:
  "patched_words helper off seg ixs m r m' r' \<Longrightarrow> (\<And>i. i \<in> set ixs \<Longrightarrow> text_word seg i \<noteq> a) \<Longrightarrow>
   unat a < unat (tr_start r) + unat (tr_used r) \<or> unat (tr_start r) + unat (tr_used r') \<le> unat a \<Longrightarrow> m' a = m a"
  unfolding patched_words_def by metis

lemma patched_words_site:
  "patched_words helper off seg ixs m r m' r' \<Longrightarrow> k < length ixs \<Longrightarrow>
   let loc = text_word seg (ixs ! k) in
     if hybris_is_tls_mrs (m loc)
     then patched_site helper off (m loc AND 31) loc
            (tr_start r + tr_used r + of_nat (96 * count_tls_words m seg (take k ixs))) m'
     else m' loc = m loc"
  unfolding patched_words_def by blast

lemma patched_words_outside:
  assumes "patched_words helper off seg ixs m r m' r'" and "\<And>i. i \<in> set ixs \<Longrightarrow> text_word seg i \<noteq> a"
    and "unat a < unat (tr_start r) \<or> unat (tr_start r) + unat (tr_size r) \<le> unat a"
  shows "m' a = m a"
proof -
  have "unat (tr_used r') \<le> unat (tr_size r)"
    using assms(1) unfolding patched_words_def region_ok_def by metis
  with assms(3) show ?thesis by (intro patched_words_frame[OF assms(1,2)]) linarith+
qed

lemma patched_words_skip:
  assumes "patched_words helper off seg ixs m r m' r'" and "\<not> hybris_is_tls_mrs (m (text_word seg i))"
    and "m' (text_word seg i) = m (text_word seg i)"
  shows "patched_words helper off seg (i # ixs) m r m' r'"
  using assms by (auto simp: patched_words_def Let_def less_Suc_eq_0_disj)

lemma patched_words_step:
  assumes P: "patched_words helper off seg ixs m2 r2 m' r'"
    and site: "hybris_is_tls_mrs (m (text_word seg i))"
      "patched_site helper off (m (text_word seg i) AND 31) (text_word seg i) (tr_start r + tr_used r) m'"
    and r2: "tr_start r2 = tr_start r" "tr_size r2 = tr_size r" "tr_used r2 = tr_used r + 96"
      "unat (tr_used r2) = unat (tr_used r) + 96"
    and same: "\<And>j. j \<in> set ixs \<Longrightarrow> m2 (text_word seg j) = m (text_word seg j)"
    and frame: "\<And>a. a \<noteq> text_word seg i \<Longrightarrow>
      unat a < unat (tr_start r) + unat (tr_used r) \<or> unat (tr_start r) + unat (tr_used r2) \<le> unat a \<Longrightarrow> m2 a = m a"
  shows "patched_words helper off seg (i # ixs) m r m' r'"
proof -
  have cnt: "count_tls_words m2 seg (take k ixs) = count_tls_words m seg (take k ixs)" for k
    by (rule count_tls_words_cong) (auto intro: same dest: in_set_takeD)
  have cnt': "count_tls_words m2 seg ixs = count_tls_words m seg ixs"
    using cnt[of "length ixs"] by simp
  have frame': "m' a = m a" if "\<forall>j\<in>set (i # ixs). a \<noteq> text_word seg j"
      "unat a < unat (tr_start r) + unat (tr_used r) \<or> unat (tr_start r) + unat (tr_used r') \<le> unat a" for a
  proof -
    have "m' a = m2 a" using P that r2 by (auto simp: patched_words_def)
    also have "\<dots> = m a" using P that r2 by (intro frame) (auto simp: patched_words_def)
    finally show ?thesis .
  qed
  show ?thesis
    unfolding patched_words_def
  proof (intro conjI allI impI)
    fix k assume "k < length (i # ixs)"
    then show "let loc = text_word seg ((i # ixs) ! k) in
        if hybris_is_tls_mrs (m loc)
        then patched_site helper off (m loc AND 31) loc
               (tr_start r + tr_used r + of_nat (96 * count_tls_words m seg (take k (i # ixs)))) m'
        else m' loc = m loc"
      using P site r2 same by (cases k) (auto simp: patched_words_def Let_def cnt algebra_simps)
  qed (use P site r2 cnt' frame' in \<open>auto simp: patched_words_def\<close>)
qed

lemma patch_tls_words_patched:
  "patch_tls_words helper off seg ixs m r n = Inr (m', r', n') \<Longrightarrow> region_ok r \<Longrightarrow>
   sites_clear r seg ixs \<Longrightarrow> patched_words helper off seg ixs m r m' r' \<and> n' = n + count_tls_words m seg ixs"
proof (induction helper off seg ixs m r n rule: patch_tls_words.induct)
  case (1 helper off seg m r n)
  then show ?case by (simp add: patched_words_def)
next
  case (2 helper off seg i ixs m r n)
  let ?loc = "\<lambda>i. text_word seg i"
  have locs: "unat (?loc j) = unat seg + 4 * j" if "j \<in> set (i # ixs)" for j
    using "2.prems"(3) that by (intro unat_text_word) (auto simp: sites_clear_def)
  have ne: "?loc j \<noteq> ?loc i" if "j \<in> set ixs" for j
  proof
    assume "?loc j = ?loc i"
    then have "unat seg + 4 * j = unat seg + 4 * i"
      using locs[OF list.set_intros(2)[OF that]] locs[OF list.set_intros(1)] by metis
    then have "j = i" by linarith
    with that "2.prems"(3) show False by (simp add: sites_clear_def)
  qed
  have out: "unat (?loc j) < unat (tr_start r) \<or> unat (tr_start r) + unat (tr_size r) \<le> unat (?loc j)"
    if "j \<in> set (i # ixs)" for j
    using locs[OF that] that "2.prems"(3) by (auto simp: sites_clear_def)
  show ?case
  proof (cases "hybris_is_tls_mrs (m (?loc i))")
    case False
    have "sites_clear r seg ixs" using "2.prems"(3) by (simp add: sites_clear_def)
    with "2.IH"(1)[OF refl False] False "2.prems"
    have P: "patched_words helper off seg ixs m r m' r'" and n': "n' = n + count_tls_words m seg ixs"
      by (simp_all add: Let_def)
    have "m' (?loc i) = m (?loc i)"
      using out[of i] by (intro patched_words_outside[OF P ne]) auto
    with P n' False show ?thesis by (simp add: patched_words_skip)
  next
    case True
    with "2.prems"(1) obtain thunk r2 m1 m2 where
      al: "hybris_allocate_thunk_near r (?loc i) HYBRIS_TLS_THUNK_SIZE = Inr (thunk, r2)" and
      gen: "generate_tls_thunk helper off (m (?loc i) AND 31) (?loc i) thunk m = Inr m1" and
      pat: "patch_mrs_with_branch (?loc i) thunk m1 = Inr m2" and
      rest: "patch_tls_words helper off seg ixs m2 r2 (Suc n) = Inr (m', r', n')"
      by (auto simp: Let_def split: sum.splits)
    note al' = allocate_thunk[OF al "2.prems"(2)]
    have room: "unat (tr_start r) + unat (tr_used r) + 96 \<le> unat (tr_start r) + unat (tr_size r)"
      and lim: "unat (tr_start r) + unat (tr_size r) \<le> 2 ^ 64"
      using al'(3,5,6) "2.prems"(2) by (simp_all add: region_ok_def)
    have nowrap: "unat thunk + 96 \<le> 2 ^ 64" using al'(2) room lim by simp
    have out96: "unat (?loc j) < unat thunk \<or> unat thunk + 96 \<le> unat (?loc j)" if "j \<in> set (i # ixs)" for j
      using out[OF that] al'(2) room by linarith
    note one = patch_one_site[OF gen pat nowrap out96[of i, simplified]]
    have same: "m2 (?loc j) = m (?loc j)" if "j \<in> set ixs" for j
      using that ne out96 by (intro one(2)) auto
    have "sites_clear r2 seg ixs" using "2.prems"(3) al'(4,5) by (simp add: sites_clear_def)
    with "2.IH"(2) True al gen pat rest al'(6)
    have P: "patched_words helper off seg ixs m2 r2 m' r'" and n': "n' = Suc n + count_tls_words m2 seg ixs"
      by auto
    have cnt: "count_tls_words m2 seg ixs = count_tls_words m seg ixs"
      using same by (rule count_tls_words_cong)
    have used: "tr_used r2 = tr_used r + 96"
      using al by (auto simp: hybris_allocate_thunk_near_def HYBRIS_TLS_THUNK_SIZE_def Let_def split: if_splits)
    have "patched_site helper off (m (?loc i) AND 31) (?loc i) thunk m'"
    proof (rule patched_site_mono[OF one(1) nowrap])
      show "m' (?loc i) = m2 (?loc i)"
        using out[of i] al'(4,5) by (intro patched_words_outside[OF P ne]) auto
      show "m' a = m2 a" if "unat thunk \<le> unat a" "unat a < unat thunk + 96" for a
      proof (rule patched_words_frame[OF P])
        show "?loc j \<noteq> a" if "j \<in> set ixs" for j
          using out96[of j] that \<open>unat thunk \<le> unat a\<close> \<open>unat a < unat thunk + 96\<close> by auto
      qed (use that al' in auto)
    qed
    then have "patched_words helper off seg (i # ixs) m r m' r'"
      using True same al' one(2) by (intro patched_words_step[OF P]) (auto simp: used)
    with n' cnt True show ?thesis by simp
  qed
qed

lemma sint_diff64:
  assumes "\<bar>int (unat a) - int (unat (b :: u64))\<bar> < 2 ^ 63"
  shows "sint (a - b) = int (unat a) - int (unat b)"
proof -
  have "sint (a - b) = signed_take_bit 63 (int (unat a) - int (unat b))"
    by (simp add: sint_uint signed_take_bit_eq_iff_take_bit_eq uint_sub_if' uint_word_ariths(2) take_bit_eq_mod)
  then show ?thesis using assms by (simp add: signed_take_bit_int_eq_self)
qed

lemma abs_diff_lt_nat: "a < lo + n \<Longrightarrow> lo \<le> a \<Longrightarrow> b < lo + n \<Longrightarrow> lo \<le> b \<Longrightarrow> \<bar>int a - int b\<bar> < int n"
  by linarith

definition near :: "nat \<Rightarrow> u64 \<Rightarrow> bool" where
  "near lo a \<longleftrightarrow> 4 dvd unat a \<and> lo \<le> unat a \<and> unat a < lo + 2 ^ 27"

lemma near_in_range:
  assumes "near lo a" and "near lo b"
  shows "\<not> branch_out_of_range (sint (a - b))"
proof -
  let ?d = "int (unat a) - int (unat b)"
  have lt: "\<bar>?d\<bar> < int (2 ^ 27)"
    using assms unfolding near_def by (intro abs_diff_lt_nat[of _ lo]) (simp_all only: simp_thms)
  have d: "sint (a - b) = ?d" using lt by (intro sint_diff64) (rule less_trans, assumption, simp)
  obtain k where k: "?d = 4 * k" using assms unfolding near_def
    by (metis (no_types) dvd_diff dvdE int_dvd_int_iff of_nat_numeral)
  have "- (2 ^ 25) \<le> k \<and> k < 2 ^ 25" using lt unfolding k by auto
  moreover have "(4 * k) sdiv 4 = k" "(4 * k) smod 4 = 0" 
    by (simp_all add: signed_divide_int_def signed_modulo_int_def abs_mult sgn_mult sgn_mult_abs)
  ultimately show ?thesis unfolding branch_out_of_range_def d k by auto
qed

lemma near_distance:
  assumes "near lo a" and "near lo b"
  shows "\<not> (if a > b then a - b else b - a) > (128 * 1024 * 1024 :: u64)"
proof -
  have *: "unat (x - y) \<le> 128 * 1024 * 1024" if "near lo x" "near lo y" "x \<ge> y" for x y
  proof -
    have "unat (x - y) = unat x - unat y" using that(3) by (simp add: unat_sub word_le_nat_alt)
    then show ?thesis using that by (auto simp: near_def)
  qed
  show ?thesis using *[OF assms] *[OF assms(2,1)] by (auto simp: word_less_nat_alt word_le_nat_alt not_less)
qed

lemma near_add:
  "near lo a \<Longrightarrow> 4 dvd n \<Longrightarrow> unat a + n < lo + 2 ^ 27 \<Longrightarrow> lo + 2 ^ 27 \<le> 2 ^ 64 \<Longrightarrow> near lo (a + of_nat n)"
  by (simp add: near_def unat_add_of_nat64)

lemma allocate_thunk_succeeds:
  assumes "region_ok r" and "unat (tr_used r) + 96 \<le> unat (tr_size r)" 
    and "near lo target" and "near lo (tr_start r + tr_used r)"
  shows "hybris_allocate_thunk_near r target HYBRIS_TLS_THUNK_SIZE =
    Inr (tr_start r + tr_used r, r\<lparr>tr_used := tr_used r + 96\<rparr>)"
proof -
  have "tr_start r \<noteq> 0" using assms(1) by (auto simp: region_ok_def)
  moreover have "unat (tr_used r + 96) = unat (tr_used r) + 96"
    using assms(1,2) by (subst unat_add64) (auto simp: region_ok_def)
  then have "\<not> tr_used r + 96 > tr_size r" using assms(2) by (simp add: word_less_nat_alt)
  ultimately show ?thesis using near_distance[OF assms(3,4)]
    by (simp add: hybris_allocate_thunk_near_def HYBRIS_TLS_THUNK_SIZE_def Let_def)
qed

definition arena_near :: "nat \<Rightarrow> thunk_region \<Rightarrow> u64 \<Rightarrow> nat list \<Rightarrow> bool" where
  "arena_near lo r seg ixs \<longleftrightarrow> lo + 2 ^ 27 \<le> 2 ^ 64 \<and> 4 dvd unat (tr_start r) \<and> 4 dvd unat (tr_used r) \<and> lo \<le> unat (tr_start r) \<and>
     unat (tr_start r) + unat (tr_size r) \<le> lo + 2 ^ 27 \<and>
     4 dvd unat seg \<and> lo \<le> unat seg \<and> (\<forall>i\<in>set ixs. unat seg + 4 * i + 4 < lo + 2 ^ 27)"

lemma patch_tls_words_succeeds:
  assumes "region_ok r" "sites_clear r seg ixs" "arena_near lo r seg ixs"
    and "0 \<le> sint off" "sint off * 8 \<le> 0xFFFFFF"
    and "unat (tr_used r) + 96 * count_tls_words m seg ixs \<le> unat (tr_size r)"
  shows "\<exists>s. patch_tls_words helper off seg ixs m r n = Inr s"
  using assms(1-3,6)
proof (induction ixs arbitrary: m r n)
  case Nil
  then show ?case by simp
next
  case (Cons i ixs)
  let ?loc = "text_word seg i"
  have clear: "sites_clear r seg ixs" using Cons.prems(2) by (simp add: sites_clear_def)
  have locs: "unat (text_word seg j) = unat seg + 4 * j" if "j \<in> set (i # ixs)" for j
    using Cons.prems(2) that by (intro unat_text_word) (auto simp: sites_clear_def)
  show ?case
  proof (cases "hybris_is_tls_mrs (m ?loc)")
    case False
    have "arena_near lo r seg ixs" using Cons.prems(3) by (simp add: arena_near_def)
    then obtain s where "patch_tls_words helper off seg ixs m r n = Inr s"
      using Cons.IH[OF Cons.prems(1) clear, of m n] Cons.prems(4) False by auto
    then show ?thesis using False by (cases s) (simp add: Let_def)
  next
    case True
    let ?thunk = "tr_start r + tr_used r" and ?r2 = "r\<lparr>tr_used := tr_used r + 96\<rparr>"
    have room: "unat (tr_used r) + 96 \<le> unat (tr_size r)" using Cons.prems(4) True by simp
    have ut: "unat ?thunk = unat (tr_start r) + unat (tr_used r)"
      using Cons.prems(1) room by (intro unat_add64) (simp add: region_ok_def)
    have nl: "near lo ?loc" using Cons.prems(3) locs[of i] by (simp add: near_def arena_near_def)
    have nt: "near lo ?thunk" using Cons.prems(3) room ut by (simp add: near_def arena_near_def)
    have al: "hybris_allocate_thunk_near r ?loc HYBRIS_TLS_THUNK_SIZE = Inr (?thunk, ?r2)"
      by (rule allocate_thunk_succeeds[OF Cons.prems(1) room nl nt])
    have clr: "unat ?loc < unat ?thunk \<or> unat ?thunk + 96 \<le> unat ?loc"
      and lim: "unat ?thunk + 96 \<le> 2 ^ 64"
      using Cons.prems(1,2) room ut locs[of i] by (auto simp: sites_clear_def region_ok_def)
    have nr: "near lo (?loc + 4)" using near_add[OF nl, of 4] Cons.prems(3) locs[of i]
      by (simp add: arena_near_def)
    have n72: "near lo (?thunk + 72)" using near_add[OF nt, of 72] Cons.prems(3) room ut
      by (simp add: arena_near_def)
    obtain m1 where gen: "generate_tls_thunk helper off (m ?loc AND 31) ?loc ?thunk m = Inr m1"
      using near_in_range[OF nr n72] assms(4,5) by (auto simp: generate_tls_thunk_def Let_def)
    obtain m2 where pat: "patch_mrs_with_branch ?loc ?thunk m1 = Inr m2"
      using near_in_range[OF nt nl] by (auto simp: patch_mrs_with_branch_def Let_def)
    have same: "m2 (text_word seg j) = m (text_word seg j)" if "j \<in> set ixs" for j
    proof (rule patch_one_site(2)[OF gen pat lim clr])
      show "text_word seg j \<noteq> ?loc"
        using locs[of j] locs[of i] that Cons.prems(2) unfolding sites_clear_def
        by (metis add_left_cancel distinct.simps(2) list.set_intros mult_left_cancel zero_neq_numeral)
      show "unat (text_word seg j) < unat ?thunk \<or> unat ?thunk + 96 \<le> unat (text_word seg j)"
        using Cons.prems(1,2) room ut locs[of j] that by (auto simp: sites_clear_def region_ok_def)
    qed
    have u2: "unat (tr_used r + 96) = unat (tr_used r) + 96"
      using room Cons.prems(1) by (intro unat_add64[of _ 96, simplified]) (simp add: region_ok_def)
    have "\<exists>s. patch_tls_words helper off seg ixs m2 ?r2 (Suc n) = Inr s"
    proof (rule Cons.IH)
      show "region_ok ?r2" using Cons.prems(1) room u2 by (simp add: region_ok_def)
      show "sites_clear ?r2 seg ixs" using clear by (simp add: sites_clear_def)
      show "arena_near lo ?r2 seg ixs" using Cons.prems(3) u2 by (auto simp: arena_near_def)
      show "unat (tr_used ?r2) + 96 * count_tls_words m2 seg ixs \<le> unat (tr_size ?r2)"
        using Cons.prems(4) True u2 count_tls_words_cong[of ixs m2 seg m, OF same] by simp
    qed
    then show ?thesis using True al gen pat by (auto simp: Let_def)
  qed
qed

section \<open>Properties\<close>

definition segment_clear :: "thunk_region \<Rightarrow> u64 \<Rightarrow> u64 \<Rightarrow> bool" where
  "segment_clear r seg sz \<longleftrightarrow> unat seg + unat sz \<le> 2 ^ 64 \<and>
     (unat seg + unat sz \<le> unat (tr_start r) \<or> unat (tr_start r) + unat (tr_size r) \<le> unat seg)"

lemma segment_clear_sites:
  "segment_clear r seg sz \<Longrightarrow> sites_clear r seg [0..<unat (sz div 4)]"
  by (auto simp: segment_clear_def sites_clear_def unat_div)

text \<open>
  C3: A successful patching pass rewrites every \<open>MRS Xt, TPIDR_EL0\<close> of the segment, and nothing
  else. The word at such a site becomes a branch that decodes to the address of its own thunk, the
  thunks lie one after the other, 96 bytes each, from the next free byte of the registered region,
  each holds the 24 generated words for the site's register, and its final branch decodes to the
  instruction after the site. Other words of the segment, and all memory outside the segment and
  the newly used part of the region, are unchanged; the cache is cleared exactly when a site was
  patched.
\<close>

theorem tls_patch_correct:
  assumes run: "hybris_patch_tls_arch helper off seg sz m r = Inr (m', r', flushed)"
    and ok: "region_ok r" and clear: "segment_clear r seg sz"
  shows "(\<forall>i < unat (sz div 4). let loc = text_word seg i in
            if hybris_is_tls_mrs (m loc)
            then patched_site helper off (m loc AND 31) loc
                   (tr_start r + tr_used r + of_nat (96 * count_tls_words m seg [0..<i])) m'
            else m' loc = m loc)
       \<and> (\<forall>a. (\<forall>i < unat (sz div 4). a \<noteq> text_word seg i) \<and>
              (unat a < unat (tr_start r) + unat (tr_used r) \<or>
               unat (tr_start r) + unat (tr_used r') \<le> unat a) \<longrightarrow> m' a = m a)
       \<and> unat (tr_used r') = unat (tr_used r) + 96 * hybris_count_tls_arch m seg sz
       \<and> (flushed \<longleftrightarrow> hybris_count_tls_arch m seg sz > 0)"
proof -
  from run obtain n where
    "patch_tls_words helper off seg [0..<unat (sz div 4)] m r 0 = Inr (m', r', n)"
    and fl: "flushed \<longleftrightarrow> n > 0"
    by (auto simp: hybris_patch_tls_arch_def split: sum.splits)
  from patch_tls_words_patched[OF this(1) ok segment_clear_sites[OF clear]]
  have P: "patched_words helper off seg [0..<unat (sz div 4)] m r m' r'"
    and n: "n = hybris_count_tls_arch m seg sz"
    by (simp_all add: hybris_count_tls_arch_def)
  have "\<forall>i < unat (sz div 4). let loc = text_word seg i in
            if hybris_is_tls_mrs (m loc)
            then patched_site helper off (m loc AND 31) loc
                   (tr_start r + tr_used r + of_nat (96 * count_tls_words m seg [0..<i])) m'
            else m' loc = m loc"
    (is "\<forall>i < _. ?site i")
  proof (intro allI impI)
    fix i assume "i < unat (sz div 4)"
    then show "?site i" using patched_words_site[OF P, of i] by (auto simp: take_upt Let_def split: if_splits)
  qed
  moreover have "m' a = m a" if "\<forall>i < unat (sz div 4). a \<noteq> text_word seg i"
    "unat a < unat (tr_start r) + unat (tr_used r) \<or> unat (tr_start r) + unat (tr_used r') \<le> unat a" for a
    by (rule patched_words_frame[OF P]) (use that in auto)
  moreover have "unat (tr_used r') = unat (tr_used r) + 96 * hybris_count_tls_arch m seg sz"
    using P unfolding patched_words_def hybris_count_tls_arch_def by metis
  ultimately show ?thesis using fl n by simp
qed

definition demo_mem :: code_mem where
  "demo_mem = (\<lambda>a. if a = 0x10000 then 0xd53bd043 else 0xd503201f)"

definition demo_region :: thunk_region where
  "demo_region = \<lparr>tr_start = 0x20000, tr_size = 96, tr_used = 0\<rparr>"

theorem tls_patch_correct_witness:
  "\<exists>m' r'. hybris_patch_tls_arch 0x1122334455 716 0x10000 8 demo_mem demo_region = Inr (m', r', True)
     \<and> patched_site 0x1122334455 716 3 0x10000 0x20000 m' \<and> m' 0x10004 = 0xd503201f"
proof -
  have "\<exists>m' r'. hybris_patch_tls_arch 0x1122334455 716 0x10000 8 demo_mem demo_region = Inr (m', r', True)"
    by (simp add: hybris_patch_tls_arch_def upt_rec demo_mem_def demo_region_def text_word_def
        hybris_is_tls_mrs_def hybris_allocate_thunk_near_def HYBRIS_TLS_THUNK_SIZE_def
        generate_tls_thunk_def patch_mrs_with_branch_def branch_out_of_range_def
        signed_divide_int_def signed_modulo_int_def tls_thunk_code_def)
  then obtain m' r' where run:
    "hybris_patch_tls_arch 0x1122334455 716 0x10000 8 demo_mem demo_region = Inr (m', r', True)" by blast
  have "region_ok demo_region" "segment_clear demo_region 0x10000 8"
    by (simp_all add: region_ok_def segment_clear_def demo_region_def)
  note sites = tls_patch_correct[OF run this, THEN conjunct1, rule_format]
  from sites[of 0] sites[of 1] run show ?thesis
    by (simp add: text_word_def demo_mem_def demo_region_def hybris_is_tls_mrs_def)
qed

end
