(* ===== verification/Linker_Load.thy ===== *)
theory Linker_Load
  imports Linker_Phdr Tls_Patcher
begin

text \<open>
  Loading of the segments of an ELF file and the two-pass TLS patching of the Q linker:
  \<open>ElfReader::LoadSegments\<close> and \<open>ElfReader::Load\<close> of \<open>hybris/common/q/linker_phdr.cpp\<close>, with the
  journal of \<open>q/linker_integrity.h\<close>.  The host's maps and protections are parameters; the calls that
  set a protection are logged in order.
\<close>

section \<open>Definitions\<close>

record exec_segment =
  seg_addr :: u64
  seg_size :: u64
  orig_prot :: u32

record HybrisTlsPatch =
  patch_address :: u64
  patch_original :: u32
  patch_replacement :: u32

datatype load_error =
    InvalidFileSize | PastEndOfFile | WritableExecutable | SegmentMapFailed | ZeroMapFailed
  | ThunkSpace | ThunkMapFailed | RestoreProtFailed | ThunkProtFailed
  | PatchAbort tls_fatal

text \<open>
  \<open>os_mmap_file\<close> maps a range of the file at a fixed address, \<open>os_mmap_anon\<close> zeroed pages; both
  give the new memory or fail.  The three flags say which patcher functions are set.
\<close>

record load_os =
  os_mmap_file :: "u64 \<Rightarrow> u64 \<Rightarrow> u32 \<Rightarrow> int \<Rightarrow> code_mem \<Rightarrow> code_mem option"
  os_mmap_anon :: "u64 \<Rightarrow> u64 \<Rightarrow> u32 \<Rightarrow> code_mem \<Rightarrow> code_mem option"
  os_mprotect :: "prot_call \<Rightarrow> bool"
  os_sdk :: int
  os_patch_tls :: bool
  os_count_tls :: bool
  os_register :: bool
  os_helper :: u64
  os_tp :: u64
  os_tls_area :: u64

record load_state =
  ls_mem :: code_mem
  ls_region :: thunk_region
  ls_prots :: "prot_call list"
  ls_patches :: "HybrisTlsPatch list"

definition hybris_count_tls :: "code_mem \<Rightarrow> u64 \<Rightarrow> u64 \<Rightarrow> u64" where
  "hybris_count_tls m segment_addr segment_size = of_nat (hybris_count_tls_arch m segment_addr segment_size)"

text \<open>\<open>memset(a, 0, n)\<close> on memory that is kept by 32-bit little-endian cells.\<close>

definition zero_bytes :: "u64 \<Rightarrow> u64 \<Rightarrow> code_mem \<Rightarrow> code_mem" where
  "zero_bytes a n m =
     (\<lambda>w. let keep = (\<lambda>k. if w + of_nat k - a < n then 0 else push_bit (8 * k) 0xff)
          in m w AND (keep 0 OR keep 1 OR keep 2 OR keep 3))"

text \<open>One loadable segment; the first component of the result is the segment to patch, if any.\<close>

definition load_segment ::
    "load_os \<Rightarrow> elf_reader \<Rightarrow> elf_phdr \<Rightarrow> load_state \<Rightarrow> load_error + exec_segment list \<times> load_state" where
  "load_segment os r ph s =
     (let seg_start = p_vaddr ph + load_bias r;
          seg_end = seg_start + p_memsz ph;
          seg_page_start = PAGE_START seg_start;
          seg_page_end = PAGE_END seg_end;
          seg_file_end = seg_start + p_filesz ph;
          file_start = p_offset ph;
          file_end = file_start + p_filesz ph;
          file_page_start = PAGE_START file_start;
          file_length = file_end - file_page_start
      in
      if file_size r \<le> 0 then Inl InvalidFileSize
      else if uint file_end > file_size r then Inl PastEndOfFile
      else
        let prot0 = PFLAGS_TO_PROT (p_flags ph);
            prot1 = (if prot0 AND PROT_EXEC \<noteq> 0
                     then (if os_patch_tls os then prot0 OR PROT_READ OR PROT_WRITE else prot0 OR PROT_READ)
                     else prot0);
            mapped =
              (if file_length \<noteq> 0 then
                 (if prot0 AND (PROT_EXEC OR PROT_WRITE) = PROT_EXEC OR PROT_WRITE \<and> os_sdk os \<ge> 26
                  then Inl WritableExecutable
                  else case os_mmap_file os seg_page_start file_length prot1
                              (file_offset r + uint file_page_start) (ls_mem s) of
                    None \<Rightarrow> Inl SegmentMapFailed
                  | Some m \<Rightarrow>
                      Inr (if os_patch_tls os \<and> prot1 AND PROT_EXEC \<noteq> 0
                           then [\<lparr>seg_addr = seg_page_start, seg_size = file_length, orig_prot = prot0\<rparr>] else [],
                           s\<lparr>ls_mem := m, ls_prots := ls_prots s @ [(seg_page_start, file_length, prot1)]\<rparr>))
               else Inr ([], s))
        in case mapped of
             Inl e \<Rightarrow> Inl e
           | Inr (segs, s1) \<Rightarrow>
               (let s2 = (if p_flags ph AND PF_W \<noteq> 0 \<and> PAGE_OFFSET seg_file_end > 0
                          then s1\<lparr>ls_mem := zero_bytes seg_file_end (PAGE_SIZE - PAGE_OFFSET seg_file_end) (ls_mem s1)\<rparr>
                          else s1);
                    seg_file_end' = PAGE_END seg_file_end
                in if seg_page_end > seg_file_end' then
                     (case os_mmap_anon os seg_file_end' (seg_page_end - seg_file_end')
                             (PFLAGS_TO_PROT (p_flags ph)) (ls_mem s2) of
                        None \<Rightarrow> Inl ZeroMapFailed
                      | Some m \<Rightarrow>
                          Inr (segs, s2\<lparr>ls_mem := m, ls_prots := ls_prots s2 @
                             [(seg_file_end', seg_page_end - seg_file_end', PFLAGS_TO_PROT (p_flags ph))]\<rparr>))
                   else Inr (segs, s2)))"

fun load_all_segments ::
    "load_os \<Rightarrow> elf_reader \<Rightarrow> elf_phdr list \<Rightarrow> load_state \<Rightarrow> load_error + exec_segment list \<times> load_state" where
  "load_all_segments os r [] s = Inr ([], s)"
| "load_all_segments os r (ph # phs) s =
     (if p_type ph \<noteq> PT_LOAD then load_all_segments os r phs s
      else try_then (load_segment os r ph s) (\<lambda>(segs, s1).
           try_then (load_all_segments os r phs s1) (\<lambda>(more, s2). Inr (segs @ more, s2))))"

text \<open>Pass 1.\<close>

definition total_mrs_count :: "code_mem \<Rightarrow> exec_segment list \<Rightarrow> u64" where
  "total_mrs_count m segs =
     fold (\<lambda>seg acc. acc + hybris_count_tls m (seg_addr seg) (seg_size seg)) segs 0"

text \<open>The journal of a segment before patching: the replacement is filled in afterwards.\<close>

definition journal_before :: "code_mem \<Rightarrow> exec_segment \<Rightarrow> HybrisTlsPatch list" where
  "journal_before m seg =
     map (\<lambda>i. \<lparr>patch_address = text_word (seg_addr seg) i, patch_original = m (text_word (seg_addr seg) i),
               patch_replacement = 0\<rparr>)
       (filter (\<lambda>i. hybris_is_tls_mrs (m (text_word (seg_addr seg) i))) [0..<unat (seg_size seg div 4)])"

definition fill_replacements :: "code_mem \<Rightarrow> HybrisTlsPatch list \<Rightarrow> HybrisTlsPatch list" where
  "fill_replacements m ps = map (\<lambda>p. p\<lparr>patch_replacement := m (patch_address p)\<rparr>) ps"

text \<open>Pass 2.\<close>

fun patch_segments :: "load_os \<Rightarrow> exec_segment list \<Rightarrow> load_state \<Rightarrow> load_error + load_state" where
  "patch_segments os [] s = Inr s"
| "patch_segments os (seg # segs) s =
     (case hybris_patch_tls (os_helper os) (os_tp os) (os_tls_area os) (seg_addr seg) (seg_size seg)
             (ls_mem s) (ls_region s) of
        Inl e \<Rightarrow> Inl (PatchAbort e)
      | Inr (m, rg, _) \<Rightarrow>
          (let s1 = s\<lparr>ls_mem := m, ls_region := rg,
                      ls_patches := ls_patches s @ fill_replacements m (journal_before (ls_mem s) seg)\<rparr>
           in if orig_prot seg AND PROT_WRITE = 0 then
                (let c = (seg_addr seg, seg_size seg, orig_prot seg OR PROT_READ) in
                 if \<not> os_mprotect os c then Inl RestoreProtFailed
                 else patch_segments os segs (s1\<lparr>ls_prots := ls_prots s1 @ [c]\<rparr>))
              else patch_segments os segs s1))"

text \<open>The placement of the thunk region: address and page-aligned size.\<close>

definition thunk_placement :: "elf_reader \<Rightarrow> u64 \<Rightarrow> u64 \<times> u64" where
  "thunk_placement r total_count =
     (load_start r + fst (phdr_table_get_load_size (phdr_table r)),
      (total_count * HYBRIS_TLS_THUNK_SIZE + 4095) AND NOT 4095)"

definition map_thunk_region :: "load_os \<Rightarrow> elf_reader \<Rightarrow> u64 \<Rightarrow> load_state \<Rightarrow> load_error + load_state" where
  "map_thunk_region os r total_count s =
     (let (thunk_addr, thunk_size) = thunk_placement r total_count;
          load_end = load_start r + load_size r;
          prot = PROT_READ OR PROT_WRITE OR PROT_EXEC
      in if thunk_addr + thunk_size > load_end then Inl ThunkSpace
         else case os_mmap_anon os thunk_addr thunk_size prot (ls_mem s) of
           None \<Rightarrow> Inl ThunkMapFailed
         | Some m \<Rightarrow>
             Inr (s\<lparr>ls_mem := m, ls_prots := ls_prots s @ [(thunk_addr, thunk_size, prot)],
                    ls_region := (if os_register os then hybris_register_thunk_region thunk_addr thunk_size (ls_region s)
                                  else ls_region s)\<rparr>))"

definition tls_pass :: "load_os \<Rightarrow> elf_reader \<Rightarrow> exec_segment list \<Rightarrow> load_state \<Rightarrow> load_error + load_state" where
  "tls_pass os r segs s =
     (if os_count_tls os \<and> os_patch_tls os \<and> segs \<noteq> [] then
        let total_count = total_mrs_count (ls_mem s) segs in
        try_then (if total_count > 0 then map_thunk_region os r total_count s else Inr s) (\<lambda>s1.
        try_then (patch_segments os segs s1) (\<lambda>s2.
          if total_count > 0 then
            (let (thunk_addr, thunk_size) = thunk_placement r total_count;
                 c = (thunk_addr, thunk_size, PROT_READ OR PROT_EXEC)
             in if \<not> os_mprotect os c then Inl ThunkProtFailed
                else Inr (s2\<lparr>ls_prots := ls_prots s2 @ [c]\<rparr>))
          else Inr s2))
      else Inr s)"

definition LoadSegments :: "load_os \<Rightarrow> elf_reader \<Rightarrow> load_state \<Rightarrow> load_error + load_state" where
  "LoadSegments os r s =
     try_then (load_all_segments os r (phdr_table r) s) (\<lambda>(segs, s1). tls_pass os r segs s1)"

datatype load_failure = NotRead | Reserve elf_error | Segments load_error | Phdr elf_error

text \<open>\<open>ElfReader::Load\<close>; \<open>NotRead\<close> is the failed \<open>CHECK(did_read_)\<close>.\<close>

definition Load ::
    "(u64 \<Rightarrow> u64 option) \<Rightarrow> bool \<Rightarrow> u64 \<Rightarrow> load_os \<Rightarrow> (code_mem \<Rightarrow> u64 \<Rightarrow> u64) \<Rightarrow> elf_reader \<Rightarrow>
     address_space_params \<Rightarrow> load_state \<Rightarrow> load_failure + elf_reader \<times> address_space_params \<times> load_state" where
  "Load mmap_anon first_stage rnd os e_phoff_at r asp s =
     (if \<not> did_read r then Inl NotRead
      else if did_load r then Inr (r, asp, s)
      else case ReserveAddressSpace mmap_anon first_stage rnd (os_patch_tls os) r asp of
        Inl e \<Rightarrow> Inl (Reserve e)
      | Inr (r1, asp1) \<Rightarrow>
          (case LoadSegments os r1 s of
             Inl e \<Rightarrow> Inl (Segments e)
           | Inr s1 \<Rightarrow>
               (case FindPhdr (e_phoff_at (ls_mem s1)) r1 of
                  Inl e \<Rightarrow> Inl (Phdr e)
                | Inr r2 \<Rightarrow> Inr (r2\<lparr>did_load := True\<rparr>, asp1, s1))))"

section \<open>Patching of one segment\<close>

abbreviation seg_words :: "exec_segment \<Rightarrow> nat list" where
  "seg_words seg \<equiv> [0..<unat (seg_size seg div 4)]"

definition seg_range :: "exec_segment \<Rightarrow> nat set" where
  "seg_range seg = {unat (seg_addr seg)..<unat (seg_addr seg) + unat (seg_size seg)}"

definition used_between :: "thunk_region \<Rightarrow> thunk_region \<Rightarrow> nat set" where
  "used_between r r' = {unat (tr_start r) + unat (tr_used r)..<unat (tr_start r) + unat (tr_used r')}"

text \<open>
  The geometry the loader sets up: segments and thunk region lie word-aligned in a window of 128
  MiB and do not overlap.
\<close>

definition seg_ok :: "nat \<Rightarrow> thunk_region \<Rightarrow> exec_segment \<Rightarrow> bool" where
  "seg_ok lo r seg \<longleftrightarrow> segment_clear r (seg_addr seg) (seg_size seg) \<and> 4 dvd unat (seg_addr seg) \<and>
     lo \<le> unat (seg_addr seg) \<and> unat (seg_addr seg) + unat (seg_size seg) < lo + 2 ^ 27"

definition region_near :: "nat \<Rightarrow> thunk_region \<Rightarrow> bool" where
  "region_near lo r \<longleftrightarrow> lo + 2 ^ 27 \<le> 2 ^ 64 \<and> 4 dvd unat (tr_start r) \<and> 4 dvd unat (tr_used r) \<and>
     lo \<le> unat (tr_start r) \<and> unat (tr_start r) + unat (tr_size r) \<le> lo + 2 ^ 27"

fun segs_disjoint :: "exec_segment list \<Rightarrow> bool" where
  "segs_disjoint [] = True"
| "segs_disjoint (seg # segs) =
     ((\<forall>t \<in> set segs. seg_range seg \<inter> seg_range t = {}) \<and> segs_disjoint segs)"

lemma seg_ok_arena: "seg_ok lo r seg \<Longrightarrow> region_near lo r \<Longrightarrow> arena_near lo r (seg_addr seg) (seg_words seg)"
  by (auto simp: seg_ok_def region_near_def arena_near_def unat_div)

lemma seg_word_range:
  assumes "seg_ok lo r seg" "i < unat (seg_size seg div 4)"
  shows "unat (text_word (seg_addr seg) i) = unat (seg_addr seg) + 4 * i"
    and "unat (text_word (seg_addr seg) i) \<in> seg_range seg"
proof -
  have le: "4 * i + 4 \<le> unat (seg_size seg)" using assms(2) by (simp add: unat_div)
  show "unat (text_word (seg_addr seg) i) = unat (seg_addr seg) + 4 * i"
    using le assms(1) by (intro unat_text_word) (simp add: seg_ok_def segment_clear_def)
  then show "unat (text_word (seg_addr seg) i) \<in> seg_range seg" using le by (simp add: seg_range_def)
qed

text \<open>What patching does to memory \<open>m\<close> as far as one segment is concerned.\<close>

definition seg_patched :: "u64 \<Rightarrow> u32 \<Rightarrow> nat set \<Rightarrow> code_mem \<Rightarrow> code_mem \<Rightarrow> exec_segment \<Rightarrow> bool" where
  "seg_patched helper off U m m' seg \<longleftrightarrow>
     (\<forall>i < unat (seg_size seg div 4). let loc = text_word (seg_addr seg) i in
        if hybris_is_tls_mrs (m loc)
        then \<exists>thunk. {unat thunk..<unat thunk + 96} \<subseteq> U \<and> patched_site helper off (m loc AND 31) loc thunk m'
        else m' loc = m loc)"

text \<open>
  The thunk of the \<open>i\<close>-th word lies in the newly used part of the region.
\<close>

lemma thunk_in_region:
  assumes "region_ok r'" "tr_start r' = tr_start r" "tr_size r' = tr_size r"
    and used: "unat (tr_used r') = unat (tr_used r) + 96 * n" and k: "96 * k + 96 \<le> 96 * n"
  shows "unat (tr_start r + tr_used r + of_nat (96 * k)) = unat (tr_start r) + unat (tr_used r) + 96 * k"
    and "{unat (tr_start r + tr_used r + of_nat (96 * k))..<unat (tr_start r + tr_used r + of_nat (96 * k)) + 96}
           \<subseteq> used_between r r'"
proof -
  have b: "unat (tr_start r) + unat (tr_used r') \<le> unat (tr_start r) + unat (tr_size r)"
    "unat (tr_start r) + unat (tr_size r) \<le> 2 ^ 64"
    using assms(1-3) by (simp_all add: region_ok_def)
  have u: "unat (tr_start r + tr_used r) = unat (tr_start r) + unat (tr_used r)"
    using b used k by (intro unat_add64) linarith
  show e: "unat (tr_start r + tr_used r + of_nat (96 * k)) = unat (tr_start r) + unat (tr_used r) + 96 * k"
    using b used k u by (subst unat_add_of_nat64) linarith+
  show "{unat (tr_start r + tr_used r + of_nat (96 * k))..<unat (tr_start r + tr_used r + of_nat (96 * k)) + 96}
           \<subseteq> used_between r r'"
    unfolding e used_between_def using b used k by auto
qed

lemma count_take_less:
  "i < length ixs \<Longrightarrow> hybris_is_tls_mrs (m (text_word seg (ixs ! i))) \<Longrightarrow>
   count_tls_words m seg (take i ixs) < count_tls_words m seg ixs"
proof (induction ixs arbitrary: i)
  case (Cons j ixs)
  then show ?case by (cases i) auto
qed simp

lemma patch_one_segment:
  assumes ok: "region_ok r" "seg_ok lo r seg" "region_near lo r"
    and off: "0 \<le> sint off" "sint off * 8 \<le> 0xFFFFFF"
    and room: "unat (tr_used r) + 96 * hybris_count_tls_arch m (seg_addr seg) (seg_size seg) \<le> unat (tr_size r)"
  obtains m' r' fl where
    "hybris_patch_tls_arch helper off (seg_addr seg) (seg_size seg) m r = Inr (m', r', fl)"
    "patched_words helper off (seg_addr seg) (seg_words seg) m r m' r'"
proof -
  have clear: "sites_clear r (seg_addr seg) (seg_words seg)"
    using ok(2) by (intro segment_clear_sites) (simp add: seg_ok_def)
  obtain m' r' n where run: "patch_tls_words helper off (seg_addr seg) (seg_words seg) m r 0 = Inr (m', r', n)"
    using patch_tls_words_succeeds[OF ok(1) clear seg_ok_arena[OF ok(2,3)] off, of m helper 0] room
    by (auto simp: hybris_count_tls_arch_def)
  from patch_tls_words_patched[OF run ok(1) clear] run that show thesis
    by (simp add: hybris_patch_tls_arch_def)
qed

lemma patched_words_seg:
  assumes "patched_words helper off (seg_addr seg) (seg_words seg) m r m' r'"
  shows "seg_patched helper off (used_between r r') m m' seg"
  unfolding seg_patched_def
proof (intro allI impI)
  fix i assume i: "i < unat (seg_size seg div 4)"
  let ?loc = "text_word (seg_addr seg) i"
  let ?k = "count_tls_words m (seg_addr seg) (take i (seg_words seg))"
  let ?n = "count_tls_words m (seg_addr seg) (seg_words seg)"
  note site = patched_words_site[OF assms, of i]
  have P: "region_ok r'" "tr_start r' = tr_start r" "tr_size r' = tr_size r"
    "unat (tr_used r') = unat (tr_used r) + 96 * ?n"
    using assms unfolding patched_words_def by blast+
  have "96 * ?k + 96 \<le> 96 * ?n" if "hybris_is_tls_mrs (m ?loc)"
    using count_take_less[of i "seg_words seg" m "seg_addr seg"] i that by simp
  note thunk = thunk_in_region(2)[OF P this]
  show "let loc = ?loc in if hybris_is_tls_mrs (m loc)
        then \<exists>thunk. {unat thunk..<unat thunk + 96} \<subseteq> used_between r r' \<and> patched_site helper off (m loc AND 31) loc thunk m'
        else m' loc = m loc"
    using site i thunk by (auto simp: Let_def split: if_splits)
qed

section \<open>Patching of all segments\<close>

definition journal :: "code_mem \<Rightarrow> code_mem \<Rightarrow> exec_segment \<Rightarrow> HybrisTlsPatch list" where
  "journal m m' seg = fill_replacements m' (journal_before m seg)"

text \<open>Two memories agree on the words of a segment.\<close>

definition agree_on :: "code_mem \<Rightarrow> code_mem \<Rightarrow> exec_segment \<Rightarrow> bool" where
  "agree_on m m' seg \<longleftrightarrow> (\<forall>i < unat (seg_size seg div 4). m' (text_word (seg_addr seg) i) = m (text_word (seg_addr seg) i))"

lemma journal_cong_left: "agree_on m m1 seg \<Longrightarrow> journal m1 m' seg = journal m m' seg"
  unfolding journal_def journal_before_def agree_on_def
  by (intro arg_cong[where f = "fill_replacements m'"] map_cong filter_cong) auto

lemma journal_cong_right: "agree_on m1 m' seg \<Longrightarrow> journal m m' seg = journal m m1 seg"
  by (auto simp: journal_def journal_before_def agree_on_def fill_replacements_def)

lemma count_cong: "agree_on m m1 seg \<Longrightarrow>
  hybris_count_tls_arch m1 (seg_addr seg) (seg_size seg) = hybris_count_tls_arch m (seg_addr seg) (seg_size seg)"
  unfolding hybris_count_tls_arch_def agree_on_def by (rule count_tls_words_cong) simp

lemma seg_patched_mono:
  assumes "seg_patched helper off U m m1 seg" "agree_on m1 m' seg" "U \<subseteq> V" "\<And>a. unat a \<in> U \<Longrightarrow> m' a = m1 a"
    "\<forall>x \<in> U. x < 2 ^ 64"
  shows "seg_patched helper off V m m' seg"
  unfolding seg_patched_def Let_def
proof (intro allI impI)
  fix i assume i: "i < unat (seg_size seg div 4)"
  let ?loc = "text_word (seg_addr seg) i"
  have same: "m' ?loc = m1 ?loc" using assms(2) i by (simp add: agree_on_def)
  show "if hybris_is_tls_mrs (m ?loc)
    then \<exists>thunk. {unat thunk..<unat thunk + 96} \<subseteq> V \<and> patched_site helper off (m ?loc AND 31) ?loc thunk m'
    else m' ?loc = m ?loc"
  proof (cases "hybris_is_tls_mrs (m ?loc)")
    case True
    with assms(1) i obtain thunk where th: "{unat thunk..<unat thunk + 96} \<subseteq> U"
      "patched_site helper off (m ?loc AND 31) ?loc thunk m1"
      unfolding seg_patched_def Let_def by metis
    have "unat thunk + 95 \<in> U" using th(1) by (intro subsetD[OF th(1)]) simp
    then have "unat thunk + 96 \<le> 2 ^ 64" using assms(5) by fastforce
    then have "patched_site helper off (m ?loc AND 31) ?loc thunk m'"
      using th assms(4) same by (intro patched_site_mono[OF th(2)]) auto
    with True th(1) assms(3) show ?thesis by auto
  next
    case False
    with assms(1) i same show ?thesis unfolding seg_patched_def Let_def by metis
  qed
qed

lemma seg_patched_cong: "agree_on m m1 seg \<Longrightarrow> seg_patched helper off U m1 m' seg \<Longrightarrow> seg_patched helper off U m m' seg"
  unfolding seg_patched_def agree_on_def Let_def by (metis (no_types, lifting))

text \<open>The result of patching a list of segments.\<close>

definition segs_patched ::
    "u64 \<Rightarrow> u32 \<Rightarrow> exec_segment list \<Rightarrow> code_mem \<Rightarrow> thunk_region \<Rightarrow> code_mem \<Rightarrow> thunk_region \<Rightarrow> bool" where
  "segs_patched helper off segs m r m' r' \<longleftrightarrow>
     region_ok r' \<and> tr_start r' = tr_start r \<and> tr_size r' = tr_size r \<and>
     unat (tr_used r') = unat (tr_used r) + 96 * (\<Sum>seg\<leftarrow>segs. hybris_count_tls_arch m (seg_addr seg) (seg_size seg)) \<and>
     (\<forall>a. (\<forall>seg \<in> set segs. unat a \<notin> seg_range seg) \<and> unat a \<notin> used_between r r' \<longrightarrow> m' a = m a) \<and>
     (\<forall>seg \<in> set segs. seg_patched helper off (used_between r r') m m' seg)"

lemma seg_ok_region:
  "tr_start r' = tr_start r \<Longrightarrow> tr_size r' = tr_size r \<Longrightarrow> seg_ok lo r' seg = seg_ok lo r seg"
  by (simp add: seg_ok_def segment_clear_def)

lemma seg_outside_region:
  assumes "seg_ok lo r seg" "region_ok r'" "tr_start r' = tr_start r" "tr_size r' = tr_size r"
  shows "seg_range seg \<inter> used_between r r' = {}"
  using assms by (auto simp: seg_ok_def segment_clear_def seg_range_def used_between_def region_ok_def)

lemma patched_words_agree:
  assumes P: "patched_words helper off (seg_addr seg) (seg_words seg) m r m1 r1"
    and ok: "seg_ok lo r seg" "seg_ok lo r t" and dis: "seg_range seg \<inter> seg_range t = {}"
  shows "agree_on m m1 t"
  unfolding agree_on_def
proof (intro allI impI)
  fix i assume i: "i < unat (seg_size t div 4)"
  let ?a = "text_word (seg_addr t) i"
  have r1: "region_ok r1" "tr_start r1 = tr_start r" "tr_size r1 = tr_size r"
    using P unfolding patched_words_def by blast+
  have at: "unat ?a \<in> seg_range t" by (rule seg_word_range(2)[OF ok(2) i])
  show "m1 ?a = m ?a"
  proof (rule patched_words_frame[OF P])
    fix j assume "j \<in> set (seg_words seg)"
    then have "unat (text_word (seg_addr seg) j) \<in> seg_range seg" by (intro seg_word_range(2)[OF ok(1)]) simp
    then show "text_word (seg_addr seg) j \<noteq> ?a" using at dis by auto
  next
    show "unat ?a < unat (tr_start r) + unat (tr_used r) \<or> unat (tr_start r) + unat (tr_used r1) \<le> unat ?a"
      using at seg_outside_region[OF ok(2) r1] by (auto simp: used_between_def)
  qed
qed

lemma segs_patched_agree:
  assumes S: "segs_patched helper off segs m1 r1 m' r'" and ok: "seg_ok lo r1 seg"
    and dis: "\<forall>t \<in> set segs. seg_range seg \<inter> seg_range t = {}"
  shows "agree_on m1 m' seg"
  unfolding agree_on_def
proof (intro allI impI)
  fix i assume i: "i < unat (seg_size seg div 4)"
  let ?a = "text_word (seg_addr seg) i"
  have at: "unat ?a \<in> seg_range seg" by (rule seg_word_range(2)[OF ok i])
  have r': "region_ok r'" "tr_start r' = tr_start r1" "tr_size r' = tr_size r1"
    using S unfolding segs_patched_def by blast+
  have "unat ?a \<notin> used_between r1 r'" using at seg_outside_region[OF ok r'] by auto
  moreover have "\<forall>t \<in> set segs. unat ?a \<notin> seg_range t" using at dis by auto
  ultimately show "m' ?a = m1 ?a" using S unfolding segs_patched_def by blast
qed

lemma segs_patched_Cons:
  assumes P: "patched_words helper off (seg_addr seg) (seg_words seg) m r m1 r1"
    and S: "segs_patched helper off segs m1 r1 m' r'"
    and ok: "seg_ok lo r seg" "\<forall>t \<in> set segs. seg_ok lo r t" and dis: "segs_disjoint (seg # segs)"
  shows "segs_patched helper off (seg # segs) m r m' r'"
proof -
  let ?cnt = "\<lambda>m t. hybris_count_tls_arch m (seg_addr t) (seg_size t)"
  have r1: "region_ok r1" "tr_start r1 = tr_start r" "tr_size r1 = tr_size r"
    and u1: "unat (tr_used r1) = unat (tr_used r) + 96 * ?cnt m seg"
    using P unfolding patched_words_def hybris_count_tls_arch_def by blast+
  have r': "region_ok r'" "tr_start r' = tr_start r1" "tr_size r' = tr_size r1"
    and u': "unat (tr_used r') = unat (tr_used r1) + 96 * (\<Sum>t\<leftarrow>segs. ?cnt m1 t)"
    using S unfolding segs_patched_def by blast+
  have later: "agree_on m m1 t" if "t \<in> set segs" for t
    using that ok dis by (intro patched_words_agree[OF P ok(1)]) auto
  have now: "agree_on m1 m' seg"
    using dis ok(1) by (intro segs_patched_agree[OF S]) (auto simp: seg_ok_region[OF r1(2,3)])
  have sum: "(\<Sum>t\<leftarrow>segs. ?cnt m1 t) = (\<Sum>t\<leftarrow>segs. ?cnt m t)"
    using count_cong[OF later] by (intro arg_cong[where f = sum_list] map_cong) auto
  have parts: "used_between r r1 \<subseteq> used_between r r'" "used_between r1 r' \<subseteq> used_between r r'"
    using r1 r' u1 u' by (auto simp: used_between_def)
  have lim: "\<forall>x \<in> used_between r r1. x < 2 ^ 64"
    using r1 by (auto simp: used_between_def region_ok_def)
  have keep: "m' a = m1 a" if "unat a \<in> used_between r r1" for a
  proof -
    have "unat a \<notin> used_between r1 r'" using that r1 by (auto simp: used_between_def)
    moreover have "unat a \<notin> seg_range t" if "t \<in> set segs" for t
      using seg_outside_region[of lo r t r1] ok(2) r1 that \<open>unat a \<in> used_between r r1\<close> by auto
    ultimately show ?thesis using S unfolding segs_patched_def by blast
  qed
  have frame: "m' a = m a" if "\<forall>t \<in> set (seg # segs). unat a \<notin> seg_range t" "unat a \<notin> used_between r r'" for a
  proof -
    have "m' a = m1 a" using S that parts unfolding segs_patched_def by auto
    also have "m1 a = m a"
    proof (rule patched_words_frame[OF P])
      fix j assume "j \<in> set (seg_words seg)"
      then have "unat (text_word (seg_addr seg) j) \<in> seg_range seg" by (intro seg_word_range(2)[OF ok(1)]) simp
      then show "text_word (seg_addr seg) j \<noteq> a" using that(1) by auto
    next
      show "unat a < unat (tr_start r) + unat (tr_used r) \<or> unat (tr_start r) + unat (tr_used r1) \<le> unat a"
        using that(2) parts(1) by (force simp: used_between_def)
    qed
    finally show ?thesis .
  qed
  have "seg_patched helper off (used_between r r') m m' seg"
    by (rule seg_patched_mono[OF patched_words_seg[OF P] now parts(1) keep lim])
  moreover have "seg_patched helper off (used_between r r') m m' t" if "t \<in> set segs" for t
  proof -
    have "seg_patched helper off (used_between r1 r') m1 m' t" using S that unfolding segs_patched_def by blast
    then have "seg_patched helper off (used_between r1 r') m m' t" by (rule seg_patched_cong[OF later[OF that]])
    with parts(2) show ?thesis unfolding seg_patched_def Let_def by (meson order_trans)
  qed
  ultimately show ?thesis
    unfolding segs_patched_def using r1 r' u1 u' sum frame by auto
qed

lemma region_near_step:
  assumes "region_near lo r" "tr_start r1 = tr_start r" "tr_size r1 = tr_size r"
    "unat (tr_used r1) = unat (tr_used r) + 96 * n"
  shows "region_near lo r1"
proof -
  have "96 * n = 4 * (24 * n)" by simp
  then have "4 dvd 96 * n" by (metis dvd_triv_left)
  then show ?thesis using assms by (simp add: region_near_def)
qed

definition tls_offset_ok :: "load_os \<Rightarrow> bool" where
  "tls_offset_ok os \<longleftrightarrow>
     (let off = sint (hybris_calculate_tls_offset (os_tp os) (os_tls_area os)) in 0 \<le> off \<and> off * 8 \<le> 0xFFFFFF)"

abbreviation os_offset :: "load_os \<Rightarrow> u32" where
  "os_offset os \<equiv> hybris_calculate_tls_offset (os_tp os) (os_tls_area os)"

abbreviation seg_count :: "code_mem \<Rightarrow> exec_segment \<Rightarrow> nat" where
  "seg_count m seg \<equiv> hybris_count_tls_arch m (seg_addr seg) (seg_size seg)"

text \<open>The protection calls of the second pass.\<close>

definition restore_calls :: "exec_segment list \<Rightarrow> prot_call list" where
  "restore_calls segs =
     map (\<lambda>seg. (seg_addr seg, seg_size seg, orig_prot seg OR PROT_READ))
       (filter (\<lambda>seg. orig_prot seg AND PROT_WRITE = 0) segs)"

lemma patch_segments_correct:
  assumes "region_ok (ls_region s)" "region_near lo (ls_region s)" "tls_offset_ok os" "\<And>c. os_mprotect os c"
    and "\<forall>seg \<in> set segs. seg_ok lo (ls_region s) seg" "segs_disjoint segs"
    and "unat (tr_used (ls_region s)) + 96 * (\<Sum>seg\<leftarrow>segs. seg_count (ls_mem s) seg) \<le> unat (tr_size (ls_region s))"
  shows "\<exists>s'. patch_segments os segs s = Inr s' \<and>
    segs_patched (os_helper os) (os_offset os) segs (ls_mem s) (ls_region s) (ls_mem s') (ls_region s') \<and>
    ls_patches s' = ls_patches s @ concat (map (journal (ls_mem s) (ls_mem s')) segs) \<and>
    ls_prots s' = ls_prots s @ restore_calls segs"
  using assms(1,2,5-7)
proof (induction segs arbitrary: s)
  case Nil
  then show ?case by (simp add: segs_patched_def used_between_def restore_calls_def)
next
  case (Cons seg segs)
  let ?m = "ls_mem s" and ?r = "ls_region s"
  have ok: "seg_ok lo ?r seg" "\<forall>t \<in> set segs. seg_ok lo ?r t" using Cons.prems(3) by auto
  have off: "0 \<le> sint (os_offset os)" "sint (os_offset os) * 8 \<le> 0xFFFFFF"
    using assms(3) by (simp_all add: tls_offset_ok_def Let_def)
  obtain m1 r1 fl where run: "hybris_patch_tls_arch (os_helper os) (os_offset os) (seg_addr seg) (seg_size seg) ?m ?r = Inr (m1, r1, fl)"
    and P: "patched_words (os_helper os) (os_offset os) (seg_addr seg) (seg_words seg) ?m ?r m1 r1"
    using patch_one_segment[OF Cons.prems(1) ok(1) Cons.prems(2) off, of ?m "os_helper os"] Cons.prems(5) by auto
  have r1: "region_ok r1" "tr_start r1 = tr_start ?r" "tr_size r1 = tr_size ?r"
    and u1: "unat (tr_used r1) = unat (tr_used ?r) + 96 * seg_count ?m seg"
    using P unfolding patched_words_def hybris_count_tls_arch_def by blast+
  define s1 where "s1 = s\<lparr>ls_mem := m1, ls_region := r1, ls_patches := ls_patches s @ journal ?m m1 seg,
    ls_prots := ls_prots s @ restore_calls [seg]\<rparr>"
  have s1: "ls_mem s1 = m1" "ls_region s1 = r1" "ls_patches s1 = ls_patches s @ journal ?m m1 seg"
    "ls_prots s1 = ls_prots s @ restore_calls [seg]" by (simp_all add: s1_def)
  have step: "patch_segments os (seg # segs) s = patch_segments os segs s1"
    using run assms(4) by (simp add: s1_def hybris_patch_tls_def journal_def restore_calls_def Let_def)
  have later: "agree_on ?m m1 t" if "t \<in> set segs" for t
    using that ok Cons.prems(4) by (intro patched_words_agree[OF P ok(1)]) auto
  have "(\<Sum>t\<leftarrow>segs. seg_count m1 t) = (\<Sum>t\<leftarrow>segs. seg_count ?m t)"
    using count_cong[OF later] by (intro arg_cong[where f = sum_list] map_cong) auto
  then have room: "unat (tr_used r1) + 96 * (\<Sum>t\<leftarrow>segs. seg_count m1 t) \<le> unat (tr_size r1)"
    using Cons.prems(5) u1 r1(3) by simp
  have ok1: "\<forall>t \<in> set segs. seg_ok lo (ls_region s1) t" using ok(2) by (simp add: s1 seg_ok_region[OF r1(2,3)])
  obtain s' where s': "patch_segments os segs s1 = Inr s'"
    "segs_patched (os_helper os) (os_offset os) segs m1 r1 (ls_mem s') (ls_region s')"
    "ls_patches s' = ls_patches s1 @ concat (map (journal m1 (ls_mem s')) segs)"
    "ls_prots s' = ls_prots s1 @ restore_calls segs"
    using Cons.IH[of s1] r1(1) region_near_step[OF Cons.prems(2) r1(2,3) u1] ok1 Cons.prems(4) room
    by (auto simp: s1)
  have now: "agree_on m1 (ls_mem s') seg"
    using Cons.prems(4) ok(1) by (intro segs_patched_agree[OF s'(2)]) (auto simp: seg_ok_region[OF r1(2,3)])
  have "map (journal m1 (ls_mem s')) segs = map (journal ?m (ls_mem s')) segs"
    using journal_cong_left[OF later] by (intro map_cong) auto
  with s'(3) journal_cong_right[OF now, of ?m]
  have "ls_patches s' = ls_patches s @ concat (map (journal ?m (ls_mem s')) (seg # segs))" by (simp add: s1)
  moreover have "ls_prots s' = ls_prots s @ restore_calls (seg # segs)"
    using s'(4) by (simp add: s1 restore_calls_def)
  moreover have "segs_patched (os_helper os) (os_offset os) (seg # segs) ?m ?r (ls_mem s') (ls_region s')"
    by (rule segs_patched_Cons[OF P s'(2) ok Cons.prems(4)])
  ultimately show ?case using step s'(1) by auto
qed

section \<open>The whole pass\<close>

lemma total_mrs_count_sum:
  "total_mrs_count m segs = of_nat (\<Sum>seg\<leftarrow>segs. seg_count m seg)"
proof -
  have "fold (\<lambda>seg acc. acc + hybris_count_tls m (seg_addr seg) (seg_size seg)) segs a =
    a + of_nat (\<Sum>seg\<leftarrow>segs. seg_count m seg)" for a
    by (induction segs arbitrary: a) (simp_all add: hybris_count_tls_def)
  then show ?thesis by (simp add: total_mrs_count_def)
qed

lemma thunk_size_enough:
  assumes "96 * n + 4095 < 2 ^ 64"
  shows "unat ((of_nat n * HYBRIS_TLS_THUNK_SIZE + 4095) AND NOT 4095) = (96 * n + 4095) div 4096 * 4096"
    and "96 * n \<le> (96 * n + 4095) div 4096 * 4096"
proof -
  have "unat (of_nat n * 96 + 4095 :: u64) = 96 * n + 4095"
    using assms unat_of_nat64[of "96 * n + 4095"] by (simp add: mult.commute)
  then show "unat ((of_nat n * HYBRIS_TLS_THUNK_SIZE + 4095) AND NOT 4095) = (96 * n + 4095) div 4096 * 4096"
    using unat_and_not_mask64[of "of_nat n * 96 + 4095" 12]
    by (simp add: HYBRIS_TLS_THUNK_SIZE_def mask_eq_exp_minus_1)
  show "96 * n \<le> (96 * n + 4095) div 4096 * 4096" using round_up_ge[of 4096 "96 * n"] by simp
qed

lemma count_le_words: "count_tls_words m seg ixs \<le> length ixs"
  by (induction ixs) auto

lemma total_count_bound:
  assumes "\<forall>seg \<in> set segs. seg_ok lo r seg" "length segs \<le> 1170"
  shows "96 * (\<Sum>seg\<leftarrow>segs. seg_count m seg) + 4095 < 2 ^ 64"
proof -
  have one: "seg_count m seg \<le> 2 ^ 25" if "seg_ok lo r seg" for seg
  proof -
    have "unat (seg_size seg) < 2 ^ 27" using that by (auto simp: seg_ok_def)
    then have "length (seg_words seg) \<le> 2 ^ 25" by (simp add: unat_div)
    then show ?thesis
      using count_le_words[of m "seg_addr seg" "seg_words seg"] by (simp add: hybris_count_tls_arch_def)
  qed
  have "(\<Sum>seg\<leftarrow>segs. seg_count m seg) \<le> (\<Sum>seg\<leftarrow>segs. 2 ^ 25)"
    using assms(1) one by (intro sum_list_mono) auto
  also have "\<dots> \<le> 1170 * 2 ^ 25" using assms(2) by (simp add: sum_list_triv)
  finally show ?thesis by simp
qed

text \<open>
  The state in which the pass starts: what the loader has established by its own checks, and what
  the host's map with a fixed address promises.
\<close>

definition tls_layout :: "nat \<Rightarrow> load_os \<Rightarrow> elf_reader \<Rightarrow> exec_segment list \<Rightarrow> load_state \<Rightarrow> code_mem \<Rightarrow> bool" where
  "tls_layout lo os r segs s m1 \<longleftrightarrow>
     (let (ta, ts) = thunk_placement r (total_mrs_count (ls_mem s) segs);
          region = \<lparr>tr_start = ta, tr_size = ts, tr_used = 0\<rparr>
      in os_count_tls os \<and> os_patch_tls os \<and> os_register os \<and> tls_offset_ok os \<and>
         length segs \<le> 1170 \<and> segs_disjoint segs \<and> (\<forall>seg \<in> set segs. seg_ok lo region seg) \<and>
         region_ok region \<and> region_near lo region \<and>
         0 < (\<Sum>seg\<leftarrow>segs. seg_count (ls_mem s) seg) \<and>
         \<not> ta + ts > load_start r + load_size r \<and>
         os_mmap_anon os ta ts (PROT_READ OR PROT_WRITE OR PROT_EXEC) (ls_mem s) = Some m1 \<and>
         (\<forall>a. unat a < unat ta \<or> unat ta + unat ts \<le> unat a \<longrightarrow> m1 a = ls_mem s a) \<and>
         (\<forall>c. os_mprotect os c))"

lemma agree_on_outside:
  assumes "seg_ok lo r seg" "\<And>a. unat a < unat (tr_start r) \<or> unat (tr_start r) + unat (tr_size r) \<le> unat a \<Longrightarrow> m1 a = m a"
  shows "agree_on m m1 seg"
  unfolding agree_on_def
proof (intro allI impI)
  fix i assume "i < unat (seg_size seg div 4)"
  from seg_word_range(2)[OF assms(1) this] assms(1)
  show "m1 (text_word (seg_addr seg) i) = m (text_word (seg_addr seg) i)"
    by (intro assms(2)) (auto simp: seg_range_def seg_ok_def segment_clear_def)
qed

text \<open>Writing the recorded originals back.\<close>

definition undo_patches :: "HybrisTlsPatch list \<Rightarrow> code_mem \<Rightarrow> code_mem" where
  "undo_patches ps m = fold (\<lambda>p m. m(patch_address p := patch_original p)) ps m"

lemma undo_patches_at:
  "(\<And>p. p \<in> set ps \<Longrightarrow> patch_original p = m (patch_address p)) \<Longrightarrow>
   undo_patches ps m' a = (if a \<in> patch_address ` set ps then m a else m' a)"
proof (induction ps arbitrary: m')
  case (Cons p ps)
  have "undo_patches ps (m'(patch_address p := patch_original p)) a =
    (if a \<in> patch_address ` set ps then m a else (m'(patch_address p := patch_original p)) a)"
    by (rule Cons.IH) (simp add: Cons.prems)
  then show ?case using Cons.prems[of p] by (auto simp: undo_patches_def)
qed (simp add: undo_patches_def)

lemma journal_original: "p \<in> set (journal m m' seg) \<Longrightarrow> patch_original p = m (patch_address p)"
  by (auto simp: journal_def fill_replacements_def journal_before_def)

lemma journal_addresses:
  "patch_address ` set (journal m m' seg) =
   {text_word (seg_addr seg) i | i. i < unat (seg_size seg div 4) \<and> hybris_is_tls_mrs (m (text_word (seg_addr seg) i))}"
  by (auto simp: journal_def fill_replacements_def journal_before_def image_image)

lemma undo_journal:
  assumes "\<forall>seg \<in> set segs. seg_patched helper off U m m' seg"
  shows "\<forall>seg \<in> set segs. agree_on m (undo_patches (concat (map (journal m m') segs)) m') seg"
  unfolding agree_on_def
proof (intro ballI allI impI)
  fix seg i assume seg: "seg \<in> set segs" and i: "i < unat (seg_size seg div 4)"
  let ?a = "text_word (seg_addr seg) i" and ?ps = "concat (map (journal m m') segs)"
  have orig: "patch_original p = m (patch_address p)" if "p \<in> set ?ps" for p
    using that by (auto intro: journal_original)
  show "undo_patches ?ps m' ?a = m ?a"
  proof (cases "hybris_is_tls_mrs (m ?a)")
    case True
    with i have "?a \<in> patch_address ` set (journal m m' seg)" unfolding journal_addresses by blast
    then have "?a \<in> patch_address ` set ?ps" using seg by auto
    then show ?thesis by (simp only: undo_patches_at[where m = m, OF orig] if_True)
  next
    case False
    then have "m' ?a = m ?a" using assms seg i unfolding seg_patched_def Let_def by metis
    then show ?thesis by (simp only: undo_patches_at[where m = m, OF orig] if_cancel)
  qed
qed

lemma tls_pass_result:
  assumes L: "tls_layout lo os r segs s m1"
    and tp: "thunk_placement r (total_mrs_count (ls_mem s) segs) = (ta, ts)"
  shows "\<exists>s'. tls_pass os r segs s = Inr s' \<and>
    (\<forall>seg \<in> set segs. seg_patched (os_helper os) (os_offset os)
       {unat ta..<unat ta + 96 * (\<Sum>seg\<leftarrow>segs. seg_count (ls_mem s) seg)} (ls_mem s) (ls_mem s') seg) \<and>
    ls_patches s' = ls_patches s @ concat (map (journal (ls_mem s) (ls_mem s')) segs) \<and>
    ls_prots s' = ls_prots s @ [(ta, ts, PROT_READ OR PROT_WRITE OR PROT_EXEC)] @ restore_calls segs @
      [(ta, ts, PROT_READ OR PROT_EXEC)]"
proof -
  let ?m = "ls_mem s" and ?n = "\<Sum>seg\<leftarrow>segs. seg_count (ls_mem s) seg"
  let ?R = "\<lparr>tr_start = ta, tr_size = ts, tr_used = 0\<rparr>"
  let ?rwx = "PROT_READ OR PROT_WRITE OR PROT_EXEC"
  from L have flags: "os_count_tls os" "os_patch_tls os" "os_register os" "tls_offset_ok os"
    and len: "length segs \<le> 1170" and dis: "segs_disjoint segs" and ok: "\<forall>seg \<in> set segs. seg_ok lo ?R seg"
    and R: "region_ok ?R" "region_near lo ?R" and pos: "0 < ?n"
    and fit: "\<not> ta + ts > load_start r + load_size r" and mm: "os_mmap_anon os ta ts ?rwx ?m = Some m1"
    and outside: "\<And>a. unat a < unat ta \<or> unat ta + unat ts \<le> unat a \<Longrightarrow> m1 a = ?m a"
    and mp: "\<And>c. os_mprotect os c"
    unfolding tls_layout_def tp Let_def prod.case by blast+
  have bound: "96 * ?n + 4095 < 2 ^ 64" by (rule total_count_bound[OF ok len])
  have ts: "ts = (of_nat ?n * HYBRIS_TLS_THUNK_SIZE + 4095) AND NOT 4095"
    using tp by (simp add: thunk_placement_def total_mrs_count_sum)
  have agree: "agree_on ?m m1 seg" if "seg \<in> set segs" for seg
    using ok that outside by (intro agree_on_outside[where r = ?R]) auto
  have cnt: "(\<Sum>seg\<leftarrow>segs. seg_count m1 seg) = ?n"
    using count_cong[OF agree] by (intro arg_cong[where f = sum_list] map_cong) auto
  define s1 where "s1 = s\<lparr>ls_mem := m1, ls_region := ?R, ls_prots := ls_prots s @ [(ta, ts, ?rwx)]\<rparr>"
  have reg: "hybris_register_thunk_region ta ts (ls_region s) = ?R"
    by (simp add: hybris_register_thunk_region_def)
  have map: "map_thunk_region os r (total_mrs_count ?m segs) s = Inr s1"
    using fit mm flags(3) by (simp add: map_thunk_region_def tp s1_def reg)
  have room: "unat (tr_used ?R) + 96 * (\<Sum>seg\<leftarrow>segs. seg_count m1 seg) \<le> unat (tr_size ?R)"
    using thunk_size_enough[OF bound] by (simp add: cnt ts)
  obtain s2 where s2: "patch_segments os segs s1 = Inr s2"
    "segs_patched (os_helper os) (os_offset os) segs m1 ?R (ls_mem s2) (ls_region s2)"
    "ls_patches s2 = ls_patches s @ concat (map (journal m1 (ls_mem s2)) segs)"
    "ls_prots s2 = ls_prots s @ [(ta, ts, ?rwx)] @ restore_calls segs"
    using patch_segments_correct[of s1 lo os segs] R flags(4) mp ok dis room by (auto simp: s1_def)
  have "used_between ?R (ls_region s2) = {unat ta..<unat ta + 96 * ?n}"
    using s2(2) by (simp add: segs_patched_def used_between_def cnt)
  then have "\<forall>seg \<in> set segs. seg_patched (os_helper os) (os_offset os) {unat ta..<unat ta + 96 * ?n} ?m (ls_mem s2) seg"
    using s2(2) seg_patched_cong[OF agree] unfolding segs_patched_def by metis
  moreover have "map (journal m1 (ls_mem s2)) segs = map (journal ?m (ls_mem s2)) segs"
    using journal_cong_left[OF agree] by (intro map_cong) auto
  then have "ls_patches s2 = ls_patches s @ concat (map (journal ?m (ls_mem s2)) segs)"
    by (simp only: s2(3))
  moreover have "total_mrs_count ?m segs > 0"
  proof -
    have "unat (of_nat ?n :: u64) = ?n" using bound by (intro unat_of_nat64) simp
    then show ?thesis unfolding total_mrs_count_sum using pos by (simp add: word_less_nat_alt)
  qed
  moreover have "segs \<noteq> []" using pos by auto
  ultimately show ?thesis using flags map s2(1,4) mp
    by (simp add: tls_pass_def try_then_def tp)
qed

section \<open>Properties\<close>

text \<open>
  C8: The two-pass patching of a module never aborts and never runs out of thunks. Pass 1 sizes the
  region, and from a layout in which segments and region lie apart in a window of 128 MiB pass 2
  succeeds: every TLS read of every segment branches to a thunk of its own in the counted bytes of
  the region and back, every other word of the segments is unchanged, the journal records address,
  original and replacement of each patched word in order, and the protection calls are those that
  end with every segment as it was, made readable, and the region not writable.
\<close>

theorem tls_pass_correct:
  assumes "tls_layout lo os r segs s m1"
    and "thunk_placement r (total_mrs_count (ls_mem s) segs) = (ta, ts)"
  shows "\<exists>s'. tls_pass os r segs s = Inr s' \<and>
    (\<forall>seg \<in> set segs. seg_patched (os_helper os) (os_offset os)
       {unat ta..<unat ta + 96 * (\<Sum>seg\<leftarrow>segs. seg_count (ls_mem s) seg)} (ls_mem s) (ls_mem s') seg) \<and>
    ls_patches s' = ls_patches s @ concat (map (journal (ls_mem s) (ls_mem s')) segs) \<and>
    ls_prots s' = ls_prots s @ [(ta, ts, PROT_READ OR PROT_WRITE OR PROT_EXEC)] @ restore_calls segs @
      [(ta, ts, PROT_READ OR PROT_EXEC)]"
  by (rule tls_pass_result[OF assms])

definition demo_load_os :: load_os where
  "demo_load_os = \<lparr>os_mmap_file = (\<lambda>a n p off m. Some m), os_mmap_anon = (\<lambda>a n p m. Some m),
     os_mprotect = (\<lambda>c. True), os_sdk = 29, os_patch_tls = True, os_count_tls = True, os_register = True,
     os_helper = 0x1122334455, os_tp = 0, os_tls_area = 5728\<rparr>"

definition demo_reader :: elf_reader where
  "demo_reader = fresh_reader\<lparr>phdr_table := [\<lparr>p_type = 1, p_flags = 5, p_offset = 0, p_vaddr = 0,
     p_filesz = 8, p_memsz = 0x10000\<rparr>], load_start := 0x10000, load_size := 0x20000, load_bias := 0x10000\<rparr>"

definition demo_segs :: "exec_segment list" where
  "demo_segs = [\<lparr>seg_addr = 0x10000, seg_size = 8, orig_prot = 5\<rparr>]"

definition demo_load_state :: load_state where
  "demo_load_state = \<lparr>ls_mem = demo_mem, ls_region = \<lparr>tr_start = 0, tr_size = 0, tr_used = 0\<rparr>,
     ls_prots = [], ls_patches = []\<rparr>"

lemma demo_placement: "thunk_placement demo_reader (total_mrs_count (ls_mem demo_load_state) demo_segs) = (0x20000, 4096)"
  by (simp add: thunk_placement_def demo_reader_def fresh_reader_def phdr_table_get_load_size_def PT_LOAD_def
      PAGE_START_def PAGE_END_def PAGE_SIZE_def total_mrs_count_def demo_segs_def demo_load_state_def hybris_count_tls_def
      hybris_count_tls_arch_def upt_rec demo_mem_def text_word_def hybris_is_tls_mrs_def HYBRIS_TLS_THUNK_SIZE_def)

lemma demo_layout: "tls_layout 0x10000 demo_load_os demo_reader demo_segs demo_load_state demo_mem"
proof -
  have off: "tls_offset_ok demo_load_os"
    by (simp add: tls_offset_ok_def demo_load_os_def hybris_calculate_tls_offset_def)
  have pos: "0 < (\<Sum>seg\<leftarrow>demo_segs. seg_count (ls_mem demo_load_state) seg)"
    by (simp add: demo_segs_def demo_load_state_def hybris_count_tls_arch_def upt_rec demo_mem_def text_word_def
        hybris_is_tls_mrs_def)
  show ?thesis unfolding tls_layout_def demo_placement Let_def prod.case
    using off pos by (simp add: demo_load_os_def demo_segs_def demo_load_state_def demo_reader_def fresh_reader_def
        seg_ok_def segment_clear_def region_ok_def region_near_def)
qed

theorem tls_pass_correct_witness:
  "\<exists>s'. tls_pass demo_load_os demo_reader demo_segs demo_load_state = Inr s' \<and>
     ls_patches s' = concat (map (journal demo_mem (ls_mem s')) demo_segs)"
  using tls_pass_correct[OF demo_layout demo_placement] by (auto simp: demo_load_state_def)

text \<open>
  C26: The journal is an undo log. After a pass that started with an empty journal, writing the
  recorded originals back to the recorded addresses gives every executable segment its contents
  from before the pass, which is what the integrity check reads as the original image.
\<close>

theorem tls_journal_undoes_patches:
  assumes "tls_layout lo os r segs s m1" and "ls_patches s = []" and "tls_pass os r segs s = Inr s'"
  shows "\<forall>seg \<in> set segs. agree_on (ls_mem s) (undo_patches (ls_patches s') (ls_mem s')) seg"
proof -
  obtain ta ts where "thunk_placement r (total_mrs_count (ls_mem s) segs) = (ta, ts)" by fastforce
  from tls_pass_result[OF assms(1) this] assms(2,3) show ?thesis
    using undo_journal[where segs = segs and m = "ls_mem s" and m' = "ls_mem s'"] by fastforce
qed

theorem tls_journal_undoes_patches_witness:
  "\<exists>s'. tls_pass demo_load_os demo_reader demo_segs demo_load_state = Inr s' \<and>
     (\<forall>seg \<in> set demo_segs. agree_on demo_mem (undo_patches (ls_patches s') (ls_mem s')) seg)"
proof -
  from tls_pass_result[OF demo_layout demo_placement] obtain s' where
    run: "tls_pass demo_load_os demo_reader demo_segs demo_load_state = Inr s'" by blast
  have "ls_patches demo_load_state = []" by (simp add: demo_load_state_def)
  from tls_journal_undoes_patches[OF demo_layout this run] run show ?thesis
    by (auto simp: demo_load_state_def)
qed

definition tight_reader :: elf_reader where
  "tight_reader = fresh_reader\<lparr>did_read := True, file_size := 0x1000, phdr_table := [\<lparr>p_type = 1, p_flags = 5,
     p_offset = 0xff0, p_vaddr = 0xff0, p_filesz = 16, p_memsz = 16\<rparr>]\<rparr>"

definition mrs_os :: load_os where
  "mrs_os = demo_load_os\<lparr>os_mmap_file := (\<lambda>a n p off m. Some (\<lambda>w. 0xd53bd043))\<rparr>"

lemma count_all_mrs: "count_tls_words (\<lambda>w. 0xd53bd043) seg ixs = length ixs"
  by (induction ixs) (simp_all add: hybris_is_tls_mrs_def)


end
