(* ===== verification/Integrity_Sha256.thy ===== *)
theory Integrity_Sha256
  imports Hybris_Prelude
begin

text \<open>
  The SHA-256 implementation of \<open>hybris/common/q/integrity_sha256.c\<close>, which the linker uses to
  check and re-sign a module after TLS patching.  The first part translates the C code: the byte
  helpers, the eight-fold unrolled compression function and the buffered streaming interface.  The
  second part is the hash of FIPS 180-4 on whole messages, and shows that any sequence of updates
  computes it.
\<close>

section \<open>Definitions\<close>

record hybris_sha256_context =
  sha_buf :: "u8 list"
  sha_count :: u64
  sha_val :: "u32 list"

primrec br_range_dec32be :: "nat \<Rightarrow> u8 list \<Rightarrow> u32 list" where
  "br_range_dec32be 0 p = []"
| "br_range_dec32be (Suc n) p =
     (push_bit 24 (ucast (p ! 0)) OR push_bit 16 (ucast (p ! 1)) OR push_bit 8 (ucast (p ! 2)) OR
        ucast (p ! 3)) # br_range_dec32be n (drop 4 p)"

definition br_range_enc32be :: "u32 list \<Rightarrow> u8 list" where
  "br_range_enc32be xs = concat (map (\<lambda>w. map (\<lambda>j. ucast (drop_bit (24 - 8 * j) w)) [0..<4]) xs)"

definition br_enc64be :: "u64 \<Rightarrow> u8 list" where
  "br_enc64be v = map (\<lambda>j. ucast (drop_bit (56 - 8 * j) v)) [0..<8]"

definition CH :: "u32 \<Rightarrow> u32 \<Rightarrow> u32 \<Rightarrow> u32" where
  "CH X Y Z = ((Y XOR Z) AND X) XOR Z"

definition MAJ :: "u32 \<Rightarrow> u32 \<Rightarrow> u32 \<Rightarrow> u32" where
  "MAJ X Y Z = (Y AND Z) OR ((Y OR Z) AND X)"

definition ROTR :: "u32 \<Rightarrow> nat \<Rightarrow> u32" where
  "ROTR x n = push_bit (32 - n) x OR drop_bit n x"

definition BSG2_0 :: "u32 \<Rightarrow> u32" where
  "BSG2_0 x = ROTR x 2 XOR ROTR x 13 XOR ROTR x 22"

definition BSG2_1 :: "u32 \<Rightarrow> u32" where
  "BSG2_1 x = ROTR x 6 XOR ROTR x 11 XOR ROTR x 25"

definition SSG2_0 :: "u32 \<Rightarrow> u32" where
  "SSG2_0 x = ROTR x 7 XOR ROTR x 18 XOR drop_bit 3 x"

definition SSG2_1 :: "u32 \<Rightarrow> u32" where
  "SSG2_1 x = ROTR x 17 XOR ROTR x 19 XOR drop_bit 10 x"

definition br_sha256_IV :: "u32 list" where
  "br_sha256_IV =
    [0x6A09E667, 0xBB67AE85, 0x3C6EF372, 0xA54FF53A,
     0x510E527F, 0x9B05688C, 0x1F83D9AB, 0x5BE0CD19]"

definition sha_K :: "u32 list" where
  "sha_K =
    [0x428A2F98, 0x71374491, 0xB5C0FBCF, 0xE9B5DBA5,
     0x3956C25B, 0x59F111F1, 0x923F82A4, 0xAB1C5ED5,
     0xD807AA98, 0x12835B01, 0x243185BE, 0x550C7DC3,
     0x72BE5D74, 0x80DEB1FE, 0x9BDC06A7, 0xC19BF174,
     0xE49B69C1, 0xEFBE4786, 0x0FC19DC6, 0x240CA1CC,
     0x2DE92C6F, 0x4A7484AA, 0x5CB0A9DC, 0x76F988DA,
     0x983E5152, 0xA831C66D, 0xB00327C8, 0xBF597FC7,
     0xC6E00BF3, 0xD5A79147, 0x06CA6351, 0x14292967,
     0x27B70A85, 0x2E1B2138, 0x4D2C6DFC, 0x53380D13,
     0x650A7354, 0x766A0ABB, 0x81C2C92E, 0x92722C85,
     0xA2BFE8A1, 0xA81A664B, 0xC24B8B70, 0xC76C51A3,
     0xD192E819, 0xD6990624, 0xF40E3585, 0x106AA070,
     0x19A4C116, 0x1E376C08, 0x2748774C, 0x34B0BCB5,
     0x391C0CB3, 0x4ED8AA4A, 0x5B9CCA4F, 0x682E6FF3,
     0x748F82EE, 0x78A5636F, 0x84C87814, 0x8CC70208,
     0x90BEFFFA, 0xA4506CEB, 0xBEF9A3F7, 0xC67178F2]"

text \<open>The message schedule: the loop writes \<open>w[i]\<close> for \<open>i\<close> from 16 to 63 in order.\<close>

primrec sha_schedule :: "nat list \<Rightarrow> u32 list \<Rightarrow> u32 list" where
  "sha_schedule [] w = w"
| "sha_schedule (i # ixs) w =
     sha_schedule ixs
       (w @ [SSG2_1 (w ! (i - 2)) + w ! (i - 7) + SSG2_0 (w ! (i - 15)) + w ! (i - 16)])"

text \<open>The macro assigns its parameters \<open>D\<close> and \<open>H\<close>; the function returns their new values.\<close>

definition SHA2_STEP ::
    "u32 list \<Rightarrow> u32 \<Rightarrow> u32 \<Rightarrow> u32 \<Rightarrow> u32 \<Rightarrow> u32 \<Rightarrow> u32 \<Rightarrow> u32 \<Rightarrow> u32 \<Rightarrow> nat \<Rightarrow> u32 \<times> u32" where
  "SHA2_STEP w A B C D E F G H j =
     (let T1 = H + BSG2_1 E + CH E F G + sha_K ! j + w ! j;
          T2 = BSG2_0 A + MAJ A B C
      in (D + T1, T1 + T2))"

type_synonym sha_regs = "u32 \<times> u32 \<times> u32 \<times> u32 \<times> u32 \<times> u32 \<times> u32 \<times> u32"

definition sha_eight_steps :: "u32 list \<Rightarrow> nat \<Rightarrow> sha_regs \<Rightarrow> sha_regs" where
  "sha_eight_steps w i = (\<lambda>(a, b, c, d, e, f, g, h).
     let (d, h) = SHA2_STEP w a b c d e f g h (i + 0);
         (c, g) = SHA2_STEP w h a b c d e f g (i + 1);
         (b, f) = SHA2_STEP w g h a b c d e f (i + 2);
         (a, e) = SHA2_STEP w f g h a b c d e (i + 3);
         (h, d) = SHA2_STEP w e f g h a b c d (i + 4);
         (g, c) = SHA2_STEP w d e f g h a b c (i + 5);
         (f, b) = SHA2_STEP w c d e f g h a b (i + 6);
         (e, a) = SHA2_STEP w b c d e f g h a (i + 7)
     in (a, b, c, d, e, f, g, h))"

definition br_sha2small_round :: "u8 list \<Rightarrow> u32 list \<Rightarrow> u32 list" where
  "br_sha2small_round buf v =
     (let w = sha_schedule [16..<64] (br_range_dec32be 16 buf);
          (a, b, c, d, e, f, g, h) =
            fold (sha_eight_steps w) [0, 8, 16, 24, 32, 40, 48, 56]
              (v ! 0, v ! 1, v ! 2, v ! 3, v ! 4, v ! 5, v ! 6, v ! 7)
      in [v ! 0 + a, v ! 1 + b, v ! 2 + c, v ! 3 + d, v ! 4 + e, v ! 5 + f, v ! 6 + g, v ! 7 + h])"

text \<open>
  The buffering loop.  The buffer position is below 64 at every test of the loop condition; the
  second disjunct only makes the function total.
\<close>

function sha2small_update_loop ::
    "u8 list \<Rightarrow> u32 list \<Rightarrow> nat \<Rightarrow> u8 list \<Rightarrow> u8 list \<times> u32 list" where
  "sha2small_update_loop buf v ptr data =
     (if data = [] \<or> ptr \<ge> 64 then (buf, v)
      else
        let clen = (if 64 - ptr > length data then length data else 64 - ptr);
            buf' = take ptr buf @ take clen data @ drop (ptr + clen) buf;
            ptr' = ptr + clen
        in if ptr' = 64
           then sha2small_update_loop buf' (br_sha2small_round buf' v) 0 (drop clen data)
           else sha2small_update_loop buf' v ptr' (drop clen data))"
  by auto
termination by (relation "measure (\<lambda>(buf, v, ptr, data). length data)") (auto split: if_splits)

definition sha2small_update :: "hybris_sha256_context \<Rightarrow> u8 list \<Rightarrow> hybris_sha256_context" where
  "sha2small_update cc data =
     (let ptr = unat (sha_count cc AND 63);
          (buf, v) = sha2small_update_loop (sha_buf cc) (sha_val cc) ptr data
      in \<lparr>sha_buf = buf, sha_count = sha_count cc + of_nat (length data), sha_val = v\<rparr>)"

definition sha2small_out :: "hybris_sha256_context \<Rightarrow> nat \<Rightarrow> u8 list" where
  "sha2small_out cc num =
     (let ptr = unat (sha_count cc AND 63);
          buf = take ptr (sha_buf cc) @ [0x80];
          v = sha_val cc;
          ptr = ptr + 1;
          (buf, v) = (if ptr > 56
                      then (replicate 56 0, br_sha2small_round (buf @ replicate (64 - ptr) 0) v)
                      else (buf @ replicate (56 - ptr) 0, v));
          v = br_sha2small_round (buf @ br_enc64be (push_bit 3 (sha_count cc))) v
      in br_range_enc32be (take num v))"

text \<open>The buffer of a fresh context is uninitialised: it is a parameter.\<close>

definition hybris_sha256_init :: "u8 list \<Rightarrow> hybris_sha256_context" where
  "hybris_sha256_init garbage = \<lparr>sha_buf = garbage, sha_count = 0, sha_val = br_sha256_IV\<rparr>"

definition hybris_sha256_update :: "hybris_sha256_context \<Rightarrow> u8 list \<Rightarrow> hybris_sha256_context" where
  "hybris_sha256_update cc data = sha2small_update cc data"

definition hybris_sha256_out :: "hybris_sha256_context \<Rightarrow> u8 list" where
  "hybris_sha256_out cc = sha2small_out cc 8"

declare sha2small_update_loop.simps [simp del]

section \<open>The hash of FIPS 180-4\<close>

definition fips_Ch :: "u32 \<Rightarrow> u32 \<Rightarrow> u32 \<Rightarrow> u32" where
  "fips_Ch x y z = (x AND y) XOR (NOT x AND z)"

definition fips_Maj :: "u32 \<Rightarrow> u32 \<Rightarrow> u32 \<Rightarrow> u32" where
  "fips_Maj x y z = (x AND y) XOR (x AND z) XOR (y AND z)"

text \<open>The schedule of a block, with its big-endian words.\<close>

fun fips_W :: "u8 list \<Rightarrow> nat \<Rightarrow> u32" where
  "fips_W block t =
     (if t < 16 then word_rcat [block ! (4 * t), block ! (4 * t + 1), block ! (4 * t + 2), block ! (4 * t + 3)]
      else let s1 = fips_W block (t - 2); s0 = fips_W block (t - 15)
           in (word_rotr 17 s1 XOR word_rotr 19 s1 XOR drop_bit 10 s1) + fips_W block (t - 7) +
              (word_rotr 7 s0 XOR word_rotr 18 s0 XOR drop_bit 3 s0) + fips_W block (t - 16))"

declare fips_W.simps [simp del]

definition fips_step :: "(nat \<Rightarrow> u32) \<Rightarrow> nat \<Rightarrow> sha_regs \<Rightarrow> sha_regs" where
  "fips_step W t = (\<lambda>(a, b, c, d, e, f, g, h).
     let T1 = h + (word_rotr 6 e XOR word_rotr 11 e XOR word_rotr 25 e) + fips_Ch e f g + sha_K ! t + W t;
         T2 = (word_rotr 2 a XOR word_rotr 13 a XOR word_rotr 22 a) + fips_Maj a b c
     in (T1 + T2, a, b, c, d + T1, e, f, g))"

definition fips_compress :: "u32 list \<Rightarrow> u8 list \<Rightarrow> u32 list" where
  "fips_compress H block =
     (let (a, b, c, d, e, f, g, h) =
            fold (fips_step (fips_W block)) [0..<64]
              (H ! 0, H ! 1, H ! 2, H ! 3, H ! 4, H ! 5, H ! 6, H ! 7)
      in [H ! 0 + a, H ! 1 + b, H ! 2 + c, H ! 3 + d, H ! 4 + e, H ! 5 + f, H ! 6 + g, H ! 7 + h])"

function fips_absorb :: "u32 list \<Rightarrow> u8 list \<Rightarrow> u32 list" where
  "fips_absorb H xs =
     (if length xs < 64 then H else fips_absorb (fips_compress H (take 64 xs)) (drop 64 xs))"
  by auto
termination by (relation "measure (\<lambda>(H, xs). length xs)") auto

declare fips_absorb.simps [simp del]

text \<open>One bit, the fewest zeros that fill up to 56 bytes of a block, and the length in bits.\<close>

definition fips_pad :: "u8 list \<Rightarrow> u8 list" where
  "fips_pad msg = msg @ [0x80] @ replicate ((119 - length msg mod 64) mod 64) 0 @
                  br_enc64be (of_nat (8 * length msg))"

definition fips_sha256 :: "u8 list \<Rightarrow> u8 list" where
  "fips_sha256 msg = br_range_enc32be (fips_absorb br_sha256_IV (fips_pad msg))"

section \<open>The compression function\<close>

lemma ROTR_word_rotr: "0 < n \<Longrightarrow> n < 32 \<Longrightarrow> ROTR x n = word_rotr n x"
proof (rule bit_word_eqI)
  fix k assume n: "0 < n" "n < 32" and k: "k < LENGTH(32)"
  show "bit (ROTR x n) k = bit (word_rotr n x) k"
  proof (cases "k + n < 32")
    case True
    then show ?thesis using n by (auto simp: ROTR_def bit_simps add.commute le_diff_conv)
  next
    case False
    then have "(k + n) mod 32 = k - (32 - n)" using n k by (simp add: mod_if)
    moreover have "\<not> bit x (n + k)" using False by (auto dest: bit_imp_le_length)
    ultimately show ?thesis using n k False by (auto simp: ROTR_def bit_simps)
  qed
qed

lemma CH_fips: "CH x y z = fips_Ch x y z"
  by (rule bit_word_eqI) (auto simp: CH_def fips_Ch_def bit_simps)

lemma MAJ_fips: "MAJ x y z = fips_Maj x y z"
  by (rule bit_word_eqI) (auto simp: MAJ_def fips_Maj_def bit_simps)

lemmas sha_fips = BSG2_0_def BSG2_1_def SSG2_0_def SSG2_1_def ROTR_word_rotr CH_fips MAJ_fips

lemma byte_bits: "bit (ucast (b :: u8) :: u32) n \<Longrightarrow> n < 8"
  by (auto simp: bit_simps dest: bit_imp_le_length)

lemma bytes_word_rcat:
  "push_bit 24 (ucast a) OR push_bit 16 (ucast b) OR push_bit 8 (ucast c) OR ucast d =
   (word_rcat [a, b, c, d :: u8] :: u32)"
proof -
  have "(word_rcat [a, b, c, d] :: u32) = push_bit 24 (ucast a) + (push_bit 16 (ucast b) + (push_bit 8 (ucast c) + ucast d))"
    by (simp add: word_rcat_def push_bit_eq_mult algebra_simps of_int_uint)
  also have "push_bit 8 (ucast c) + ucast d = (push_bit 8 (ucast c) OR ucast d :: u32)"
    by (rule disjunctive_add) (auto simp: bit_push_bit_iff dest: byte_bits)
  also have "push_bit 16 (ucast b) + \<dots> = push_bit 16 (ucast b) OR \<dots>"
    by (rule disjunctive_add) (auto simp: bit_push_bit_iff bit_or_iff dest!: byte_bits)
  also have "push_bit 24 (ucast a) + \<dots> = push_bit 24 (ucast a) OR \<dots>"
    by (rule disjunctive_add) (auto simp: bit_push_bit_iff bit_or_iff dest!: byte_bits)
  finally show ?thesis by (simp add: or.assoc)
qed

lemma nth_dec32be:
  "t < n \<Longrightarrow> 4 * n \<le> length p \<Longrightarrow>
   br_range_dec32be n p ! t = word_rcat [p ! (4 * t), p ! (4 * t + 1), p ! (4 * t + 2), p ! (4 * t + 3)]"
proof (induction n arbitrary: p t)
  case (Suc n)
  then show ?case by (cases t) (simp_all add: bytes_word_rcat numeral_2_eq_2)
qed simp

lemma length_dec32be [simp]: "length (br_range_dec32be n p) = n"
  by (induction n arbitrary: p) simp_all

lemma schedule_fips:
  "length w = k \<Longrightarrow> 16 \<le> k \<Longrightarrow> k \<le> n \<Longrightarrow> (\<forall>t<k. w ! t = fips_W block t) \<Longrightarrow>
   t < n \<Longrightarrow> sha_schedule [k..<n] w ! t = fips_W block t"
proof (induction "n - k" arbitrary: k w)
  case 0
  then show ?case by simp
next
  case (Suc d)
  then have "k < n" by simp
  let ?x = "SSG2_1 (w ! (k - 2)) + w ! (k - 7) + SSG2_0 (w ! (k - 15)) + w ! (k - 16)"
  have "?x = fips_W block k"
    using Suc.prems(2,4) by (subst fips_W.simps) (simp add: sha_fips Let_def)
  then have "\<forall>t<Suc k. (w @ [?x]) ! t = fips_W block t"
    using Suc.prems(1,4) by (simp add: nth_append less_Suc_eq)
  then have "sha_schedule [Suc k..<n] (w @ [?x]) ! t = fips_W block t"
    using Suc.hyps(2) Suc.prems \<open>k < n\<close> by (intro Suc.hyps(1)) auto
  with \<open>k < n\<close> show ?case by (simp add: upt_conv_Cons)
qed

lemma fips_step_SHA2_STEP:
  "SHA2_STEP w a b c d e f g h j = (d', h') \<Longrightarrow> w ! j = W j \<Longrightarrow>
   fips_step W j (a, b, c, d, e, f, g, h) = (h', a, b, c, d', e, f, g)"
  by (auto simp: fips_step_def SHA2_STEP_def Let_def sha_fips)

lemma eight_steps_fips:
  assumes "\<And>j. j < 8 \<Longrightarrow> w ! (i + j) = W (i + j)"
  shows "sha_eight_steps w i r = fold (fips_step W) [i + 0, i + 1, i + 2, i + 3, i + 4, i + 5, i + 6, i + 7] r"
proof -
  obtain a b c d e f g h where r: "r = (a, b, c, d, e, f, g, h)" by (metis surj_pair)
  obtain d1 h1 where 0: "SHA2_STEP w a b c d e f g h (i + 0) = (d1, h1)" by fastforce
  obtain c1 g1 where 1: "SHA2_STEP w h1 a b c d1 e f g (i + 1) = (c1, g1)" by fastforce
  obtain b1 f1 where 2: "SHA2_STEP w g1 h1 a b c1 d1 e f (i + 2) = (b1, f1)" by fastforce
  obtain a1 e1 where 3: "SHA2_STEP w f1 g1 h1 a b1 c1 d1 e (i + 3) = (a1, e1)" by fastforce
  obtain h2 d2 where 4: "SHA2_STEP w e1 f1 g1 h1 a1 b1 c1 d1 (i + 4) = (h2, d2)" by fastforce
  obtain g2 c2 where 5: "SHA2_STEP w d2 e1 f1 g1 h2 a1 b1 c1 (i + 5) = (g2, c2)" by fastforce
  obtain f2 b2 where 6: "SHA2_STEP w c2 d2 e1 f1 g2 h2 a1 b1 (i + 6) = (f2, b2)" by fastforce
  obtain e2 a2 where 7: "SHA2_STEP w b2 c2 d2 e1 f2 g2 h2 a1 (i + 7) = (e2, a2)" by fastforce
  have "sha_eight_steps w i r = (a2, b2, c2, d2, e2, f2, g2, h2)"
    unfolding r sha_eight_steps_def prod.case Let_def 0 1 2 3 4 5 6 7 by (rule refl)
  moreover have "fold (fips_step W) [i + 0, i + 1, i + 2, i + 3, i + 4, i + 5, i + 6, i + 7] r = (a2, b2, c2, d2, e2, f2, g2, h2)"
    unfolding r fold_simps comp_def
    by (simp only: fips_step_SHA2_STEP[where W = W, OF 0 assms[of 0]] fips_step_SHA2_STEP[where W = W, OF 1 assms[of 1]] fips_step_SHA2_STEP[where W = W, OF 2 assms[of 2]]
        fips_step_SHA2_STEP[where W = W, OF 3 assms[of 3]] fips_step_SHA2_STEP[where W = W, OF 4 assms[of 4]] fips_step_SHA2_STEP[where W = W, OF 5 assms[of 5]]
        fips_step_SHA2_STEP[where W = W, OF 6 assms[of 6]] fips_step_SHA2_STEP[where W = W, OF 7 assms[of 7]] less_numeral_extra numeral_less_iff
        rel_simps one_less_numeral_iff zero_less_numeral id_apply)
  ultimately show ?thesis by simp
qed

lemma round_fips:
  assumes "length buf = 64"
  shows "br_sha2small_round buf v = fips_compress v buf"
proof -
  let ?w = "sha_schedule [16..<64] (br_range_dec32be 16 buf)"
  have "\<forall>t<16. br_range_dec32be 16 buf ! t = fips_W buf t"
    using assms by (simp add: nth_dec32be fips_W.simps)
  then have w: "?w ! t = fips_W buf t" if "t < 64" for t
    using that by (intro schedule_fips) simp_all
  have e: "sha_eight_steps ?w i r = fold (fips_step (fips_W buf)) [i + 0, i + 1, i + 2, i + 3, i + 4, i + 5, i + 6, i + 7] r"
    if "i \<le> 56" for i r
    using that by (intro eight_steps_fips w) linarith
  have "[0..<64] = concat (map (\<lambda>i. [i + 0, i + 1, i + 2, i + 3, i + 4, i + 5, i + 6, i + 7]) [0, 8, 16, 24, 32, 40, 48, 56])"
    by (simp add: upt_rec)
  then have "fold (sha_eight_steps ?w) [0, 8, 16, 24, 32, 40, 48, 56] r = fold (fips_step (fips_W buf)) [0..<64] r" for r
    by (simp only: e fold_simps comp_def list.map concat.simps fold_append rel_simps zero_le numeral_le_iff id_apply)
  then show ?thesis by (simp only: br_sha2small_round_def fips_compress_def Let_def)
qed

section \<open>Streaming\<close>

lemma length_compress [simp]: "length (fips_compress H b) = 8"
  by (simp add: fips_compress_def split: prod.split)

lemma length_absorb: "length H = 8 \<Longrightarrow> length (fips_absorb H xs) = 8"
  by (induction H xs rule: fips_absorb.induct) (subst fips_absorb.simps, simp)

lemma absorb_short: "length xs < 64 \<Longrightarrow> fips_absorb H xs = H"
  by (subst fips_absorb.simps) simp

lemma absorb_long:
  "64 \<le> length xs \<Longrightarrow> fips_absorb H xs = fips_absorb (fips_compress H (take 64 xs)) (drop 64 xs)"
  by (subst fips_absorb.simps) simp

text \<open>The bytes of a message after its last full block.\<close>

definition sha_tail :: "u8 list \<Rightarrow> u8 list" where
  "sha_tail xs = drop (64 * (length xs div 64)) xs"

lemma length_sha_tail [simp]: "length (sha_tail xs) = length xs mod 64"
  by (simp add: sha_tail_def minus_mult_div_eq_mod)

lemma sha_tail_short: "length xs < 64 \<Longrightarrow> sha_tail xs = xs"
  by (simp add: sha_tail_def)

lemma sha_tail_long: "64 \<le> length xs \<Longrightarrow> sha_tail xs = sha_tail (drop 64 xs)"
  by (simp add: sha_tail_def le_div_geq add.commute)

lemma absorb_tail: "fips_absorb H (xs @ ys) = fips_absorb (fips_absorb H xs) (sha_tail xs @ ys)"
proof (induction H xs rule: fips_absorb.induct)
  case (1 H xs)
  show ?case
  proof (cases "length xs < 64")
    case True
    then show ?thesis by (simp add: sha_tail_short absorb_short)
  next
    case False
    with "1.IH" show ?thesis
      by (simp add: absorb_long[of "xs @ ys"] absorb_long[of xs] sha_tail_long[of xs])
  qed
qed

lemma sha_tail_append: "sha_tail (xs @ ys) = sha_tail (sha_tail xs @ ys)"
proof (induction xs rule: length_induct)
  case (1 xs)
  show ?case
  proof (cases "length xs < 64")
    case True
    then show ?thesis by (simp add: sha_tail_short)
  next
    case False
    then have "sha_tail (drop 64 xs @ ys) = sha_tail (sha_tail (drop 64 xs) @ ys)"
      by (intro "1.IH"[rule_format]) simp
    with False show ?thesis by (simp only: sha_tail_long[of xs] sha_tail_long[of "xs @ ys"] not_less
          length_append drop_append trans_le_add1 diff_is_0_eq drop0) simp
  qed
qed

lemma loop_nil: "sha2small_update_loop buf v ptr [] = (buf, v)"
  by (simp add: sha2small_update_loop.simps)

lemma loop_partial:
  assumes "ptr + length data < 64"
  shows "sha2small_update_loop buf v ptr data = (if data = [] then buf else take ptr buf @ data @ drop (ptr + length data) buf, v)"
proof (cases "data = []")
  case False
  with assms show ?thesis
    by (subst sha2small_update_loop.simps) (simp add: Let_def loop_nil less_diff_conv add.commute)
qed (simp add: loop_nil)

lemma loop_full:
  assumes "ptr < 64" "64 \<le> ptr + length data" "length buf = 64" "full = take ptr buf @ take (64 - ptr) data"
  shows "sha2small_update_loop buf v ptr data =
    sha2small_update_loop full (fips_compress v full) 0 (drop (64 - ptr) data)"
proof -
  have "length full = 64" using assms by simp
  moreover have "\<not> 64 - ptr > length data" "data \<noteq> []" using assms by auto
  ultimately show ?thesis using assms
    by (subst sha2small_update_loop.simps) (simp add: Let_def round_fips)
qed

lemma update_loop:
  "ptr < 64 \<Longrightarrow> length buf = 64 \<Longrightarrow> sha2small_update_loop buf v ptr data = (buf', v') \<Longrightarrow>
   length buf' = 64 \<and> v' = fips_absorb v (take ptr buf @ data) \<and>
   take ((ptr + length data) mod 64) buf' = sha_tail (take ptr buf @ data)"
proof (induction data arbitrary: buf v ptr rule: length_induct)
  case (1 data)
  show ?case
  proof (cases "ptr + length data < 64")
    case True
    with "1.prems"(3) have "buf' = (if data = [] then buf else take ptr buf @ data @ drop (ptr + length data) buf)"
      "v' = v" by (simp_all add: loop_partial)
    with True "1.prems"(1,2) show ?thesis by (auto simp: absorb_short sha_tail_short)
  next
    case False
    let ?full = "take ptr buf @ take (64 - ptr) data" and ?rest = "drop (64 - ptr) data"
    let ?all = "take ptr buf @ data"
    have all: "64 \<le> length ?all" "take 64 ?all = ?full" "drop 64 ?all = ?rest"
      using False "1.prems"(1,2) by simp_all
    have "sha2small_update_loop ?full (fips_compress v ?full) 0 ?rest = (buf', v')"
      using loop_full[OF "1.prems"(1) _ "1.prems"(2) refl] False "1.prems"(3) by simp
    moreover have "length ?rest < length data" "length ?full = 64" using False "1.prems"(1,2) by auto
    ultimately have "length buf' = 64 \<and> v' = fips_absorb (fips_compress v ?full) (take 0 ?full @ ?rest) \<and>
      take ((0 + length ?rest) mod 64) buf' = sha_tail (take 0 ?full @ ?rest)"
      by (intro "1.IH"[rule_format]) simp_all
    then have "length buf' = 64 \<and> v' = fips_absorb (fips_compress v ?full) ?rest \<and>
      take (length ?rest mod 64) buf' = sha_tail ?rest" by simp
    moreover have "(ptr + length data) mod 64 = length ?rest mod 64"
      using False "1.prems"(1) le_mod_geq[of 64 "ptr + length data"] by (simp add: add.commute)
    ultimately show ?thesis
      by (simp only: absorb_long[OF all(1)] sha_tail_long[OF all(1)] all(2,3))
  qed
qed

text \<open>A context represents the message fed to it so far.\<close>

definition sha_rep :: "hybris_sha256_context \<Rightarrow> u8 list \<Rightarrow> bool" where
  "sha_rep cc msg \<longleftrightarrow> length (sha_buf cc) = 64 \<and> sha_count cc = of_nat (length msg) \<and>
     sha_val cc = fips_absorb br_sha256_IV msg \<and> take (length msg mod 64) (sha_buf cc) = sha_tail msg"

lemma count_position: "unat ((of_nat n :: u64) AND 63) = n mod 64"
proof -
  have "(of_nat n :: u64) AND 63 = take_bit 6 (of_nat n)"
    by (simp add: take_bit_eq_mask mask_eq_exp_minus_1)
  then show ?thesis
    by (simp add: unsigned_take_bit_eq unsigned_of_nat take_bit_take_bit) (simp add: take_bit_eq_mod)
qed

lemma sha_rep_init: "length garbage = 64 \<Longrightarrow> sha_rep (hybris_sha256_init garbage) []"
  by (simp add: sha_rep_def hybris_sha256_init_def absorb_short sha_tail_def)

lemma sha_rep_update:
  assumes "sha_rep cc msg"
  shows "sha_rep (hybris_sha256_update cc data) (msg @ data)"
proof -
  let ?ptr = "length msg mod 64"
  obtain buf v where loop: "sha2small_update_loop (sha_buf cc) (sha_val cc) ?ptr data = (buf, v)" by fastforce
  from assms have tail: "take ?ptr (sha_buf cc) = sha_tail msg" and len: "length (sha_buf cc) = 64"
    and v: "sha_val cc = fips_absorb br_sha256_IV msg" by (simp_all add: sha_rep_def)
  have "length buf = 64 \<and> v = fips_absorb (sha_val cc) (sha_tail msg @ data) \<and>
    take ((?ptr + length data) mod 64) buf = sha_tail (sha_tail msg @ data)"
    using update_loop[OF _ len loop] by (simp add: tail)
  then have "length buf = 64 \<and> v = fips_absorb br_sha256_IV (msg @ data) \<and>
    take (length (msg @ data) mod 64) buf = sha_tail (msg @ data)"
    using absorb_tail[of br_sha256_IV msg data] sha_tail_append[of msg data] by (simp add: v mod_add_left_eq)
  then show ?thesis using assms loop
    by (simp add: sha_rep_def hybris_sha256_update_def sha2small_update_def count_position)
qed

lemma length_enc64be [simp]: "length (br_enc64be v) = 8"
  by (simp add: br_enc64be_def)

lemma absorb_blocks:
  "length b = 64 \<Longrightarrow> fips_absorb H b = fips_compress H b"
  "length b = 64 \<Longrightarrow> length c = 64 \<Longrightarrow> fips_absorb H (b @ c) = fips_compress (fips_compress H b) c"
  by (simp_all add: absorb_long absorb_short)

lemma sha_rep_out:
  assumes "sha_rep cc msg"
  shows "hybris_sha256_out cc = fips_sha256 msg"
proof -
  let ?ptr = "length msg mod 64" and ?H = "fips_absorb br_sha256_IV msg"
  let ?enc = "br_enc64be (of_nat (8 * length msg))"
  let ?z = "(119 - ?ptr) mod 64"
  let ?last = "sha_tail msg @ [0x80] @ replicate ?z 0 @ ?enc"
  have pad: "fips_absorb br_sha256_IV (fips_pad msg) = fips_absorb ?H ?last"
    unfolding fips_pad_def by (rule absorb_tail)
  have cnt: "push_bit 3 (of_nat (length msg)) = (of_nat (8 * length msg) :: u64)"
    by (simp add: push_bit_eq_mult)
  have lt: "?ptr < 64" by simp
  let ?v2 = "if ?ptr + 1 > 56
      then br_sha2small_round (replicate 56 0 @ ?enc)
             (br_sha2small_round (sha_tail msg @ [0x80] @ replicate (63 - ?ptr) 0) ?H)
      else br_sha2small_round (sha_tail msg @ [0x80] @ replicate (55 - ?ptr) 0 @ ?enc) ?H"
  have code: "hybris_sha256_out cc = br_range_enc32be (take 8 ?v2)"
    using assms by (simp add: hybris_sha256_out_def sha2small_out_def sha_rep_def count_position cnt)
  have "?v2 = fips_absorb ?H ?last"
  proof (cases "?ptr + 1 > 56")
    case True
    then have z: "?z = (63 - ?ptr) + 56" using lt by simp
    have eq: "?last = (sha_tail msg @ [0x80] @ replicate (63 - ?ptr) 0) @ (replicate 56 0 @ ?enc)"
      unfolding z replicate_add by (simp only: append_assoc)
    have "fips_absorb ?H ?last = fips_compress (fips_compress ?H (sha_tail msg @ [0x80] @ replicate (63 - ?ptr) 0))
        (replicate 56 0 @ ?enc)"
      unfolding eq using lt by (intro absorb_blocks(2)) simp_all
    then show ?thesis using True lt by (simp add: round_fips)
  next
    case False
    then have "119 - ?ptr = (55 - ?ptr) + 64" by simp
    then have z: "?z = 55 - ?ptr" by (simp only: mod_add_self2) simp
    then show ?thesis using False by (simp add: round_fips absorb_blocks(1))
  qed
  moreover have "length (fips_absorb ?H ?last) = 8" by (intro length_absorb) (simp add: br_sha256_IV_def)
  ultimately show ?thesis using code by (simp add: fips_sha256_def pad)
qed

section \<open>The streaming interface\<close>

text \<open>
  What a client of an incremental hash relies on: a context represents the bytes fed to it, and
  the output is the digest of what it represents.
\<close>

locale streaming_hash =
  fixes fresh :: "'g \<Rightarrow> bool" and hinit :: "'g \<Rightarrow> 'c" and hupdate :: "'c \<Rightarrow> 'b list \<Rightarrow> 'c"
    and hout :: "'c \<Rightarrow> 'd" and represents :: "'c \<Rightarrow> 'b list \<Rightarrow> bool" and digest :: "'b list \<Rightarrow> 'd"
  assumes init_represents: "fresh g \<Longrightarrow> represents (hinit g) []"
    and update_represents: "represents c m \<Longrightarrow> represents (hupdate c bs) (m @ bs)"
    and out_digest: "represents c m \<Longrightarrow> hout c = digest m"
begin

lemma updates_represent: "represents c m \<Longrightarrow> represents (foldl hupdate c parts) (m @ concat parts)"
proof (induction parts arbitrary: c m)
  case (Cons p parts)
  from Cons.IH[OF update_represents[OF Cons.prems, of p]] show ?case by simp
qed simp

lemma digest_of_parts: "fresh g \<Longrightarrow> hout (foldl hupdate (hinit g) parts) = digest (concat parts)"
  using updates_represent[OF init_represents, of g parts] by (simp add: out_digest)

end

interpretation sha: streaming_hash "\<lambda>g. length g = 64" hybris_sha256_init hybris_sha256_update
    hybris_sha256_out sha_rep fips_sha256
  by unfold_locales (auto intro: sha_rep_init sha_rep_update sha_rep_out)

section \<open>Properties\<close>

text \<open>
  C6: For every way of cutting a message into pieces, and whatever bytes the uninitialised buffer
  holds, feeding the pieces one after the other to the streaming interface and reading the output
  gives the FIPS 180-4 hash of the whole message, with the length field taken modulo 2 to the 64.
\<close>

theorem sha256_streaming_correct:
  assumes "length garbage = 64"
  shows "hybris_sha256_out (foldl hybris_sha256_update (hybris_sha256_init garbage) parts) =
         fips_sha256 (concat parts)"
  by (rule sha.digest_of_parts[OF assms])

theorem sha256_streaming_correct_witness:
  "hybris_sha256_out (foldl hybris_sha256_update (hybris_sha256_init (replicate 64 7)) [[97], [], [98, 99]]) =
   fips_sha256 [97, 98, 99]"
  using sha256_streaming_correct[of "replicate 64 7" "[[97], [], [98, 99]]"] by simp

end
