(* ===== verification/Linker_Integrity.thy ===== *)
theory Linker_Integrity
  imports Linker_Load Integrity_Sha256
begin

text \<open>
  Relocation of a module's integrity hash after TLS patching:
  \<open>hybris/common/q/linker_integrity.cpp\<close>.  Memory is a function from addresses to bytes.  The
  symbol table lookup, the module's own hash accessor, the page size and the host's \<open>mprotect\<close> are
  parameters; each error message of the source is a value of \<open>integrity_error\<close>.
\<close>

section \<open>Definitions\<close>

type_synonym byte_mem = "u64 \<Rightarrow> u8"

record elf_sym =
  st_value :: u64
  st_size :: u64
  st_info :: u8
  st_shndx :: u16

record soinfo =
  si_phdr :: "elf_phdr list"
  si_load_bias :: u64
  si_find_symbol :: "string \<Rightarrow> elf_sym option"

record Range =
  r_begin :: u64
  r_size :: u64

datatype integrity_error =
    LacksMetadata | InvalidAccessor | InvalidTextBounds | TextNotReadOnly | IncompleteRodata
  | InvalidRodataBounds | InvalidRodataMapping | InvalidJournal | ChangedAfterPatching | CrossesBounds
  | LegacyHashMissing | HashNotSeparate | HmacMismatch | InvalidPageSize | HashPageOverflow
  | InvalidNeighbour | HashPageShared | CannotUnprotect | CannotReprotect

definition UINTPTR_MAX :: u64 where "UINTPTR_MAX = 0xFFFFFFFFFFFFFFFF"

definition overlaps :: "Range \<Rightarrow> Range \<Rightarrow> bool" where
  "overlaps a b \<longleftrightarrow> r_begin a < r_begin b + r_size b \<and> r_begin b < r_begin a + r_size a"

definition segment_contains :: "soinfo \<Rightarrow> Range \<Rightarrow> u32 \<Rightarrow> u32 \<Rightarrow> elf_phdr \<Rightarrow> bool" where
  "segment_contains si rng required forbidden ph \<longleftrightarrow>
     \<not> (p_type ph \<noteq> PT_LOAD \<or> p_flags ph AND required \<noteq> required \<or> p_flags ph AND forbidden \<noteq> 0 \<or>
        p_vaddr ph > UINTPTR_MAX - si_load_bias si) \<and>
     (let start = si_load_bias si + p_vaddr ph in
      r_begin rng \<ge> start \<and> r_begin rng - start \<le> p_filesz ph \<and>
      r_size rng \<le> p_filesz ph - (r_begin rng - start))"

definition mapped_range :: "soinfo \<Rightarrow> Range \<Rightarrow> u32 \<Rightarrow> u32 \<Rightarrow> bool" where
  "mapped_range si rng required forbidden \<longleftrightarrow>
     \<not> (r_size rng = 0 \<or> r_begin rng > UINTPTR_MAX - r_size rng) \<and>
     list_ex (segment_contains si rng required forbidden) (si_phdr si)"

definition SHN_UNDEF :: u16 where "SHN_UNDEF = 0"
definition SHN_ABS :: u16 where "SHN_ABS = 0xfff1"

definition symbol :: "soinfo \<Rightarrow> string \<Rightarrow> elf_sym option" where
  "symbol si name =
     (case si_find_symbol si name of
        None \<Rightarrow> None
      | Some res \<Rightarrow>
          if st_shndx res = SHN_UNDEF \<or> st_shndx res = SHN_ABS \<or>
             st_value res > UINTPTR_MAX - si_load_bias si then None else Some res)"

definition address :: "soinfo \<Rightarrow> elf_sym option \<Rightarrow> u64" where
  "address si symb = (case symb of Some y \<Rightarrow> si_load_bias si + st_value y | None \<Rightarrow> 0)"

text \<open>The class \<open>ModuleHmac\<close>; the arguments are the uninitialised buffers of the two contexts.\<close>

definition ModuleHmac :: "u8 list \<Rightarrow> hybris_sha256_context" where
  "ModuleHmac garbage = hybris_sha256_update (hybris_sha256_init garbage) (replicate 64 0x36)"

definition hmac_bytes :: "hybris_sha256_context \<Rightarrow> u8 list \<Rightarrow> hybris_sha256_context" where
  "hmac_bytes h data = hybris_sha256_update h data"

definition le64 :: "u64 \<Rightarrow> u8 list" where
  "le64 v = map (\<lambda>i. ucast (drop_bit (8 * i) v)) [0..<8]"

definition hmac_length :: "hybris_sha256_context \<Rightarrow> u64 \<Rightarrow> hybris_sha256_context" where
  "hmac_length h sz = hmac_bytes h (le64 sz)"

definition hmac_finish :: "u8 list \<Rightarrow> hybris_sha256_context \<Rightarrow> u8 list" where
  "hmac_finish garbage h =
     (let digest = hybris_sha256_out h;
          outer = hybris_sha256_update (hybris_sha256_init garbage) (replicate 64 0x5c)
      in hybris_sha256_out (hybris_sha256_update outer digest))"

definition mem_bytes :: "byte_mem \<Rightarrow> u64 \<Rightarrow> u64 \<Rightarrow> u8 list" where
  "mem_bytes m a n = map (\<lambda>i. m (a + of_nat i)) [0..<unat n]"

text \<open>The bytes of a word in memory, little-endian.\<close>

definition word_bytes :: "u32 \<Rightarrow> u8 list" where
  "word_bytes w = map (\<lambda>i. ucast (drop_bit (8 * i) w)) [0..<4]"

definition patch_word :: "bool \<Rightarrow> HybrisTlsPatch \<Rightarrow> u32" where
  "patch_word original p = (if original then patch_original p else patch_replacement p)"

fun hash_patches ::
    "byte_mem \<Rightarrow> Range \<Rightarrow> bool \<Rightarrow> HybrisTlsPatch list \<Rightarrow> u64 \<Rightarrow> hybris_sha256_context
      \<Rightarrow> (u64 \<times> hybris_sha256_context) option" where
  "hash_patches m rng original [] cursor h = Some (cursor, h)"
| "hash_patches m rng original (p # ps) cursor h =
     (let fin = r_begin rng + r_size rng in
      if \<not> overlaps rng \<lparr>r_begin = patch_address p, r_size = 4\<rparr>
      then hash_patches m rng original ps cursor h
      else if patch_address p < cursor \<or> fin - patch_address p < 4 then None
      else
        let h1 = hmac_bytes h (mem_bytes m cursor (patch_address p - cursor));
            h2 = hmac_bytes h1 (word_bytes (patch_word original p))
        in hash_patches m rng original ps (patch_address p + 4) h2)"

definition hash_range ::
    "byte_mem \<Rightarrow> hybris_sha256_context \<Rightarrow> Range \<Rightarrow> HybrisTlsPatch list \<Rightarrow> bool \<Rightarrow> hybris_sha256_context option" where
  "hash_range m h rng patches original =
     (case hash_patches m rng original patches (r_begin rng) h of
        None \<Rightarrow> None
      | Some (cursor, h') \<Rightarrow>
          Some (hmac_bytes h' (mem_bytes m cursor (r_begin rng + r_size rng - cursor))))"

definition hash_module ::
    "u8 list \<Rightarrow> byte_mem \<Rightarrow> Range \<Rightarrow> Range \<Rightarrow> HybrisTlsPatch list \<Rightarrow> bool \<Rightarrow> u8 list option" where
  "hash_module garbage m txt_range rodata patches original =
     (let h = ModuleHmac garbage;
          h = (if r_size rodata \<noteq> 0 then hmac_length h (r_size txt_range) else h)
      in case hash_range m h txt_range patches original of
           None \<Rightarrow> None
         | Some h1 \<Rightarrow>
             if r_size rodata \<noteq> 0 then
               (case hash_range m (hmac_length h1 (r_size rodata)) rodata patches original of
                  None \<Rightarrow> None
                | Some h2 \<Rightarrow> Some (hmac_finish garbage h2))
             else Some (hmac_finish garbage h1))"

definition equal_hash :: "u8 list \<Rightarrow> u8 list \<Rightarrow> bool" where
  "equal_hash a b \<longleftrightarrow> fold (\<lambda>i difference. difference OR (a ! i XOR b ! i)) [0..<32] 0 = 0"

text \<open>The matches of the original digest in separate read-only data, in the order of the search.\<close>

definition legacy_matches :: "soinfo \<Rightarrow> byte_mem \<Rightarrow> Range \<Rightarrow> Range \<Rightarrow> u8 list \<Rightarrow> elf_phdr \<Rightarrow> u64 list" where
  "legacy_matches si m txt_range rodata original ph =
     (if p_type ph \<noteq> PT_LOAD \<or> p_flags ph \<noteq> PF_R \<or> p_filesz ph < 32 \<or> p_vaddr ph > UINTPTR_MAX - si_load_bias si
      then []
      else
        let data = \<lparr>r_begin = si_load_bias si + p_vaddr ph, r_size = p_filesz ph\<rparr> in
        if \<not> mapped_range si data PF_R (PF_W OR PF_X) then []
        else filter (\<lambda>cursor.
               (m cursor = original ! 0 \<and> equal_hash (mem_bytes m cursor 32) original) \<and>
               \<not> (overlaps \<lparr>r_begin = cursor, r_size = 32\<rparr> txt_range \<or>
                  r_size rodata \<noteq> 0 \<and> overlaps \<lparr>r_begin = cursor, r_size = 32\<rparr> rodata))
             (map (\<lambda>i. r_begin data + of_nat i) [0..<unat (r_size data) - 31]))"

definition legacy_expected_hash :: "soinfo \<Rightarrow> byte_mem \<Rightarrow> Range \<Rightarrow> Range \<Rightarrow> u8 list \<Rightarrow> u64 option" where
  "legacy_expected_hash si m txt_range rodata original =
     (case concat (map (legacy_matches si m txt_range rodata original) (si_phdr si)) of
        [found] \<Rightarrow> Some found
      | _ \<Rightarrow> None)"

text \<open>The checks on the sorted journal: \<open>None\<close> when every entry passes.\<close>

fun check_journal :: "soinfo \<Rightarrow> byte_mem \<Rightarrow> HybrisTlsPatch list \<Rightarrow> u64 \<Rightarrow> integrity_error option" where
  "check_journal si m [] previous_end = None"
| "check_journal si m (p # ps) previous_end =
     (if \<not> mapped_range si \<lparr>r_begin = patch_address p, r_size = 4\<rparr> PF_X PF_W \<or>
         patch_address p < previous_end \<or> \<not> hybris_is_tls_mrs (patch_original p) \<or>
         patch_replacement p AND 0xfc000000 \<noteq> 0x14000000
      then Some InvalidJournal
      else if mem_bytes m (patch_address p) 4 \<noteq> word_bytes (patch_replacement p)
      then Some ChangedAfterPatching
      else check_journal si m ps (patch_address p + 4))"

text \<open>The rodata bounds: an empty range when the module has none.\<close>

definition rodata_range :: "soinfo \<Rightarrow> Range \<Rightarrow> integrity_error + Range" where
  "rodata_range si txt_range =
     (let ro_start = symbol si ''BORINGSSL_bcm_rodata_start''; ro_end = symbol si ''BORINGSSL_bcm_rodata_end'' in
      if (ro_start \<noteq> None) \<noteq> (ro_end \<noteq> None) then Inl IncompleteRodata
      else if ro_start \<noteq> None then
        (let start = address si ro_start; fin = address si ro_end;
             rodata = \<lparr>r_begin = start, r_size = fin - start\<rparr>
         in if fin \<le> start then Inl InvalidRodataBounds
            else if \<not> mapped_range si rodata PF_R PF_W \<or> overlaps txt_range rodata then Inl InvalidRodataMapping
            else Inr rodata)
      else Inr \<lparr>r_begin = 0, r_size = 0\<rparr>)"

definition text_range :: "soinfo \<Rightarrow> elf_sym option \<Rightarrow> elf_sym option \<Rightarrow> elf_sym option \<Rightarrow> integrity_error + Range" where
  "text_range si start fin getter =
     (let text_start = address si start; text_end = address si fin;
          txt_range = \<lparr>r_begin = text_start, r_size = text_end - text_start\<rparr> in
      if start = None \<or> fin = None then Inl LacksMetadata
      else if (case getter of
                 None \<Rightarrow> False
               | Some g \<Rightarrow> st_info g AND 0xf \<noteq> 2 \<or>
                   \<not> mapped_range si \<lparr>r_begin = address si getter, r_size = st_size g\<rparr> PF_X PF_W)
      then Inl InvalidAccessor
      else if text_end \<le> text_start then Inl InvalidTextBounds
      else if \<not> mapped_range si txt_range PF_X PF_W then Inl TextNotReadOnly
      else Inr txt_range)"

text \<open>The neighbours of the page of the hash: \<open>None\<close> when none is writable or executable.\<close>

fun check_neighbours :: "soinfo \<Rightarrow> Range \<Rightarrow> elf_phdr list \<Rightarrow> integrity_error option" where
  "check_neighbours si pages [] = None"
| "check_neighbours si pages (ph # phs) =
     (if p_type ph \<noteq> PT_LOAD \<or> p_flags ph AND (PF_W OR PF_X) = 0 then check_neighbours si pages phs
      else if p_vaddr ph > UINTPTR_MAX - si_load_bias si \<or>
              p_memsz ph > UINTPTR_MAX - (si_load_bias si + p_vaddr ph) then Some InvalidNeighbour
      else if overlaps pages \<lparr>r_begin = si_load_bias si + p_vaddr ph, r_size = p_memsz ph\<rparr>
      then Some HashPageShared
      else check_neighbours si pages phs)"

definition store_bytes :: "byte_mem \<Rightarrow> u64 \<Rightarrow> u8 list \<Rightarrow> byte_mem" where
  "store_bytes m a bs = (\<lambda>x. if unat (x - a) < length bs then bs ! unat (x - a) else m x)"

text \<open>The host: the module's hash accessor, the page size, and the answers of the two \<open>mprotect\<close> calls.\<close>

record integrity_os =
  io_get_hash :: "u64 \<Rightarrow> u64"
  io_page_size :: u64
  io_unprotect :: "u64 \<Rightarrow> u64 \<Rightarrow> bool"
  io_reprotect :: "u64 \<Rightarrow> u64 \<Rightarrow> bool"

definition write_hash ::
    "integrity_os \<Rightarrow> soinfo \<Rightarrow> u64 \<Rightarrow> u8 list \<Rightarrow> byte_mem \<Rightarrow> byte_mem \<times> (integrity_error + unit)" where
  "write_hash os si expected relocated m =
     (let ps = io_page_size os; first = expected AND NOT (ps - 1);
          lst = (expected + 32 + ps - 1) AND NOT (ps - 1) in
      if sint ps \<le> 0 \<or> ps AND (ps - 1) \<noteq> 0 then (m, Inl InvalidPageSize)
      else if expected + 32 > UINTPTR_MAX - (ps - 1) then (m, Inl HashPageOverflow)
      else case check_neighbours si \<lparr>r_begin = first, r_size = lst - first\<rparr> (si_phdr si) of
        Some e \<Rightarrow> (m, Inl e)
      | None \<Rightarrow>
          if \<not> io_unprotect os first (lst - first) then (m, Inl CannotUnprotect)
          else
            let m' = store_bytes m expected relocated in
            if \<not> io_reprotect os first (lst - first) then (m', Inl CannotReprotect)
            else (m', Inr ()))"

definition relocate_hash ::
    "u8 list \<Rightarrow> integrity_os \<Rightarrow> soinfo \<Rightarrow> elf_sym option \<Rightarrow> Range \<Rightarrow> Range \<Rightarrow> HybrisTlsPatch list \<Rightarrow> byte_mem
      \<Rightarrow> byte_mem \<times> (integrity_error + unit)" where
  "relocate_hash garbage os si getter txt_range rodata patches m =
     (case (hash_module garbage m txt_range rodata patches True, hash_module garbage m txt_range rodata patches False) of
        (Some original, Some relocated) \<Rightarrow>
          (case (case getter of
                   Some g \<Rightarrow> Some (io_get_hash os (address si getter))
                 | None \<Rightarrow> legacy_expected_hash si m txt_range rodata original) of
             None \<Rightarrow> (m, Inl LegacyHashMissing)
           | Some expected \<Rightarrow>
               (let hash = \<lparr>r_begin = expected, r_size = 32\<rparr> in
                if \<not> mapped_range si hash PF_R (PF_W OR PF_X) \<or> overlaps hash txt_range \<or>
                   r_size rodata \<noteq> 0 \<and> overlaps hash rodata then (m, Inl HashNotSeparate)
                else if \<not> equal_hash original (mem_bytes m expected 32) then (m, Inl HmacMismatch)
                else if equal_hash relocated (mem_bytes m expected 32) then (m, Inr ())
                else write_hash os si expected relocated m))
      | _ \<Rightarrow> (m, Inl CrossesBounds))"

definition hybris_relocate_module_integrity ::
    "u8 list \<Rightarrow> integrity_os \<Rightarrow> soinfo \<Rightarrow> HybrisTlsPatch list \<Rightarrow> byte_mem \<Rightarrow> byte_mem \<times> (integrity_error + unit)" where
  "hybris_relocate_module_integrity garbage os si jrn m =
     (let start = symbol si ''BORINGSSL_bcm_text_start''; fin = symbol si ''BORINGSSL_bcm_text_end'';
          getter = symbol si ''FIPS_module_hash''; check = symbol si ''BORINGSSL_integrity_test'' in
      if jrn = [] then (m, Inr ())
      else if start = None \<and> fin = None \<and> getter = None \<and> check = None then (m, Inr ())
      else case text_range si start fin getter of
        Inl e \<Rightarrow> (m, Inl e)
      | Inr txt_range \<Rightarrow>
          (case rodata_range si txt_range of
             Inl e \<Rightarrow> (m, Inl e)
           | Inr rodata \<Rightarrow>
               (let patches = sort_key patch_address jrn in
                case check_journal si m patches 0 of
                  Some e \<Rightarrow> (m, Inl e)
                | None \<Rightarrow> relocate_hash garbage os si getter txt_range rodata patches m)))"

section \<open>The specification: HMAC-SHA-256 of a module image\<close>

definition hmac_sha256 :: "u8 list \<Rightarrow> u8 list" where
  "hmac_sha256 msg = fips_sha256 (replicate 64 0x5c @ fips_sha256 (replicate 64 0x36 @ msg))"

definition module_message :: "byte_mem \<Rightarrow> Range \<Rightarrow> Range \<Rightarrow> u8 list" where
  "module_message m txt_range rodata =
     (if r_size rodata \<noteq> 0
      then le64 (r_size txt_range) @ mem_bytes m (r_begin txt_range) (r_size txt_range) @
           le64 (r_size rodata) @ mem_bytes m (r_begin rodata) (r_size rodata)
      else mem_bytes m (r_begin txt_range) (r_size txt_range))"

definition covers :: "u64 \<Rightarrow> HybrisTlsPatch \<Rightarrow> bool" where
  "covers a p \<longleftrightarrow> unat (a - patch_address p) < 4"

text \<open>Memory with the word \<open>w p\<close> at the address of every patch \<open>p\<close>.\<close>

definition patched_image :: "byte_mem \<Rightarrow> (HybrisTlsPatch \<Rightarrow> u32) \<Rightarrow> HybrisTlsPatch list \<Rightarrow> byte_mem" where
  "patched_image m w ps a =
     (case find (covers a) ps of
        None \<Rightarrow> m a
      | Some p \<Rightarrow> word_bytes (w p) ! unat (a - patch_address p))"

definition no_wrap :: "Range \<Rightarrow> bool" where
  "no_wrap r \<longleftrightarrow> unat (r_begin r) + unat (r_size r) < 2 ^ 64"

definition separate_patches :: "HybrisTlsPatch list \<Rightarrow> bool" where
  "separate_patches ps \<longleftrightarrow>
     sorted_wrt (\<lambda>p q. unat (patch_address p) + 4 \<le> unat (patch_address q)) ps \<and>
     (\<forall>p \<in> set ps. unat (patch_address p) + 4 < 2 ^ 64)"

section \<open>Bytes in memory\<close>

lemma mem_bytes_upt: "mem_bytes m a n = map (\<lambda>x. m (of_nat x)) [unat a..<unat a + unat n]"
proof -
  have "map (\<lambda>x. m (of_nat x)) [unat a..<unat a + unat n] = map (\<lambda>i. m (of_nat (unat a + i))) [0..<unat n]"
    by (rule nth_equalityI) simp_all
  then show ?thesis by (simp add: mem_bytes_def)
qed

lemma covers_iff:
  assumes "x < 2 ^ 64" "unat (patch_address p) + 4 < 2 ^ 64"
  shows "covers (of_nat x) p \<longleftrightarrow> unat (patch_address p) \<le> x \<and> x < unat (patch_address p) + 4"
proof (cases "unat (patch_address p) \<le> x")
  case True
  then have "unat (of_nat x - patch_address p) = x - unat (patch_address p)"
    using assms(1) by (simp add: unat_sub word_le_nat_alt unat_of_nat64)
  with True show ?thesis by (auto simp: covers_def)
next
  case False
  let ?a = "of_nat x :: u64" and ?b = "patch_address p"
  have "unat (?a - ?b) = 2 ^ 64 + x - unat ?b"
    using False assms by (simp add: unat_sub_if' unat_of_nat64)
  with False assms show ?thesis by (simp add: covers_def)
qed

lemma image_none: "(\<And>p. p \<in> set ps \<Longrightarrow> \<not> covers a p) \<Longrightarrow> patched_image m w ps a = m a"
  using find_None_iff[of "covers a" ps] by (simp add: patched_image_def)

lemma image_skip: "\<not> covers a p \<Longrightarrow> patched_image m w (p # ps) a = patched_image m w ps a"
  by (simp add: patched_image_def)

lemma image_hit: "covers a p \<Longrightarrow> patched_image m w (p # ps) a = word_bytes (w p) ! unat (a - patch_address p)"
  by (simp add: patched_image_def)

lemma length_word_bytes [simp]: "length (word_bytes w) = 4"
  by (simp add: word_bytes_def)

lemma image_word:
  assumes "unat (patch_address p) + 4 < 2 ^ 64"
  shows "map (\<lambda>x. patched_image m w (p # ps) (of_nat x)) [unat (patch_address p)..<unat (patch_address p) + 4] = word_bytes (w p)"
proof (rule nth_equalityI)
  fix i assume i: "i < length (map (\<lambda>x. patched_image m w (p # ps) (of_nat x)) [unat (patch_address p)..<unat (patch_address p) + 4])"
  let ?x = "unat (patch_address p) + i"
  have "covers (of_nat ?x) p" using i assms by (subst covers_iff) auto
  moreover have "unat (of_nat ?x - patch_address p) = i" using i by (simp add: unat_of_nat64)
  ultimately show "map (\<lambda>x. patched_image m w (p # ps) (of_nat x)) [unat (patch_address p)..<unat (patch_address p) + 4] ! i =
    word_bytes (w p) ! i" using i by (simp add: image_hit)
qed simp

lemma not_overlaps_patch:
  assumes "\<not> overlaps rng \<lparr>r_begin = patch_address p, r_size = 4\<rparr>" "no_wrap rng" "unat (patch_address p) + 4 < 2 ^ 64"
    and "unat (r_begin rng) \<le> x" "x < unat (r_begin rng) + unat (r_size rng)"
  shows "\<not> covers (of_nat x) p"
proof -
  have "unat (patch_address p + 4) = unat (patch_address p) + 4" using assms(3) by (subst unat_add64) simp_all
  moreover have "unat (r_begin rng + r_size rng) = unat (r_begin rng) + unat (r_size rng)"
    using assms(2) by (intro unat_add64) (simp add: no_wrap_def)
  ultimately show ?thesis using assms
    by (subst covers_iff) (auto simp: overlaps_def word_less_nat_alt no_wrap_def)
qed

lemma map_image_split:
  assumes "separate_patches (p # ps)" "c \<le> unat (patch_address p)" "unat (patch_address p) + 4 \<le> e" "e < 2 ^ 64"
  shows "map (\<lambda>x. patched_image m w (p # ps) (of_nat x)) [c..<e] =
    map (\<lambda>x. m (of_nat x)) [c..<unat (patch_address p)] @ word_bytes (w p) @
    map (\<lambda>x. patched_image m w ps (of_nat x)) [unat (patch_address p) + 4..<e]"
proof -
  let ?a = "unat (patch_address p)"
  have "[c..<e] = [c..<?a] @ [?a..<?a + 4] @ [?a + 4..<e]"
    using assms(2,3) by (metis upt_add_eq_append le_add_diff_inverse trans_le_add1 le_add1)
  moreover have "map (\<lambda>x. patched_image m w (p # ps) (of_nat x)) [c..<?a] = map (\<lambda>x. m (of_nat x)) [c..<?a]"
  proof (rule map_cong[OF refl])
    fix x assume "x \<in> set [c..<?a]"
    then show "patched_image m w (p # ps) (of_nat x) = m (of_nat x)"
      using assms by (intro image_none) (subst covers_iff, auto simp: separate_patches_def)
  qed
  moreover have "map (\<lambda>x. patched_image m w (p # ps) (of_nat x)) [?a + 4..<e] = map (\<lambda>x. patched_image m w ps (of_nat x)) [?a + 4..<e]"
    using assms by (intro map_cong[OF refl] image_skip) (subst covers_iff, auto simp: separate_patches_def)
  moreover have "map (\<lambda>x. patched_image m w (p # ps) (of_nat x)) [?a..<?a + 4] = word_bytes (w p)"
    using assms(1) by (intro image_word) (simp add: separate_patches_def)
  ultimately show ?thesis by simp
qed

section \<open>The computed hashes\<close>

lemma hmac_bytes_rep: "sha_rep h msg \<Longrightarrow> sha_rep (hmac_bytes h bs) (msg @ bs)"
  by (simp add: hmac_bytes_def sha.update_represents)

lemma hmac_length_rep: "sha_rep h msg \<Longrightarrow> sha_rep (hmac_length h n) (msg @ le64 n)"
  by (simp add: hmac_length_def hmac_bytes_rep)

lemma hash_patches_image:
  assumes "hash_patches m rng original ps cursor h = Some (c', h')" "sha_rep h msg" "separate_patches ps" "no_wrap rng"
    and "unat (r_begin rng) \<le> unat cursor" "unat cursor \<le> unat (r_begin rng) + unat (r_size rng)"
  shows "\<exists>msg'. sha_rep h' msg' \<and> unat c' \<le> unat (r_begin rng) + unat (r_size rng) \<and>
    msg' @ map (\<lambda>x. m (of_nat x)) [unat c'..<unat (r_begin rng) + unat (r_size rng)] =
    msg @ map (\<lambda>x. patched_image m (patch_word original) ps (of_nat x)) [unat cursor..<unat (r_begin rng) + unat (r_size rng)]"
  using assms
proof (induction m rng original ps cursor h arbitrary: msg rule: hash_patches.induct)
  case (1 m rng original cursor h)
  then show ?case by (auto simp: patched_image_def)
next
  case (2 m rng original p ps cursor h)
  let ?e = "unat (r_begin rng) + unat (r_size rng)" and ?a = "unat (patch_address p)"
  have sep: "separate_patches ps" and pa: "?a + 4 < 2 ^ 64" using "2.prems"(3) by (auto simp: separate_patches_def)
  have e: "unat (r_begin rng + r_size rng) = ?e" "?e < 2 ^ 64"
    using "2.prems"(4) by (auto simp: no_wrap_def unat_add64)
  show ?case
  proof (cases "overlaps rng \<lparr>r_begin = patch_address p, r_size = 4\<rparr>")
    case False
    have eq: "map (\<lambda>x. patched_image m (patch_word original) (p # ps) (of_nat x)) [unat cursor..<?e] =
      map (\<lambda>x. patched_image m (patch_word original) ps (of_nat x)) [unat cursor..<?e]"
      using "2.prems"(5) by (intro map_cong[OF refl] image_skip not_overlaps_patch[OF False "2.prems"(4) pa]) auto
    have "hash_patches m rng original ps cursor h = Some (c', h')" using "2.prems"(1) False by simp
    from "2.IH"(1)[OF refl False this "2.prems"(2) sep "2.prems"(4-6)] show ?thesis unfolding eq .
  next
    case True
    let ?h2 = "hmac_bytes (hmac_bytes h (mem_bytes m cursor (patch_address p - cursor))) (word_bytes (patch_word original p))"
    have ok: "\<not> (patch_address p < cursor \<or> r_begin rng + r_size rng - patch_address p < 4)"
      and rest: "hash_patches m rng original ps (patch_address p + 4) ?h2 = Some (c', h')"
      using "2.prems"(1) True by (auto simp: Let_def split: if_splits)
    have le: "unat cursor \<le> ?a" using ok by (simp add: not_less word_le_nat_alt)
    have "?a < ?e" using True e pa by (simp add: overlaps_def word_less_nat_alt)
    then have "unat (r_begin rng + r_size rng - patch_address p) = ?e - ?a"
      using e by (subst unat_sub) (auto simp: word_le_nat_alt)
    with ok \<open>?a < ?e\<close> have fit: "?a + 4 \<le> ?e" by (auto simp: word_less_nat_alt)
    have a4: "unat (patch_address p + 4) = ?a + 4" using pa by (subst unat_add64) simp_all
    have gap: "mem_bytes m cursor (patch_address p - cursor) = map (\<lambda>x. m (of_nat x)) [unat cursor..<?a]"
      using le by (simp add: mem_bytes_upt unat_sub word_le_nat_alt)
    have rep: "sha_rep ?h2 (msg @ map (\<lambda>x. m (of_nat x)) [unat cursor..<?a] @ word_bytes (patch_word original p))"
      using hmac_bytes_rep[OF hmac_bytes_rep[OF "2.prems"(2)], of "mem_bytes m cursor (patch_address p - cursor)"
          "word_bytes (patch_word original p)"] by (simp add: gap)
    have "unat (r_begin rng) \<le> unat (patch_address p + 4)" "unat (patch_address p + 4) \<le> ?e"
      using a4 fit le "2.prems"(5) by simp_all
    from "2.IH"(2)[OF refl _ ok refl refl rest rep sep "2.prems"(4) this] True
    show ?thesis
      unfolding map_image_split[OF "2.prems"(3) le fit e(2)] a4 by simp
  qed
qed

lemma hash_range_image:
  assumes "hash_range m h rng ps original = Some h'" "sha_rep h msg" "separate_patches ps" "no_wrap rng"
  shows "sha_rep h' (msg @ mem_bytes (patched_image m (patch_word original) ps) (r_begin rng) (r_size rng))"
proof -
  let ?e = "unat (r_begin rng) + unat (r_size rng)"
  from assms(1) obtain c h1 where run: "hash_patches m rng original ps (r_begin rng) h = Some (c, h1)"
    and h': "h' = hmac_bytes h1 (mem_bytes m c (r_begin rng + r_size rng - c))"
    by (auto simp: hash_range_def split: option.splits)
  from hash_patches_image[OF run assms(2-4)] obtain msg' where
    rep: "sha_rep h1 msg'" and c: "unat c \<le> ?e" and
    eq: "msg' @ map (\<lambda>x. m (of_nat x)) [unat c..<?e] =
      msg @ map (\<lambda>x. patched_image m (patch_word original) ps (of_nat x)) [unat (r_begin rng)..<?e]" by auto
  have "unat (r_begin rng + r_size rng) = ?e" using assms(4) by (auto simp: no_wrap_def unat_add64)
  then have "unat (r_begin rng + r_size rng - c) = ?e - unat c" using c by (subst unat_sub) (simp_all add: word_le_nat_alt)
  then have "mem_bytes m c (r_begin rng + r_size rng - c) = map (\<lambda>x. m (of_nat x)) [unat c..<?e]"
    using c by (simp add: mem_bytes_upt)
  then have "sha_rep h' (msg' @ map (\<lambda>x. m (of_nat x)) [unat c..<?e])"
    using hmac_bytes_rep[OF rep, of "mem_bytes m c (r_begin rng + r_size rng - c)"] by (simp only: h')
  then show ?thesis unfolding eq mem_bytes_upt .
qed

lemma ModuleHmac_rep: "length garbage = 64 \<Longrightarrow> sha_rep (ModuleHmac garbage) (replicate 64 0x36)"
  using sha.update_represents[OF sha.init_represents, of garbage "replicate 64 0x36"] by (simp add: ModuleHmac_def)

lemma hmac_finish_spec:
  assumes "length garbage = 64" "sha_rep h (replicate 64 0x36 @ msg)"
  shows "hmac_finish garbage h = hmac_sha256 msg"
proof -
  have "hybris_sha256_out (foldl hybris_sha256_update (hybris_sha256_init garbage) [replicate 64 0x5c, hybris_sha256_out h]) =
    fips_sha256 (replicate 64 0x5c @ hybris_sha256_out h)"
    using sha.digest_of_parts[OF assms(1), of "[replicate 64 0x5c, hybris_sha256_out h]"] by simp
  then show ?thesis using sha.out_digest[OF assms(2)] by (simp add: hmac_finish_def hmac_sha256_def Let_def)
qed

lemma hash_module_spec:
  assumes "hash_module garbage m t ro ps original = Some d" "length garbage = 64" "separate_patches ps" "no_wrap t" "no_wrap ro"
  shows "d = hmac_sha256 (module_message (patched_image m (patch_word original) ps) t ro)"
proof (cases "r_size ro = 0")
  case True
  with assms(1) obtain h1 where "hash_range m (ModuleHmac garbage) t ps original = Some h1" "d = hmac_finish garbage h1"
    by (auto simp: hash_module_def Let_def split: option.splits)
  with hash_range_image[OF _ ModuleHmac_rep[OF assms(2)] assms(3,4)] hmac_finish_spec[OF assms(2)] True
  show ?thesis by (simp add: module_message_def)
next
  case False
  with assms(1) obtain h1 h2 where
    1: "hash_range m (hmac_length (ModuleHmac garbage) (r_size t)) t ps original = Some h1" and
    2: "hash_range m (hmac_length h1 (r_size ro)) ro ps original = Some h2" and d: "d = hmac_finish garbage h2"
    by (auto simp: hash_module_def Let_def split: option.splits)
  note r1 = hash_range_image[OF 1 hmac_length_rep[OF ModuleHmac_rep[OF assms(2)]] assms(3,4)]
  note r2 = hash_range_image[OF 2 hmac_length_rep[OF r1] assms(3,5)]
  have "sha_rep h2 (replicate 64 0x36 @ module_message (patched_image m (patch_word original) ps) t ro)"
    using r2 False by (simp add: module_message_def)
  from hmac_finish_spec[OF assms(2) this] d show ?thesis by simp
qed

section \<open>The checks\<close>

lemma fold_or_zero: "fold (\<lambda>i d. d OR f i) xs d = 0 \<longleftrightarrow> d = (0 :: u8) \<and> (\<forall>i \<in> set xs. f i = 0)"
  by (induction xs arbitrary: d) (auto simp: or_eq_0_iff)

lemma xor_zero: "(x :: u8) XOR y = 0 \<longleftrightarrow> x = y"
  by (metis xor.assoc xor_self_eq xor.right_neutral xor.left_neutral)

lemma equal_hash_iff: "length a = 32 \<Longrightarrow> length b = 32 \<Longrightarrow> equal_hash a b \<longleftrightarrow> a = b"
  by (auto simp: equal_hash_def fold_or_zero xor_zero list_eq_iff_nth_eq)

lemma mapped_range_no_wrap: "mapped_range si rng req forb \<Longrightarrow> no_wrap rng"
proof -
  assume "mapped_range si rng req forb"
  then have "r_begin rng \<le> UINTPTR_MAX - r_size rng" by (simp add: mapped_range_def not_less)
  moreover have "unat (UINTPTR_MAX - r_size rng) = 2 ^ 64 - 1 - unat (r_size rng)"
  proof -
    have "unat UINTPTR_MAX = 2 ^ 64 - 1" by (simp add: UINTPTR_MAX_def)
    moreover have "unat (r_size rng) < 2 ^ 64" using unsigned_less[of "r_size rng", where ?'a = nat] by simp
    ultimately show ?thesis by (subst unat_sub) (simp_all add: word_le_nat_alt)
  qed
  moreover have "unat (r_size rng) < 2 ^ 64" using unsigned_less[of "r_size rng", where ?'a = nat] by simp
  ultimately show "no_wrap rng" by (simp add: no_wrap_def word_le_nat_alt)
qed

lemma check_journal_separate:
  "check_journal si m ps pe = None \<Longrightarrow>
   separate_patches ps \<and> (\<forall>p \<in> set ps. unat pe \<le> unat (patch_address p) \<and>
     mem_bytes m (patch_address p) 4 = word_bytes (patch_replacement p))"
proof (induction ps arbitrary: pe)
  case (Cons p ps)
  from Cons.prems have r: "mapped_range si \<lparr>r_begin = patch_address p, r_size = 4\<rparr> PF_X PF_W"
    and pe: "\<not> patch_address p < pe" and rest: "check_journal si m ps (patch_address p + 4) = None"
    and here: "mem_bytes m (patch_address p) 4 = word_bytes (patch_replacement p)"
    by (auto split: if_splits)
  have lt: "unat (patch_address p) + 4 < 2 ^ 64" using mapped_range_no_wrap[OF r] by (simp add: no_wrap_def)
  then have a4: "unat (patch_address p + 4) = unat (patch_address p) + 4" by (subst unat_add64) simp_all
  from Cons.IH[OF rest] lt a4 pe here show ?case
    by (fastforce simp: separate_patches_def not_less word_le_nat_alt)
qed (simp add: separate_patches_def)

lemma image_replacement:
  assumes "\<forall>p \<in> set ps. mem_bytes m (patch_address p) 4 = word_bytes (patch_replacement p)"
  shows "patched_image m (patch_word False) ps = m"
proof (rule ext)
  fix a
  show "patched_image m (patch_word False) ps a = m a"
  proof (cases "find (covers a) ps")
    case (Some p)
    then have p: "p \<in> set ps" and c: "unat (a - patch_address p) < 4"
      by (auto simp: find_Some_iff covers_def)
    have "word_bytes (patch_replacement p) ! unat (a - patch_address p) =
      mem_bytes m (patch_address p) 4 ! unat (a - patch_address p)" using assms p by simp
    also have "\<dots> = m a" using c by (simp add: mem_bytes_def)
    finally show ?thesis using Some by (simp add: patched_image_def patch_word_def)
  qed (simp add: patched_image_def)
qed

lemma length_sha256 [simp]: "length (fips_sha256 msg) = 32"
proof -
  have "length (fips_absorb br_sha256_IV (fips_pad msg)) = 8" by (rule length_absorb) (simp add: br_sha256_IV_def)
  then show ?thesis
    by (simp add: fips_sha256_def br_range_enc32be_def length_concat comp_def sum_list_triv)
qed

lemma mem_bytes_store_same:
  "length bs = 32 \<Longrightarrow> mem_bytes (store_bytes m a bs) a 32 = bs"
  by (rule nth_equalityI) (simp_all add: mem_bytes_def store_bytes_def unat_of_nat64)

lemma mem_bytes_store_disjoint:
  assumes "\<not> overlaps \<lparr>r_begin = a, r_size = 32\<rparr> rng" "no_wrap rng" "no_wrap \<lparr>r_begin = a, r_size = 32\<rparr>" "length bs = 32"
  shows "mem_bytes (store_bytes m a bs) (r_begin rng) (r_size rng) = mem_bytes m (r_begin rng) (r_size rng)"
  unfolding mem_bytes_upt
proof (rule map_cong[OF refl])
  fix x assume x: "x \<in> set [unat (r_begin rng)..<unat (r_begin rng) + unat (r_size rng)]"
  have u: "unat (r_begin rng + r_size rng) = unat (r_begin rng) + unat (r_size rng)" "unat (a + 32) = unat a + 32"
    using assms(2,3) by (auto simp: no_wrap_def unat_add64)
  have lt: "x < 2 ^ 64" using x assms(2) by (simp add: no_wrap_def)
  have "x < unat a \<or> unat a + 32 \<le> x"
    using assms(1) x u by (auto simp: overlaps_def word_less_nat_alt)
  then have "\<not> unat (of_nat x - a) < 32"
  proof
    assume "x < unat a"
    then have "unat (of_nat x - a) = 2 ^ 64 + x - unat a" using lt by (simp add: unat_sub_if' unat_of_nat64)
    then show ?thesis using assms(3) by (simp add: no_wrap_def)
  next
    assume "unat a + 32 \<le> x"
    then have "unat (of_nat x - a) = x - unat a" using lt by (simp add: unat_sub word_le_nat_alt unat_of_nat64)
    with \<open>unat a + 32 \<le> x\<close> show ?thesis by simp
  qed
  then show "store_bytes m a bs (of_nat x) = m (of_nat x)" using assms(4) by (simp add: store_bytes_def)
qed

lemma module_message_store:
  assumes "\<not> overlaps \<lparr>r_begin = a, r_size = 32\<rparr> t" "\<not> (r_size ro \<noteq> 0 \<and> overlaps \<lparr>r_begin = a, r_size = 32\<rparr> ro)"
    "no_wrap t" "no_wrap ro" "no_wrap \<lparr>r_begin = a, r_size = 32\<rparr>" "length bs = 32"
  shows "module_message (store_bytes m a bs) t ro = module_message m t ro"
  using mem_bytes_store_disjoint[OF assms(1,3,5,6)] mem_bytes_store_disjoint[OF _ assms(4-6)] assms(2)
  by (auto simp: module_message_def)

lemma write_hash_result:
  "write_hash os si a bs m = (m', Inr ()) \<Longrightarrow> m' = store_bytes m a bs"
  "write_hash os si a bs m = (m', Inl e) \<Longrightarrow> e \<noteq> CannotReprotect \<Longrightarrow> m' = m"
  by (auto simp: write_hash_def Let_def split: if_splits option.splits)

lemma text_range_no_wrap: "text_range si a b g = Inr t \<Longrightarrow> no_wrap t"
  by (auto simp: text_range_def Let_def split: if_splits intro: mapped_range_no_wrap)

lemma rodata_range_no_wrap: "rodata_range si t = Inr ro \<Longrightarrow> no_wrap ro"
  by (auto simp: rodata_range_def Let_def split: if_splits intro: mapped_range_no_wrap) (simp add: no_wrap_def)

text \<open>The stored hash of a module, its text and its read-only data.\<close>

definition self_test :: "byte_mem \<Rightarrow> Range \<Rightarrow> Range \<Rightarrow> u64 \<Rightarrow> bool" where
  "self_test m t ro expected \<longleftrightarrow> mem_bytes m expected 32 = hmac_sha256 (module_message m t ro)"

lemma relocate_hash_correct:
  assumes run: "relocate_hash garbage os si getter t ro ps m = (m', Inr ())"
    and g: "length garbage = 64" and sep: "separate_patches ps"
    and act: "\<forall>p \<in> set ps. mem_bytes m (patch_address p) 4 = word_bytes (patch_replacement p)"
    and nw: "no_wrap t" "no_wrap ro"
  shows "\<exists>expected. mem_bytes m expected 32 = hmac_sha256 (module_message (patched_image m patch_original ps) t ro) \<and>
    self_test m' t ro expected \<and> (\<forall>a. \<not> unat (a - expected) < 32 \<longrightarrow> m' a = m a) \<and>
    \<not> overlaps \<lparr>r_begin = expected, r_size = 32\<rparr> t"
proof -
  from run obtain orig reloc e where
    o: "hash_module garbage m t ro ps True = Some orig" and r: "hash_module garbage m t ro ps False = Some reloc" and
    mp: "mapped_range si \<lparr>r_begin = e, r_size = 32\<rparr> PF_R (PF_W OR PF_X)" and
    dis: "\<not> overlaps \<lparr>r_begin = e, r_size = 32\<rparr> t" "\<not> (r_size ro \<noteq> 0 \<and> overlaps \<lparr>r_begin = e, r_size = 32\<rparr> ro)" and
    eqo: "equal_hash orig (mem_bytes m e 32)" and
    fin: "equal_hash reloc (mem_bytes m e 32) \<and> m' = m \<or> write_hash os si e reloc m = (m', Inr ())"
    by (auto simp: relocate_hash_def Let_def split: if_splits option.splits)
  have pw: "patch_word True = patch_original" by (rule ext) (simp add: patch_word_def)
  have orig: "orig = hmac_sha256 (module_message (patched_image m patch_original ps) t ro)"
    using hash_module_spec[OF o g sep nw] by (simp add: pw)
  have reloc: "reloc = hmac_sha256 (module_message m t ro)"
    using hash_module_spec[OF r g sep nw] by (simp add: image_replacement[OF act])
  have len: "length orig = 32" "length reloc = 32" "length (mem_bytes m e 32) = 32"
    by (simp_all add: orig reloc hmac_sha256_def mem_bytes_def)
  have nwe: "no_wrap \<lparr>r_begin = e, r_size = 32\<rparr>" by (rule mapped_range_no_wrap[OF mp])
  have "self_test m' t ro e \<and> (\<forall>a. \<not> unat (a - e) < 32 \<longrightarrow> m' a = m a)"
    using fin
  proof
    assume "equal_hash reloc (mem_bytes m e 32) \<and> m' = m"
    then show ?thesis using equal_hash_iff[OF len(2,3)] reloc by (simp add: self_test_def)
  next
    assume "write_hash os si e reloc m = (m', Inr ())"
    then have m': "m' = store_bytes m e reloc" by (rule write_hash_result(1))
    then show ?thesis
      using len(2) module_message_store[OF dis nw nwe len(2)] reloc mem_bytes_store_same[OF len(2)]
      by (simp add: self_test_def store_bytes_def)
  qed
  then show ?thesis using eqo equal_hash_iff[OF len(1,3)] orig dis(1) by metis
qed

section \<open>Properties\<close>

text \<open>
  C9: A module with integrity metadata and a non-empty journal is relocated only when the hash
  stored in it is the HMAC of the original image, that is of memory with the recorded originals in
  place. Afterwards the stored hash is the HMAC of the module as it now is in memory, so that the
  module's own self-test passes, and no byte outside the 32 bytes of the hash, which lie outside the
  protected text, has changed.
\<close>

theorem integrity_relocation_correct:
  assumes "hybris_relocate_module_integrity garbage os si jrn m = (m', Inr ())" and "length garbage = 64"
    and "jrn \<noteq> []" and "symbol si ''BORINGSSL_bcm_text_start'' \<noteq> None"
  shows "\<exists>t ro expected.
    text_range si (symbol si ''BORINGSSL_bcm_text_start'') (symbol si ''BORINGSSL_bcm_text_end'')
      (symbol si ''FIPS_module_hash'') = Inr t \<and> rodata_range si t = Inr ro \<and>
    mem_bytes m expected 32 =
      hmac_sha256 (module_message (patched_image m patch_original (sort_key patch_address jrn)) t ro) \<and>
    self_test m' t ro expected \<and> (\<forall>a. \<not> unat (a - expected) < 32 \<longrightarrow> m' a = m a) \<and>
    \<not> overlaps \<lparr>r_begin = expected, r_size = 32\<rparr> t"
proof -
  let ?ps = "sort_key patch_address jrn"
  from assms(1,3,4) obtain t ro where
    t: "text_range si (symbol si ''BORINGSSL_bcm_text_start'') (symbol si ''BORINGSSL_bcm_text_end'')
      (symbol si ''FIPS_module_hash'') = Inr t" and ro: "rodata_range si t = Inr ro" and
    j: "check_journal si m ?ps 0 = None" and
    run: "relocate_hash garbage os si (symbol si ''FIPS_module_hash'') t ro ?ps m = (m', Inr ())"
    by (auto simp: hybris_relocate_module_integrity_def Let_def split: sum.splits option.splits)
  have sep: "separate_patches ?ps" and act: "\<forall>p \<in> set ?ps. mem_bytes m (patch_address p) 4 = word_bytes (patch_replacement p)"
    using check_journal_separate[OF j] by blast+
  from relocate_hash_correct[OF run assms(2) sep act text_range_no_wrap[OF t] rodata_range_no_wrap[OF ro]] t ro
  show ?thesis by blast
qed

definition demo_patch :: HybrisTlsPatch where
  "demo_patch = \<lparr>patch_address = 0x1000, patch_original = 0xd53bd043, patch_replacement = 0x14000400\<rparr>"

definition demo_si :: soinfo where
  "demo_si = \<lparr>si_phdr = [\<lparr>p_type = 1, p_flags = 5, p_offset = 0x1000, p_vaddr = 0x1000, p_filesz = 0x1000, p_memsz = 0x1000\<rparr>,
      \<lparr>p_type = 1, p_flags = 4, p_offset = 0x3000, p_vaddr = 0x3000, p_filesz = 0x1000, p_memsz = 0x1000\<rparr>],
     si_load_bias = 0,
     si_find_symbol = (\<lambda>n. if n = ''BORINGSSL_bcm_text_start'' then Some \<lparr>st_value = 0x1000, st_size = 0, st_info = 0, st_shndx = 1\<rparr>
       else if n = ''BORINGSSL_bcm_text_end'' then Some \<lparr>st_value = 0x1008, st_size = 0, st_info = 0, st_shndx = 1\<rparr>
       else if n = ''FIPS_module_hash'' then Some \<lparr>st_value = 0x1800, st_size = 16, st_info = 2, st_shndx = 1\<rparr>
       else None)\<rparr>"

definition demo_integrity_os :: integrity_os where
  "demo_integrity_os = \<lparr>io_get_hash = (\<lambda>f. 0x3000), io_page_size = 4096,
     io_unprotect = (\<lambda>a n. True), io_reprotect = (\<lambda>a n. True)\<rparr>"

abbreviation demo_text :: Range where
  "demo_text \<equiv> \<lparr>r_begin = 0x1000, r_size = 8\<rparr>"

abbreviation demo_no_rodata :: Range where
  "demo_no_rodata \<equiv> \<lparr>r_begin = 0, r_size = 0\<rparr>"

definition demo_code :: byte_mem where
  "demo_code = store_bytes (\<lambda>a. 0) 0x1000 (word_bytes 0x14000400)"

definition demo_signed :: byte_mem where
  "demo_signed = store_bytes demo_code 0x3000
     (hmac_sha256 (module_message (patched_image demo_code patch_original [demo_patch]) demo_text demo_no_rodata))"

lemma length_hmac [simp]: "length (hmac_sha256 msg) = 32"
  by (simp add: hmac_sha256_def)

lemmas integrity_ranges = text_range_def rodata_range_def symbol_def address_def mapped_range_def segment_contains_def
  overlaps_def elf_consts UINTPTR_MAX_def SHN_UNDEF_def SHN_ABS_def demo_si_def

lemma demo_text_range:
  "text_range demo_si (symbol demo_si ''BORINGSSL_bcm_text_start'') (symbol demo_si ''BORINGSSL_bcm_text_end'')
     (symbol demo_si ''FIPS_module_hash'') = Inr demo_text"
  by (simp add: integrity_ranges Let_def)

lemma demo_rodata_range: "rodata_range demo_si demo_text = Inr demo_no_rodata"
  by (simp add: integrity_ranges Let_def)

lemma demo_journal: "check_journal demo_si demo_signed [demo_patch] 0 = None"
proof -
  have "mem_bytes demo_signed 0x1000 4 = word_bytes 0x14000400"
    by (simp add: mem_bytes_def demo_signed_def demo_code_def store_bytes_def upt_rec word_bytes_def)
  then show ?thesis
    by (simp add: demo_patch_def mapped_range_def segment_contains_def elf_consts UINTPTR_MAX_def demo_si_def hybris_is_tls_mrs_def)
qed

lemma demo_hash: "\<exists>d. hash_module (replicate 64 0) demo_signed demo_text demo_no_rodata [demo_patch] original = Some d"
  by (simp add: hash_module_def hash_range_def demo_patch_def overlaps_def)

lemma demo_relocates:
  "\<exists>m'. hybris_relocate_module_integrity (replicate 64 0) demo_integrity_os demo_si [demo_patch] demo_signed = (m', Inr ())"
proof -
  obtain orig reloc where o: "hash_module (replicate 64 0) demo_signed demo_text demo_no_rodata [demo_patch] True = Some orig"
    and r: "hash_module (replicate 64 0) demo_signed demo_text demo_no_rodata [demo_patch] False = Some reloc"
    using demo_hash by blast
  have sep: "separate_patches [demo_patch]" by (simp add: separate_patches_def demo_patch_def)
  have "orig = hmac_sha256 (module_message (patched_image demo_signed (patch_word True) [demo_patch]) demo_text demo_no_rodata)"
    by (rule hash_module_spec[OF o _ sep]) (simp_all add: no_wrap_def)
  also have "module_message (patched_image demo_signed (patch_word True) [demo_patch]) demo_text demo_no_rodata =
    module_message (patched_image demo_code patch_original [demo_patch]) demo_text demo_no_rodata"
    by (simp add: module_message_def mem_bytes_def upt_rec patched_image_def covers_def demo_patch_def patch_word_def
        demo_signed_def store_bytes_def)
  finally have "orig = mem_bytes demo_signed 0x3000 32"
    by (simp add: demo_signed_def mem_bytes_store_same)
  then have eo: "equal_hash orig (mem_bytes demo_signed 0x3000 32)" by (simp add: equal_hash_iff mem_bytes_def)
  have "\<exists>m'. write_hash demo_integrity_os demo_si 0x3000 reloc demo_signed = (m', Inr ())"
    by (simp add: write_hash_def demo_integrity_os_def demo_si_def elf_consts UINTPTR_MAX_def overlaps_def Let_def)
  then have "\<exists>m'. relocate_hash (replicate 64 0) demo_integrity_os demo_si (symbol demo_si ''FIPS_module_hash'')
      demo_text demo_no_rodata [demo_patch] demo_signed = (m', Inr ())"
    using eo by (simp add: relocate_hash_def o r Let_def integrity_ranges demo_integrity_os_def)
  then show ?thesis
    using demo_text_range demo_rodata_range demo_journal
    by (simp add: hybris_relocate_module_integrity_def Let_def)
qed

theorem integrity_relocation_correct_witness:
  "\<exists>m' expected. hybris_relocate_module_integrity (replicate 64 0) demo_integrity_os demo_si [demo_patch] demo_signed = (m', Inr ()) \<and>
     self_test m' demo_text demo_no_rodata expected"
proof -
  obtain m' where run: "hybris_relocate_module_integrity (replicate 64 0) demo_integrity_os demo_si [demo_patch] demo_signed = (m', Inr ())"
    using demo_relocates by blast
  have "symbol demo_si ''BORINGSSL_bcm_text_start'' \<noteq> None" by (simp add: symbol_def demo_si_def SHN_UNDEF_def SHN_ABS_def UINTPTR_MAX_def)
  from integrity_relocation_correct[OF run _ _ this] run demo_text_range demo_rodata_range show ?thesis by auto
qed

text \<open>
  A relocation that fails leaves memory as it was, whatever the reason, except that the new
  hash is already in place when only the protection of its page could not be restored.
\<close>

theorem integrity_failure_keeps_memory:
  assumes "hybris_relocate_module_integrity garbage os si jrn m = (m', Inl e)" and "e \<noteq> CannotReprotect"
  shows "m' = m"
  using assms
  by (auto simp: hybris_relocate_module_integrity_def relocate_hash_def Let_def dest: write_hash_result(2)
      split: if_splits sum.splits option.splits)

theorem integrity_failure_keeps_memory_witness:
  "hybris_relocate_module_integrity (replicate 64 0) demo_integrity_os
     (demo_si\<lparr>si_find_symbol := (\<lambda>n. if n = ''FIPS_module_hash'' then si_find_symbol demo_si n else None)\<rparr>)
     [demo_patch] demo_code = (demo_code, Inl LacksMetadata)"
proof -
  obtain m' where run: "hybris_relocate_module_integrity (replicate 64 0) demo_integrity_os
     (demo_si\<lparr>si_find_symbol := (\<lambda>n. if n = ''FIPS_module_hash'' then si_find_symbol demo_si n else None)\<rparr>)
     [demo_patch] demo_code = (m', Inl LacksMetadata)"
    by (simp add: hybris_relocate_module_integrity_def text_range_def symbol_def demo_si_def SHN_UNDEF_def SHN_ABS_def
        UINTPTR_MAX_def)
  from integrity_failure_keeps_memory[OF run] run show ?thesis by simp
qed

end
