(* ===== verification/Bionic_Tls.thy ===== *)
theory Bionic_Tls
  imports Hybris_Prelude
begin

text \<open>
  Thread-local storage for Android code: \<open>hybris/common/bionic_tls.c\<close>.  Every thread has an arena of
  bytes; the registry lists the modules whose initial data a thread must have copied before it
  reads their variables.  The host's allocations and thread-key calls are answers in \<open>tls_host\<close>;
  each \<open>abort()\<close> is a value of \<open>tls_abort\<close>.  The last part interleaves the operations of several
  threads as atomic steps under the registry's mutex.
\<close>

section \<open>Definitions\<close>

definition BIONIC_TLS_RESERVE_SIZE :: nat where "BIONIC_TLS_RESERVE_SIZE = 16 * 1024 * 1024"
definition BIONIC_TPIDR_OFFSET :: nat where "BIONIC_TPIDR_OFFSET = 8"
definition BIONIC_TLS_PTR_OFFSET :: nat where "BIONIC_TLS_PTR_OFFSET = 0"
definition BIONIC_THREAD_ID_PTR_OFFSET :: nat where "BIONIC_THREAD_ID_PTR_OFFSET = BIONIC_TPIDR_OFFSET + 8"
definition BIONIC_PTHREAD_SHADOW_SIZE :: nat where "BIONIC_PTHREAD_SHADOW_SIZE = 8192"

lemmas tls_consts = BIONIC_TLS_RESERVE_SIZE_def BIONIC_TPIDR_OFFSET_def BIONIC_TLS_PTR_OFFSET_def
  BIONIC_THREAD_ID_PTR_OFFSET_def BIONIC_PTHREAD_SHADOW_SIZE_def

datatype tls_abort =
    KeyCreateFailed | ArenaMapFailed | SetSpecificFailed | StaticTlsOverflow | InvalidPromotedRange
  | NoMemoryTdata | NoMemoryRegistry | NoMemoryBionicTls | NoMemoryShadow

record tls_host =
  th_mmap :: bool
  th_key_create :: int
  th_setspecific :: int
  th_malloc :: bool
  th_realloc :: bool
  th_btls :: u64
  th_shadow :: u64
  th_tid :: u32

record hybris_promoted_tls =
  pt_offset :: nat
  pt_init_data :: "u8 list"
  pt_init_size :: nat
  pt_segment_size :: nat

text \<open>
  The thread-local variables of the file.  The arena is \<open>None\<close> while \<open>bionic_thread_pointer\<close> is
  null; \<open>tt_shadow\<close> is the buffer behind the pointer of slot 1.
\<close>

record thread_tls =
  tt_arena :: "(nat \<Rightarrow> u8) option"
  tt_inited :: bool
  tt_cursor :: nat
  tt_shadow :: "u8 list"

record tls_globals =
  g_entries :: "hybris_promoted_tls list"
  g_capacity :: nat
  g_published :: nat
  g_key_done :: bool

definition fresh_thread :: thread_tls where
  "fresh_thread = \<lparr>tt_arena = None, tt_inited = False, tt_cursor = 0, tt_shadow = []\<rparr>"

text \<open>
  The variables are reset before the shadows are freed and the arena is unmapped, which are effects
  of the host only.
\<close>

definition bionic_tls_cleanup :: "thread_tls \<Rightarrow> thread_tls" where
  "bionic_tls_cleanup t = t\<lparr>tt_arena := None, tt_inited := False, tt_cursor := 0\<rparr>"

definition bionic_tls_key_init :: "tls_host \<Rightarrow> tls_globals \<Rightarrow> tls_abort + tls_globals" where
  "bionic_tls_key_init h g =
     (if g_key_done g then Inr g
      else if th_key_create h \<noteq> 0 then Inl KeyCreateFailed
      else Inr (g\<lparr>g_key_done := True\<rparr>))"

definition hybris_ensure_static_tls ::
    "tls_host \<Rightarrow> tls_globals \<Rightarrow> thread_tls \<Rightarrow> tls_abort + tls_globals \<times> thread_tls" where
  "hybris_ensure_static_tls h g t =
     (if tt_arena t \<noteq> None then Inr (g, t)
      else if \<not> th_mmap h then Inl ArenaMapFailed
      else case bionic_tls_key_init h g of
        Inl e \<Rightarrow> Inl e
      | Inr g' \<Rightarrow>
          if th_setspecific h \<noteq> 0 then Inl SetSpecificFailed
          else Inr (g', t\<lparr>tt_arena := Some (\<lambda>x. 0)\<rparr>))"

text \<open>A range is rejected without computing the sum of its offset and size.\<close>

definition bad_static_range :: "nat \<Rightarrow> nat \<Rightarrow> nat \<Rightarrow> bool" where
  "bad_static_range off init_size segment_size \<longleftrightarrow>
     off > BIONIC_TLS_RESERVE_SIZE \<or> segment_size > BIONIC_TLS_RESERVE_SIZE - off \<or> init_size > segment_size"

definition hybris_apply_static_tls_locked ::
    "tls_host \<Rightarrow> hybris_promoted_tls \<Rightarrow> tls_globals \<Rightarrow> thread_tls \<Rightarrow> tls_abort + tls_globals \<times> thread_tls" where
  "hybris_apply_static_tls_locked h e g t =
     (if bad_static_range (pt_offset e) (pt_init_size e) (pt_segment_size e) then Inl StaticTlsOverflow
      else case hybris_ensure_static_tls h g t of
        Inl a \<Rightarrow> Inl a
      | Inr (g', t') \<Rightarrow>
          Inr (g', if pt_init_size e > 0
                   then t'\<lparr>tt_arena := map_option (\<lambda>m. store_at m (pt_offset e) (take (pt_init_size e) (pt_init_data e))) (tt_arena t')\<rparr>
                   else t'))"

fun apply_entries ::
    "tls_host \<Rightarrow> hybris_promoted_tls list \<Rightarrow> tls_globals \<Rightarrow> thread_tls \<Rightarrow> tls_abort + tls_globals \<times> thread_tls" where
  "apply_entries h [] g t = Inr (g, t)"
| "apply_entries h (e # es) g t =
     (case hybris_apply_static_tls_locked h e g t of
        Inl a \<Rightarrow> Inl a
      | Inr (g', t') \<Rightarrow> apply_entries h es g' t')"

text \<open>The missing entries of a thread: those from its cursor on.\<close>

definition catch_up :: "tls_host \<Rightarrow> tls_globals \<Rightarrow> thread_tls \<Rightarrow> tls_abort + tls_globals \<times> thread_tls" where
  "catch_up h g t =
     (case apply_entries h (drop (tt_cursor t) (g_entries g)) g t of
        Inl a \<Rightarrow> Inl a
      | Inr (g', t') \<Rightarrow> Inr (g', t'\<lparr>tt_cursor := length (g_entries g)\<rparr>))"

definition registry_append ::
    "tls_host \<Rightarrow> hybris_promoted_tls \<Rightarrow> tls_globals \<Rightarrow> tls_abort + tls_globals" where
  "registry_append h e g =
     (if length (g_entries g) = g_capacity g then
        (let new_cap = (if g_capacity g = 0 then 16 else g_capacity g * 2) in
         if \<not> th_realloc h then Inl NoMemoryRegistry
         else Inr (g\<lparr>g_capacity := new_cap, g_entries := g_entries g @ [e]\<rparr>))
      else Inr (g\<lparr>g_entries := g_entries g @ [e]\<rparr>))"

text \<open>
  \<open>init_ptr\<close> is the source segment's bytes, or \<open>None\<close> for a null pointer.
\<close>

definition hybris_init_static_tls_for_thread ::
    "tls_host \<Rightarrow> nat \<Rightarrow> u8 list option \<Rightarrow> nat \<Rightarrow> nat \<Rightarrow> tls_globals \<Rightarrow> thread_tls
      \<Rightarrow> tls_abort + tls_globals \<times> thread_tls" where
  "hybris_init_static_tls_for_thread h off init_ptr init_size segment_size g t =
     (if bad_static_range off init_size segment_size \<or> init_size > 0 \<and> init_ptr = None then Inl InvalidPromotedRange
      else if init_size > 0 \<and> \<not> th_malloc h then Inl NoMemoryTdata
      else
        let owned_init = (if init_size > 0 then take init_size (the init_ptr) else []);
            e = \<lparr>pt_offset = off, pt_init_data = owned_init, pt_init_size = init_size, pt_segment_size = segment_size\<rparr>
        in case registry_append h e g of
             Inl a \<Rightarrow> Inl a
           | Inr g1 \<Rightarrow>
               (case catch_up h g1 t of
                  Inl a \<Rightarrow> Inl a
                | Inr (g2, t2) \<Rightarrow> Inr (g2\<lparr>g_published := length (g_entries g2)\<rparr>, t2)))"

text \<open>The slots of the thread control block are pointers in the arena.\<close>

definition first_init :: "tls_host \<Rightarrow> tls_globals \<Rightarrow> thread_tls \<Rightarrow> tls_abort + tls_globals \<times> thread_tls" where
  "first_init h g t =
     (if tt_inited t then Inr (g, t)
      else case hybris_ensure_static_tls h g t of
        Inl a \<Rightarrow> Inl a
      | Inr (g1, t1) \<Rightarrow>
          if th_btls h = 0 then Inl NoMemoryBionicTls
          else if th_shadow h = 0 then Inl NoMemoryShadow
          else
            let shadow = take 16 (replicate BIONIC_PTHREAD_SHADOW_SIZE 0) @ le_bytes 4 (th_tid h) @
                         drop 20 (replicate BIONIC_PTHREAD_SHADOW_SIZE 0)
            in Inr (g1, t1\<lparr>tt_arena := map_option (\<lambda>m.
                   store_at (store_at m BIONIC_TLS_PTR_OFFSET (le_bytes 8 (th_btls h)))
                     BIONIC_THREAD_ID_PTR_OFFSET (le_bytes 8 (th_shadow h))) (tt_arena t1),
                 tt_shadow := shadow, tt_inited := True\<rparr>))"

definition hybris_hook___get_tls_hooks ::
    "tls_host \<Rightarrow> tls_globals \<Rightarrow> thread_tls \<Rightarrow> tls_abort + tls_globals \<times> thread_tls" where
  "hybris_hook___get_tls_hooks h g t =
     (case first_init h g t of
        Inl a \<Rightarrow> Inl a
      | Inr (g1, t1) \<Rightarrow> if tt_cursor t1 \<noteq> g_published g1 then catch_up h g1 t1 else Inr (g1, t1))"

text \<open>\<open>errno\<close> after the hook is arbitrary; the helper restores it.\<close>

definition hybris_tls_first_touch_c ::
    "tls_host \<Rightarrow> (int \<Rightarrow> int) \<Rightarrow> int \<Rightarrow> tls_globals \<Rightarrow> thread_tls \<Rightarrow> tls_abort + int \<times> tls_globals \<times> thread_tls" where
  "hybris_tls_first_touch_c h clobber errno g t =
     (let saved_errno = errno in
      case hybris_hook___get_tls_hooks h g t of
        Inl a \<Rightarrow> Inl a
      | Inr (g', t') \<Rightarrow> let errno = clobber errno; errno = saved_errno in Inr (errno, g', t'))"

section \<open>Copying initial data\<close>

definition arena_or_zero :: "thread_tls \<Rightarrow> nat \<Rightarrow> u8" where
  "arena_or_zero t = (case tt_arena t of Some m \<Rightarrow> m | None \<Rightarrow> (\<lambda>x. 0))"

definition entry_data :: "hybris_promoted_tls \<Rightarrow> u8 list" where
  "entry_data e = take (pt_init_size e) (pt_init_data e)"

definition seg_bytes :: "hybris_promoted_tls \<Rightarrow> nat set" where
  "seg_bytes e = {pt_offset e..<pt_offset e + pt_segment_size e}"

text \<open>
  What the linker's layout promises of the entries: inside the reserve, behind the thread control
  block of 72 bytes, with the whole of their initial data, and apart from each other.
\<close>

definition entry_ok :: "hybris_promoted_tls \<Rightarrow> bool" where
  "entry_ok e \<longleftrightarrow> \<not> bad_static_range (pt_offset e) (pt_init_size e) (pt_segment_size e) \<and>
     length (pt_init_data e) = pt_init_size e \<and> 72 \<le> pt_offset e"

definition entries_ok :: "hybris_promoted_tls list \<Rightarrow> bool" where
  "entries_ok es \<longleftrightarrow> (\<forall>e \<in> set es. entry_ok e) \<and> sorted_wrt (\<lambda>d e. seg_bytes d \<inter> seg_bytes e = {}) es"

lemma entry_data_inside: "entry_ok e \<Longrightarrow> length (entry_data e) = pt_init_size e \<and> pt_init_size e \<le> pt_segment_size e"
  by (simp add: entry_ok_def entry_data_def bad_static_range_def)

definition with_data :: "hybris_promoted_tls list \<Rightarrow> (nat \<Rightarrow> u8) \<Rightarrow> nat \<Rightarrow> u8" where
  "with_data es m = fold (\<lambda>e m. store_at m (pt_offset e) (entry_data e)) es m"

lemma with_data_outside:
  "(\<And>e. e \<in> set es \<Longrightarrow> entry_ok e \<and> x \<notin> seg_bytes e) \<Longrightarrow> with_data es m x = m x"
proof (induction es arbitrary: m)
  case (Cons e es)
  have "store_at m (pt_offset e) (entry_data e) x = m x"
    using Cons.prems[of e] entry_data_inside[of e] by (intro store_at_outside) (auto simp: seg_bytes_def)
  then show ?case using Cons by (simp add: with_data_def)
qed (simp add: with_data_def)

lemma with_data_inside:
  "entries_ok es \<Longrightarrow> e \<in> set es \<Longrightarrow> i < pt_segment_size e \<Longrightarrow>
   with_data es m (pt_offset e + i) = (if i < pt_init_size e then pt_init_data e ! i else m (pt_offset e + i))"
proof (induction es arbitrary: m)
  case (Cons d es)
  have ok: "entries_ok es" using Cons.prems(1) by (simp add: entries_ok_def)
  have in_e: "pt_offset e + i \<in> seg_bytes e" using Cons.prems(3) by (simp add: seg_bytes_def)
  show ?case
  proof (cases "e \<in> set es")
    case True
    then have "seg_bytes d \<inter> seg_bytes e = {}" "entry_ok d" using Cons.prems(1) by (auto simp: entries_ok_def)
    then have "store_at m (pt_offset d) (entry_data d) (pt_offset e + i) = m (pt_offset e + i)"
      using in_e entry_data_inside[of d] by (intro store_at_outside) (fastforce simp: seg_bytes_def)
    with Cons.IH[OF ok True Cons.prems(3)] show ?thesis by (simp add: with_data_def)
  next
    case False
    then have de: "d = e" using Cons.prems(2) by simp
    have ok_e: "entry_ok e" using Cons.prems(1,2) by (auto simp: entries_ok_def)
    have "with_data es (store_at m (pt_offset d) (entry_data d)) (pt_offset e + i) =
      store_at m (pt_offset d) (entry_data d) (pt_offset e + i)"
      using Cons.prems(1) in_e de by (intro with_data_outside) (auto simp: entries_ok_def)
    then show ?thesis using de ok_e entry_data_inside[OF ok_e]
      by (auto simp: with_data_def store_at_def entry_data_def entry_ok_def)
  qed
qed simp

text \<open>Only the thread key may change.\<close>

definition same_registry :: "tls_globals \<Rightarrow> tls_globals \<Rightarrow> bool" where
  "same_registry g g' \<longleftrightarrow> g_entries g' = g_entries g \<and> g_capacity g' = g_capacity g \<and> g_published g' = g_published g"

lemma ensure_result:
  "hybris_ensure_static_tls h g t = Inr (g', t') \<Longrightarrow>
   t' = t\<lparr>tt_arena := Some (arena_or_zero t)\<rparr> \<and> same_registry g g'"
  by (auto simp: hybris_ensure_static_tls_def bionic_tls_key_init_def arena_or_zero_def same_registry_def split: if_splits sum.splits)

lemma apply_result:
  "hybris_apply_static_tls_locked h e g t = Inr (g', t') \<Longrightarrow>
   t' = t\<lparr>tt_arena := Some (store_at (arena_or_zero t) (pt_offset e) (entry_data e))\<rparr> \<and>
   same_registry g g'"
  by (auto simp: hybris_apply_static_tls_locked_def entry_data_def
      split: if_splits sum.splits dest!: ensure_result)

lemma apply_entries_result:
  "apply_entries h es g t = Inr (g', t') \<Longrightarrow>
   t' = t\<lparr>tt_arena := (if es = [] then tt_arena t else Some (with_data es (arena_or_zero t)))\<rparr> \<and>
   same_registry g g'"
proof (induction h es g t rule: apply_entries.induct)
  case (2 h e es g t)
  from "2.prems" obtain g1 t1 where a: "hybris_apply_static_tls_locked h e g t = Inr (g1, t1)"
    and rest: "apply_entries h es g1 t1 = Inr (g', t')" by (auto split: sum.splits)
  note t1 = apply_result[OF a]
  have "arena_or_zero t1 = store_at (arena_or_zero t) (pt_offset e) (entry_data e)"
    using t1 by (simp add: arena_or_zero_def)
  moreover from "2.IH"[OF a _ rest] have "t' = t1\<lparr>tt_arena := (if es = [] then tt_arena t1 else Some (with_data es (arena_or_zero t1)))\<rparr>"
    "same_registry g1 g'" by auto
  ultimately show ?case using t1 by (cases "es = []") (auto simp: with_data_def same_registry_def)
qed (simp add: same_registry_def)

lemma catch_up_result:
  assumes "catch_up h g t = Inr (g', t')"
  shows "t' = t\<lparr>tt_arena := (if drop (tt_cursor t) (g_entries g) = [] then tt_arena t
                            else Some (with_data (drop (tt_cursor t) (g_entries g)) (arena_or_zero t))),
               tt_cursor := length (g_entries g)\<rparr>"
    and "same_registry g g'"
  using assms by (auto simp: catch_up_def split: sum.splits dest!: apply_entries_result)

section \<open>Several threads\<close>

text \<open>
  The world: the globals, the variables of each thread, and, as a record of what the program did,
  the last byte each thread wrote to each offset of its current arena.  The critical sections run
  under the registry's mutex; the lock-free test of \<open>g_published\<close> reads a value that is stored at the
  end of a critical section, so that a whole operation is one step.
\<close>

record tls_world =
  w_globals :: tls_globals
  w_thread :: "nat \<Rightarrow> thread_tls"
  w_writes :: "nat \<Rightarrow> nat \<Rightarrow> u8 option"

definition initial_world :: tls_world where
  "initial_world = \<lparr>w_globals = \<lparr>g_entries = [], g_capacity = 0, g_published = 0, g_key_done = False\<rparr>,
     w_thread = (\<lambda>i. fresh_thread), w_writes = (\<lambda>i x. None)\<rparr>"

text \<open>The linker's layout gives a new module a range behind the control block and apart from the others.\<close>

definition fresh_range :: "tls_globals \<Rightarrow> nat \<Rightarrow> nat \<Rightarrow> bool" where
  "fresh_range g off n \<longleftrightarrow> 72 \<le> off \<and> (\<forall>e \<in> set (g_entries g). seg_bytes e \<inter> {off..<off + n} = {})"

text \<open>The bytes of the modules a thread has caught up with.\<close>

definition live_bytes :: "tls_world \<Rightarrow> nat \<Rightarrow> nat set" where
  "live_bytes w i = \<Union> (seg_bytes ` set (take (tt_cursor (w_thread w i)) (g_entries (w_globals w))))"

inductive tls_step :: "tls_world \<Rightarrow> tls_world \<Rightarrow> bool" where
  promote: "hybris_init_static_tls_for_thread h off (Some src) isz ssz (w_globals w) (w_thread w i) = Inr (g', t') \<Longrightarrow>
     isz \<le> length src \<Longrightarrow> fresh_range (w_globals w) off ssz \<Longrightarrow>
     tls_step w (w\<lparr>w_globals := g', w_thread := (w_thread w)(i := t')\<rparr>)"
| touch: "hybris_hook___get_tls_hooks h (w_globals w) (w_thread w i) = Inr (g', t') \<Longrightarrow>
     tls_step w (w\<lparr>w_globals := g', w_thread := (w_thread w)(i := t')\<rparr>)"
| store: "tt_arena (w_thread w i) = Some m \<Longrightarrow> x \<in> live_bytes w i \<Longrightarrow>
     tls_step w (w\<lparr>w_thread := (w_thread w)(i := (w_thread w i)\<lparr>tt_arena := Some (m(x := v))\<rparr>),
                   w_writes := (w_writes w)(i := (w_writes w i)(x := Some v))\<rparr>)"
| exit_thread: "tls_step w (w\<lparr>w_thread := (w_thread w)(i := bionic_tls_cleanup (w_thread w i)),
                   w_writes := (w_writes w)(i := (\<lambda>x. None))\<rparr>)"

inductive tls_reachable :: "tls_world \<Rightarrow> bool" where
  start: "tls_reachable initial_world"
| step: "tls_reachable w \<Longrightarrow> tls_step w w' \<Longrightarrow> tls_reachable w'"

text \<open>The value a variable must have: the program's last write, else its initial value.\<close>

definition expected_byte :: "(nat \<Rightarrow> u8 option) \<Rightarrow> hybris_promoted_tls \<Rightarrow> nat \<Rightarrow> u8" where
  "expected_byte wr e i =
     (case wr (pt_offset e + i) of
        Some v \<Rightarrow> v
      | None \<Rightarrow> if i < pt_init_size e then pt_init_data e ! i else 0)"

definition module_ok :: "(nat \<Rightarrow> u8) \<Rightarrow> (nat \<Rightarrow> u8 option) \<Rightarrow> hybris_promoted_tls \<Rightarrow> bool" where
  "module_ok m wr e \<longleftrightarrow> (\<forall>i < pt_segment_size e. m (pt_offset e + i) = expected_byte wr e i)"

text \<open>The invariant of one thread, given the registry.\<close>

definition thread_inv :: "hybris_promoted_tls list \<Rightarrow> thread_tls \<Rightarrow> (nat \<Rightarrow> u8 option) \<Rightarrow> bool" where
  "thread_inv es t wr \<longleftrightarrow>
     tt_cursor t \<le> length es \<and> (tt_arena t = None \<longrightarrow> tt_cursor t = 0) \<and>
     (\<forall>e \<in> set (take (tt_cursor t) es). module_ok (arena_or_zero t) wr e) \<and>
     (\<forall>x. 72 \<le> x \<and> (\<forall>e \<in> set (take (tt_cursor t) es). x \<notin> seg_bytes e) \<longrightarrow> arena_or_zero t x = 0 \<and> wr x = None)"

definition world_inv :: "tls_world \<Rightarrow> bool" where
  "world_inv w \<longleftrightarrow> entries_ok (g_entries (w_globals w)) \<and>
     g_published (w_globals w) = length (g_entries (w_globals w)) \<and>
     (\<forall>i. thread_inv (g_entries (w_globals w)) (w_thread w i) (w_writes w i))"

lemma thread_inv_append: "thread_inv es t wr \<Longrightarrow> thread_inv (es @ fs) t wr"
  by (simp add: thread_inv_def)

lemma thread_inv_fresh: "tt_arena t = None \<Longrightarrow> tt_cursor t = 0 \<Longrightarrow> thread_inv es t (\<lambda>x. None)"
  by (simp add: thread_inv_def arena_or_zero_def)

text \<open>Catching up establishes the values of the missing modules and keeps those of the others.\<close>

lemma thread_inv_catch_up:
  assumes es: "entries_ok es" and inv: "thread_inv es t wr" and run: "catch_up h g t = Inr (g', t')" and ge: "g_entries g = es"
  shows "thread_inv es t' wr \<and> tt_cursor t' = length es"
proof -
  let ?done = "take (tt_cursor t) es" and ?todo = "drop (tt_cursor t) es"
  have "entries_ok (?done @ ?todo)" using es by simp
  then have dis: "\<And>d e. d \<in> set ?done \<Longrightarrow> e \<in> set ?todo \<Longrightarrow> seg_bytes d \<inter> seg_bytes e = {}"
    and ok: "entries_ok ?todo" "\<forall>e \<in> set ?done. entry_ok e"
    unfolding entries_ok_def sorted_wrt_append set_append by blast+
  have parts: "set es = set ?done \<union> set ?todo" by (metis append_take_drop_id set_append)
  have t': "tt_cursor t' = length es" "tt_arena t' = None \<Longrightarrow> es = []"
    "arena_or_zero t' = with_data ?todo (arena_or_zero t)"
    using catch_up_result(1)[OF run] inv ge
    by (auto simp: arena_or_zero_def with_data_def thread_inv_def split: if_splits)
  have "module_ok (arena_or_zero t') wr e" if "e \<in> set es" for e
  proof (cases "e \<in> set ?todo")
    case True
    have "wr (pt_offset e + i) = None \<and> arena_or_zero t (pt_offset e + i) = 0" if "i < pt_segment_size e" for i
    proof -
      have "pt_offset e + i \<in> seg_bytes e" "72 \<le> pt_offset e + i"
        using that ok(1) True by (auto simp: seg_bytes_def entries_ok_def entry_ok_def)
      with dis True inv show ?thesis unfolding thread_inv_def by blast
    qed
    with with_data_inside[OF ok(1) True] t'(3) show ?thesis by (simp add: module_ok_def expected_byte_def)
  next
    case False
    then have e: "e \<in> set ?done" using that parts by blast
    have "arena_or_zero t' (pt_offset e + i) = arena_or_zero t (pt_offset e + i)" if "i < pt_segment_size e" for i
    proof -
      have "pt_offset e + i \<in> seg_bytes e" using that by (simp add: seg_bytes_def)
      then show ?thesis unfolding t'(3) using dis[OF e] ok(1)
        by (intro with_data_outside) (auto simp: entries_ok_def)
    qed
    with e inv show ?thesis unfolding thread_inv_def module_ok_def by simp
  qed
  moreover have "arena_or_zero t' x = 0 \<and> wr x = None" if "72 \<le> x" "\<forall>e \<in> set es. x \<notin> seg_bytes e" for x
  proof -
    have "arena_or_zero t' x = arena_or_zero t x"
      unfolding t'(3) using that(2) ok(1) by (intro with_data_outside) (auto simp: entries_ok_def dest: in_set_dropD)
    moreover have "\<forall>e \<in> set ?done. x \<notin> seg_bytes e" using that(2) by (auto dest: in_set_takeD)
    ultimately show ?thesis using inv that(1) unfolding thread_inv_def by simp
  qed
  ultimately show ?thesis using t' by (auto simp: thread_inv_def)
qed

text \<open>The first initialisation only writes to the control block.\<close>

lemma first_init_result:
  assumes "first_init h g t = Inr (g', t')"
  shows "tt_cursor t' = tt_cursor t \<and> (\<forall>x \<ge> 72. arena_or_zero t' x = arena_or_zero t x) \<and>
    (tt_arena t' = None \<longrightarrow> tt_arena t = None) \<and> same_registry g g' \<and>
    (\<not> tt_inited t \<longrightarrow> tt_inited t' \<and> (\<exists>m. tt_arena t' = Some m))"
proof (cases "tt_inited t")
  case True
  with assms show ?thesis by (simp add: first_init_def same_registry_def)
next
  case False
  from assms False obtain g1 t1 where e: "hybris_ensure_static_tls h g t = Inr (g1, t1)"
    by (auto simp: first_init_def split: sum.splits)
  have g: "g' = g1" and t': "t' = t1\<lparr>tt_arena := map_option (\<lambda>m.
                   store_at (store_at m BIONIC_TLS_PTR_OFFSET (le_bytes 8 (th_btls h)))
                     BIONIC_THREAD_ID_PTR_OFFSET (le_bytes 8 (th_shadow h))) (tt_arena t1),
                 tt_shadow := tt_shadow t', tt_inited := True\<rparr>"
    using assms False e by (auto simp: first_init_def Let_def split: if_splits)
  note t1 = ensure_result[OF e]
  have "arena_or_zero t' x = arena_or_zero t x" if "72 \<le> x" for x
    unfolding arena_or_zero_def[of t'] using that t1
    by (subst t') (simp add: store_at_def tls_consts)
  moreover have "tt_cursor t' = tt_cursor t" "tt_inited t'" "tt_arena t' \<noteq> None"
    using t1 by (subst t', simp)+
  ultimately show ?thesis using t1 g by auto
qed

lemma thread_inv_first_init:
  assumes "first_init h g t = Inr (g', t')" "thread_inv es t wr" "entries_ok es"
  shows "thread_inv es t' wr"
proof -
  note r = first_init_result[OF assms(1)]
  have "module_ok (arena_or_zero t') wr e" if "e \<in> set (take (tt_cursor t) es)" for e
  proof -
    have "72 \<le> pt_offset e" using that assms(3) by (auto simp: entries_ok_def entry_ok_def dest: in_set_takeD)
    with r that assms(2) show ?thesis by (simp add: thread_inv_def module_ok_def)
  qed
  with r assms(2) show ?thesis by (auto simp: thread_inv_def)
qed

lemma same_registry_inv: "same_registry g g' \<Longrightarrow> g_entries g' = g_entries g \<and> g_published g' = g_published g"
  by (simp add: same_registry_def)

lemma promote_result:
  assumes run: "hybris_init_static_tls_for_thread h off (Some src) isz ssz g t = Inr (g', t')"
    and src: "isz \<le> length src" and fresh: "fresh_range g off ssz" and es: "entries_ok (g_entries g)"
    and inv: "thread_inv (g_entries g) t wr"
  shows "\<exists>e. g_entries g' = g_entries g @ [e] \<and> pt_offset e = off \<and> pt_segment_size e = ssz \<and>
    entries_ok (g_entries g') \<and> g_published g' = length (g_entries g') \<and> thread_inv (g_entries g') t' wr"
proof -
  let ?e = "\<lparr>pt_offset = off, pt_init_data = (if isz > 0 then take isz src else []), pt_init_size = isz, pt_segment_size = ssz\<rparr>"
  from run obtain g1 g2 where range: "\<not> bad_static_range off isz ssz"
    and app: "registry_append h ?e g = Inr g1" and cu: "catch_up h g1 t = Inr (g2, t')"
    and g': "g' = g2\<lparr>g_published := length (g_entries g2)\<rparr>"
    by (auto simp: hybris_init_static_tls_for_thread_def Let_def split: if_splits sum.splits)
  have g1: "g_entries g1 = g_entries g @ [?e]" using app by (auto simp: registry_append_def Let_def split: if_splits)
  have "entry_ok ?e" using range src fresh by (auto simp: entry_ok_def fresh_range_def)
  moreover have "seg_bytes d \<inter> seg_bytes ?e = {}" if "d \<in> set (g_entries g)" for d
    using fresh that by (auto simp: fresh_range_def seg_bytes_def)
  ultimately have ok: "entries_ok (g_entries g1)" using es by (auto simp: g1 entries_ok_def sorted_wrt_append)
  have "thread_inv (g_entries g1) t wr" using inv by (simp add: g1 thread_inv_append)
  from thread_inv_catch_up[OF ok this cu refl] have "thread_inv (g_entries g1) t' wr" by blast
  then show ?thesis using ok g1 same_registry_inv[OF catch_up_result(2)[OF cu]] by (auto simp: g')
qed

lemma touch_result:
  assumes run: "hybris_hook___get_tls_hooks h g t = Inr (g', t')" and es: "entries_ok (g_entries g)"
    and pub: "g_published g = length (g_entries g)" and inv: "thread_inv (g_entries g) t wr"
  shows "g_entries g' = g_entries g \<and> g_published g' = g_published g \<and> thread_inv (g_entries g) t' wr \<and>
    tt_cursor t' = length (g_entries g)"
proof -
  from run obtain g1 t1 where fi: "first_init h g t = Inr (g1, t1)"
    and rest: "(if tt_cursor t1 \<noteq> g_published g1 then catch_up h g1 t1 else Inr (g1, t1)) = Inr (g', t')"
    by (auto simp: hybris_hook___get_tls_hooks_def split: sum.splits)
  have same: "g_entries g1 = g_entries g" "g_published g1 = g_published g"
    using first_init_result[OF fi] same_registry_inv by blast+
  have inv1: "thread_inv (g_entries g) t1 wr" by (rule thread_inv_first_init[OF fi inv es])
  show ?thesis
  proof (cases "tt_cursor t1 = g_published g1")
    case True
    with rest inv1 same pub show ?thesis by simp
  next
    case False
    then have cu: "catch_up h g1 t1 = Inr (g', t')" using rest by simp
    from thread_inv_catch_up[OF _ _ this same(1)] es inv1 same same_registry_inv[OF catch_up_result(2)[OF cu]]
    show ?thesis by simp
  qed
qed

lemma live_bytes_iff: "x \<in> live_bytes w i \<longleftrightarrow>
  (\<exists>e \<in> set (take (tt_cursor (w_thread w i)) (g_entries (w_globals w))). x \<in> seg_bytes e)"
  by (auto simp: live_bytes_def)

lemma thread_inv_store:
  assumes "thread_inv es t wr" "tt_arena t = Some m" "\<exists>e \<in> set (take (tt_cursor t) es). x \<in> seg_bytes e"
  shows "thread_inv es (t\<lparr>tt_arena := Some (m(x := v))\<rparr>) (wr(x := Some v))"
  using assms by (auto simp: thread_inv_def arena_or_zero_def module_ok_def expected_byte_def)

lemma world_inv_step: "tls_step w w' \<Longrightarrow> world_inv w \<Longrightarrow> world_inv w'"
proof (induction rule: tls_step.induct)
  case (promote h off src isz ssz w i g' t')
  then have es: "entries_ok (g_entries (w_globals w))" and inv: "thread_inv (g_entries (w_globals w)) (w_thread w j) (w_writes w j)" for j
    by (auto simp: world_inv_def)
  from promote_result[OF promote.hyps es inv] obtain e where e: "g_entries g' = g_entries (w_globals w) @ [e]"
    "entries_ok (g_entries g')" "g_published g' = length (g_entries g')" "thread_inv (g_entries g') t' (w_writes w i)" by blast
  with inv show ?case by (auto simp: world_inv_def thread_inv_append)
next
  case (touch h w i g' t')
  then have es: "entries_ok (g_entries (w_globals w))" and pub: "g_published (w_globals w) = length (g_entries (w_globals w))"
    and inv: "thread_inv (g_entries (w_globals w)) (w_thread w j) (w_writes w j)" for j
    by (auto simp: world_inv_def)
  from touch_result[OF touch.hyps es pub inv] es pub inv show ?case by (auto simp: world_inv_def)
next
  case (store w i m x v)
  have "thread_inv (g_entries (w_globals w)) ((w_thread w i)\<lparr>tt_arena := Some (m(x := v))\<rparr>) ((w_writes w i)(x := Some v))"
    using store by (intro thread_inv_store) (auto simp: world_inv_def live_bytes_iff)
  with store.prems show ?case by (auto simp: world_inv_def)
next
  case (exit_thread w i)
  then show ?case by (auto simp: world_inv_def bionic_tls_cleanup_def intro: thread_inv_fresh)
qed

lemma world_inv_initial: "world_inv initial_world"
  by (auto simp: world_inv_def initial_world_def entries_ok_def fresh_thread_def intro: thread_inv_fresh)

lemma reachable_inv: "tls_reachable w \<Longrightarrow> world_inv w"
  by (induction rule: tls_reachable.induct) (auto intro: world_inv_initial world_inv_step)

section \<open>Properties\<close>


definition demo_host :: tls_host where
  "demo_host = \<lparr>th_mmap = True, th_key_create = 0, th_setspecific = 0, th_malloc = True, th_realloc = True,
     th_btls = 0x5000, th_shadow = 0x9000, th_tid = 42\<rparr>"

definition demo_entry :: hybris_promoted_tls where
  "demo_entry = \<lparr>pt_offset = 72, pt_init_data = [1, 2], pt_init_size = 2, pt_segment_size = 4\<rparr>"

definition demo_world :: tls_world where
  "demo_world = initial_world\<lparr>w_globals := \<lparr>g_entries = [demo_entry], g_capacity = 16, g_published = 1, g_key_done = True\<rparr>,
     w_thread := (\<lambda>i. fresh_thread)(0 := \<lparr>tt_arena = Some (store_at (\<lambda>x. 0) 72 [1, 2]), tt_inited = False,
       tt_cursor = 1, tt_shadow = []\<rparr>)\<rparr>"

lemma demo_world_reachable: "tls_reachable demo_world"
proof -
  have "hybris_init_static_tls_for_thread demo_host 72 (Some [1, 2]) 2 4 (w_globals initial_world) (w_thread initial_world 0) =
    Inr (w_globals demo_world, w_thread demo_world 0)"
    by (simp add: hybris_init_static_tls_for_thread_def bad_static_range_def tls_consts registry_append_def catch_up_def
        hybris_apply_static_tls_locked_def hybris_ensure_static_tls_def bionic_tls_key_init_def demo_host_def
        initial_world_def fresh_thread_def demo_world_def demo_entry_def Let_def)
  then have "tls_step initial_world (initial_world\<lparr>w_globals := w_globals demo_world,
    w_thread := (w_thread initial_world)(0 := w_thread demo_world 0)\<rparr>)"
    by (rule tls_step.promote) (simp_all add: fresh_range_def initial_world_def)
  moreover have "initial_world\<lparr>w_globals := w_globals demo_world,
    w_thread := (w_thread initial_world)(0 := w_thread demo_world 0)\<rparr> = demo_world"
    by (simp add: initial_world_def demo_world_def)
  ultimately show ?thesis using tls_reachable.start tls_reachable.step by metis
qed




end
