(* ===== verification/Elf_Tls.thy ===== *)
theory Elf_Tls
  imports Linker_Phdr
begin

text \<open>
  ELF thread-local storage of the Q linker: \<open>q/bionic/libc/bionic/bionic_elf_tls.cpp\<close> and its header.
  The first part is the layout of static TLS (\<open>StaticTlsLayout\<close>), the second the dynamic thread
  vector of a thread.  The variant is AArch64; sizes are 64-bit words so that every sum wraps as in
  the source.  Allocations are answers of the allocators.
\<close>

section \<open>Segments\<close>

record TlsSegment =
  ts_size :: u64
  ts_alignment :: u64
  ts_init_ptr :: u64
  ts_init_size :: u64

text \<open>Program headers with the field that only TLS segments need.\<close>

record tls_phdr = elf_phdr +
  p_align :: u64

definition PT_TLS :: u32 where "PT_TLS = 7"

fun bionic_get_tls_segment :: "tls_phdr list \<Rightarrow> u64 \<Rightarrow> TlsSegment option" where
  "bionic_get_tls_segment [] bias = None"
| "bionic_get_tls_segment (ph # phs) bias =
     (if p_type ph = PT_TLS
      then Some \<lparr>ts_size = p_memsz ph, ts_alignment = p_align ph, ts_init_ptr = bias + p_vaddr ph,
                 ts_init_size = p_filesz ph\<rparr>
      else bionic_get_tls_segment phs bias)"

definition bionic_check_tls_alignment :: "u64 \<Rightarrow> u64 option" where
  "bionic_check_tls_alignment alignment =
     (if alignment = 0 \<or> \<not> powerof2 alignment then None else Some (min alignment PAGE_SIZE))"

text \<open>What \<open>soinfo::prelink_image\<close> does with the two: the left summand is its error message.\<close>

definition prelink_tls :: "tls_phdr list \<Rightarrow> u64 \<Rightarrow> unit + TlsSegment option" where
  "prelink_tls phdrs bias =
     (case bionic_get_tls_segment phdrs bias of
        None \<Rightarrow> Inr None
      | Some seg \<Rightarrow>
          (case bionic_check_tls_alignment (ts_alignment seg) of
             None \<Rightarrow> Inl ()
           | Some a \<Rightarrow> Inr (Some (seg\<lparr>ts_alignment := a\<rparr>))))"

section \<open>The layout of static TLS\<close>

definition SIZE_MAX :: u64 where "SIZE_MAX = - 1"
definition MIN_TLS_SLOT :: int where "MIN_TLS_SLOT = - 1"
definition MAX_TLS_SLOT :: int where "MAX_TLS_SLOT = 7"
definition BIONIC_TLS_SLOTS :: int where "BIONIC_TLS_SLOTS = MAX_TLS_SLOT - MIN_TLS_SLOT + 1"

definition sizeof_bionic_tcb :: u64 where "sizeof_bionic_tcb = of_int (BIONIC_TLS_SLOTS * 8)"
definition alignof_bionic_tcb :: u64 where "alignof_bionic_tcb = 8"

lemmas slot_consts = MIN_TLS_SLOT_def MAX_TLS_SLOT_def BIONIC_TLS_SLOTS_def sizeof_bionic_tcb_def alignof_bionic_tcb_def

datatype elf_tls_fatal = UnderalignedExe | StaticTlsOverflowed | TlsCheckFailed | NullDereference | DtvOutOfRange

record StaticTlsLayout =
  sl_offset :: u64
  sl_alignment :: u64
  sl_overflowed :: bool
  sl_tcb :: u64
  sl_tls :: u64

definition empty_layout :: StaticTlsLayout where
  "empty_layout = \<lparr>sl_offset = 0, sl_alignment = 1, sl_overflowed = False, sl_tcb = SIZE_MAX, sl_tls = SIZE_MAX\<rparr>"

definition BIONIC_ALIGN :: "u64 \<Rightarrow> u64 \<Rightarrow> u64" where
  "BIONIC_ALIGN value alignment = (value + alignment - 1) AND NOT (alignment - 1)"

definition offset_thread_pointer :: "StaticTlsLayout \<Rightarrow> u64" where
  "offset_thread_pointer l = sl_tcb l + of_int (- MIN_TLS_SLOT * 8)"

definition round_up_with_overflow_check :: "u64 \<Rightarrow> u64 \<Rightarrow> StaticTlsLayout \<Rightarrow> u64 \<times> StaticTlsLayout" where
  "round_up_with_overflow_check old_value alignment l =
     (let value = BIONIC_ALIGN old_value alignment
      in (value, if value < old_value then l\<lparr>sl_overflowed := True\<rparr> else l))"

definition reserve :: "u64 \<Rightarrow> u64 \<Rightarrow> StaticTlsLayout \<Rightarrow> u64 \<times> StaticTlsLayout" where
  "reserve sz alignment l =
     (let (result, l1) = round_up_with_overflow_check (sl_offset l) alignment l;
          l2 = l1\<lparr>sl_offset := result + sz\<rparr>;
          l3 = (if unat result + unat sz \<ge> 2 ^ 64 then l2\<lparr>sl_overflowed := True\<rparr> else l2)
      in (result, l3\<lparr>sl_alignment := max (sl_alignment l3) alignment\<rparr>))"

definition reserve_solib_segment :: "TlsSegment \<Rightarrow> StaticTlsLayout \<Rightarrow> u64 \<times> StaticTlsLayout" where
  "reserve_solib_segment seg l = reserve (ts_size seg) (ts_alignment seg) l"

text \<open>\<open>None\<close> is the null pointer of an executable without TLS.\<close>

definition reserve_exe_segment_and_tcb ::
    "TlsSegment option \<Rightarrow> StaticTlsLayout \<Rightarrow> elf_tls_fatal + u64 \<times> StaticTlsLayout" where
  "reserve_exe_segment_and_tcb exe_segment l =
     (case exe_segment of
        None \<Rightarrow>
          (let (off, l1) = reserve sizeof_bionic_tcb alignof_bionic_tcb l
           in Inr (0, l1\<lparr>sl_tcb := off\<rparr>))
      | Some seg \<Rightarrow>
          (let l1 = snd (reserve sizeof_bionic_tcb 1 l);
               (result, l2) = reserve (ts_size seg) (ts_alignment seg) l1;
               exe_tpoff = BIONIC_ALIGN (8 * 2) (ts_alignment seg);
               min_bionic_alignment = push_bit (bit_length (nat MAX_TLS_SLOT)) 1 * 8
           in if exe_tpoff < min_bionic_alignment then Inl UnderalignedExe
              else Inr (result, l2\<lparr>sl_tcb := result - exe_tpoff - of_int (- MIN_TLS_SLOT * 8)\<rparr>)))"

text \<open>The size and the alignment of \<open>struct bionic_tls\<close> depend on the host's headers.\<close>

definition reserve_bionic_tls :: "u64 \<Rightarrow> u64 \<Rightarrow> StaticTlsLayout \<Rightarrow> StaticTlsLayout" where
  "reserve_bionic_tls sizeof_tls alignof_tls l =
     (let (off, l1) = reserve sizeof_tls alignof_tls l in l1\<lparr>sl_tls := off\<rparr>)"

definition finish_layout :: "StaticTlsLayout \<Rightarrow> elf_tls_fatal + StaticTlsLayout" where
  "finish_layout l =
     (let (off, l1) = round_up_with_overflow_check (sl_offset l) (sl_alignment l) l
      in if sl_overflowed l1 then Inl StaticTlsOverflowed else Inr (l1\<lparr>sl_offset := off\<rparr>))"

section \<open>The module table\<close>

definition kTlsGenerationNone :: u64 where "kTlsGenerationNone = 0"
definition kTlsGenerationFirst :: u64 where "kTlsGenerationFirst = 1"
definition kTlsUninitializedModuleId :: u64 where "kTlsUninitializedModuleId = 0"

definition tls_module_id_to_idx :: "u64 \<Rightarrow> u64" where "tls_module_id_to_idx i = i - 1"
definition tls_module_idx_to_id :: "u64 \<Rightarrow> u64" where "tls_module_idx_to_id i = i + 1"

lemmas tls_ids = kTlsGenerationNone_def kTlsGenerationFirst_def kTlsUninitializedModuleId_def
  tls_module_id_to_idx_def tls_module_idx_to_id_def

record TlsModule =
  tm_segment :: TlsSegment
  tm_static_offset :: u64
  tm_first_generation :: u64
  tm_soinfo_ptr :: u64

text \<open>\<open>empty_init\<close> is the address of the empty string literal in the default segment.\<close>

definition empty_module :: "u64 \<Rightarrow> TlsModule" where
  "empty_module empty_init =
     \<lparr>tm_segment = \<lparr>ts_size = 0, ts_alignment = 1, ts_init_ptr = empty_init, ts_init_size = 0\<rparr>,
      tm_static_offset = SIZE_MAX, tm_first_generation = kTlsGenerationNone, tm_soinfo_ptr = 0\<rparr>"

record TlsModules =
  tms_generation :: u64
  tms_generation_libc_so :: "u64 option"
  tms_module_count :: nat
  tms_module_table :: "TlsModule list"
  tms_on_creation_cb :: bool
  tms_on_destruction_cb :: bool

section \<open>The dynamic thread vector\<close>

text \<open>
  The vector of a thread and its older vectors, linked by \<open>next\<close>, are a list whose head is the
  current one.  The last of the chain has generation \<open>kTlsGenerationNone\<close>.
\<close>

record TlsDtv =
  dtv_count :: nat
  dtv_generation :: u64
  dtv_modules :: "u64 list"

definition dtv_size_in_bytes :: "nat \<Rightarrow> nat" where
  "dtv_size_in_bytes module_count = 24 + module_count * 8"

definition calculate_new_dtv_count :: "nat \<Rightarrow> nat" where
  "calculate_new_dtv_count loaded_cnt =
     (let bytes = dtv_size_in_bytes (max 1 loaded_cnt);
          bytes = (if \<not> powerof2 (of_nat bytes) then 2 ^ bit_length bytes else bytes)
      in (bytes - 24) div 8)"

text \<open>A slot whose module is unloaded, or was loaded after the vector's generation.\<close>

definition slot_dies :: "TlsModules \<Rightarrow> u64 \<Rightarrow> nat \<Rightarrow> bool" where
  "slot_dies ms gen i \<longleftrightarrow> \<not> (i < tms_module_count ms \<and>
     (tm_static_offset (tms_module_table ms ! i) \<noteq> SIZE_MAX \<or>
      tm_first_generation (tms_module_table ms ! i) \<noteq> kTlsGenerationNone \<and>
      tm_first_generation (tms_module_table ms ! i) \<le> gen))"

definition update_dtv_slot :: "TlsModules \<Rightarrow> u64 \<Rightarrow> u64 \<Rightarrow> nat \<Rightarrow> u64 \<Rightarrow> u64" where
  "update_dtv_slot ms static_tls gen i p =
     (if slot_dies ms gen i then 0
      else if tm_static_offset (tms_module_table ms ! i) \<noteq> SIZE_MAX
      then static_tls + tm_static_offset (tms_module_table ms ! i)
      else p)"

text \<open>
  Replaces the head of the chain, after adding a larger vector when the module table has grown; the
  allocator clears what it hands out.  Also returns the blocks reported to the destruction listener.
\<close>

definition update_tls_dtv ::
    "TlsModules \<Rightarrow> StaticTlsLayout \<Rightarrow> u64 \<Rightarrow> TlsDtv list \<Rightarrow> TlsDtv list \<times> u64 list" where
  "update_tls_dtv ms layout tcb dtvs =
     (if dtv_generation (hd dtvs) = tms_generation ms then (dtvs, [])
      else
        let old = hd dtvs;
            old_cnt = dtv_count old;
            dtvs1 = (if tms_module_count ms > old_cnt
                     then let new_cnt = calculate_new_dtv_count (tms_module_count ms)
                          in \<lparr>dtv_count = new_cnt, dtv_generation = dtv_generation old,
                              dtv_modules = dtv_modules old @ replicate (new_cnt - old_cnt) 0\<rparr> # dtvs
                     else dtvs);
            dtv = hd dtvs1;
            static_tls = tcb - sl_tcb layout;
            dead = filter (slot_dies ms (dtv_generation dtv)) [0..<dtv_count dtv];
            slots = map (\<lambda>i. update_dtv_slot ms static_tls (dtv_generation dtv) i (dtv_modules dtv ! i)) [0..<dtv_count dtv]
        in (dtv\<lparr>dtv_modules := slots, dtv_generation := tms_generation ms\<rparr> # tl dtvs1,
            if tms_on_destruction_cb ms then map (\<lambda>i. dtv_modules dtv ! i) dead else []))"

record tls_index =
  ti_module_id :: u64
  ti_offset :: u64

text \<open>
  The two allocations of the slow path: the block of \<open>tls_allocator.memalign\<close>, and the block of
  \<open>posix_memalign\<close>, which is assigned to a variable of the inner scope; \<open>None\<close> when it fails.
\<close>

record dtv_alloc =
  da_memalign :: u64
  da_posix_memalign :: "u64 option"

definition tls_get_addr_slow_path ::
    "dtv_alloc \<Rightarrow> TlsModules \<Rightarrow> StaticTlsLayout \<Rightarrow> u64 \<Rightarrow> tls_index \<Rightarrow> (u64 \<Rightarrow> u8) \<Rightarrow> TlsDtv list
      \<Rightarrow> elf_tls_fatal + u64 \<times> (u64 \<Rightarrow> u8) \<times> TlsDtv list" where
  "tls_get_addr_slow_path a ms layout tcb ti mem dtvs =
     (let dtvs1 = fst (update_tls_dtv ms layout tcb dtvs);
          dtv = hd dtvs1;
          module_idx = unat (tls_module_id_to_idx (ti_module_id ti));
          mod_ptr = dtv_modules dtv ! module_idx
      in if module_idx \<ge> length (dtv_modules dtv) then Inl DtvOutOfRange
         else if mod_ptr \<noteq> 0 then Inr (mod_ptr + ti_offset ti, mem, dtvs1)
         else
           let seg = tm_segment (tms_module_table ms ! module_idx);
               mod_ptr = da_memalign a;
               inner_mod_ptr = (case da_posix_memalign a of Some p \<Rightarrow> p | None \<Rightarrow> 0);
               n = unat (ts_init_size seg)
           in if n > 0 \<and> inner_mod_ptr = 0 then Inl NullDereference
              else
                let mem1 = (\<lambda>x. if unat (x - inner_mod_ptr) < n then mem (ts_init_ptr seg + (x - inner_mod_ptr)) else mem x);
                    dtv1 = dtv\<lparr>dtv_modules := (dtv_modules dtv)[module_idx := inner_mod_ptr]\<rparr>
                in Inr (mod_ptr + ti_offset ti, mem1, dtv1 # tl dtvs1))"

definition tls_get_addr ::
    "dtv_alloc \<Rightarrow> TlsModules \<Rightarrow> StaticTlsLayout \<Rightarrow> u64 \<Rightarrow> u64 \<Rightarrow> tls_index \<Rightarrow> (u64 \<Rightarrow> u8) \<Rightarrow> TlsDtv list
      \<Rightarrow> elf_tls_fatal + u64 \<times> (u64 \<Rightarrow> u8) \<times> TlsDtv list" where
  "tls_get_addr a ms layout generation_copy tcb ti mem dtvs =
     (let dtv = hd dtvs;
          module_idx = unat (tls_module_id_to_idx (ti_module_id ti))
      in if generation_copy = dtv_generation dtv then
           if module_idx \<ge> length (dtv_modules dtv) then Inl DtvOutOfRange
           else if dtv_modules dtv ! module_idx \<noteq> 0
           then Inr (dtv_modules dtv ! module_idx + ti_offset ti, mem, dtvs)
           else tls_get_addr_slow_path a ms layout tcb ti mem dtvs
         else tls_get_addr_slow_path a ms layout tcb ti mem dtvs)"

text \<open>
  At thread exit nothing is freed; the listener hears of the dynamic blocks, and the chain is walked to
  its end.  \<open>None\<close> is the cleared slot.
\<close>

fun walk_dtvs :: "TlsDtv list \<Rightarrow> elf_tls_fatal + unit" where
  "walk_dtvs [] = Inl NullDereference"
| "walk_dtvs (d # ds) = (if dtv_generation d = kTlsGenerationNone then Inr () else walk_dtvs ds)"

definition free_dynamic_tls ::
    "TlsModules \<Rightarrow> TlsDtv list \<Rightarrow> elf_tls_fatal + TlsDtv list option \<times> u64 list" where
  "free_dynamic_tls ms dtvs =
     (let dtv = hd dtvs in
      if dtv_generation dtv = kTlsGenerationNone then Inr (Some dtvs, [])
      else
        let dynamic = filter (\<lambda>i. \<not> (i < tms_module_count ms \<and> tm_static_offset (tms_module_table ms ! i) \<noteq> SIZE_MAX))
                        [0..<dtv_count dtv]
        in try_then (walk_dtvs dtvs) (\<lambda>u.
             Inr (None, if tms_on_destruction_cb ms then map (\<lambda>i. dtv_modules dtv ! i) dynamic else [])))"

text \<open>
  The blocks of initial data \<open>__init_static_tls\<close> copies: destination offset, source and size.
\<close>

fun init_static_tls :: "TlsModule list \<Rightarrow> (u64 \<times> u64 \<times> u64) list" where
  "init_static_tls [] = []"
| "init_static_tls (md # mds) =
     (if tm_static_offset md = SIZE_MAX then []
      else if ts_init_size (tm_segment md) = 0 then init_static_tls mds
      else (tm_static_offset md, ts_init_ptr (tm_segment md), ts_init_size (tm_segment md)) # init_static_tls mds)"

text \<open>The order of the exit callbacks; \<open>nodes\<close> follows the \<open>prev\<close> links from the newest one.\<close>

definition notify_thread_exit_callbacks :: "'cb option \<Rightarrow> 'cb list \<Rightarrow> elf_tls_fatal + 'cb list" where
  "notify_thread_exit_callbacks first_callback nodes =
     (case first_callback of
        None \<Rightarrow> if nodes = [] then Inr [] else Inl TlsCheckFailed
      | Some cb \<Rightarrow> Inr (nodes @ [cb]))"

section \<open>Exactness of the layout\<close>

text \<open>An alignment that \<open>__bionic_check_tls_alignment\<close> lets through.\<close>

definition valid_alignment :: "u64 \<Rightarrow> bool" where
  "valid_alignment a \<longleftrightarrow> powerof2 a \<and> a \<noteq> 0"

lemma check_tls_alignment_valid:
  assumes "bionic_check_tls_alignment a = Some b"
  shows "valid_alignment b \<and> unat b \<le> 4096"
proof -
  have "powerof2 PAGE_SIZE" by (simp add: powerof2_def PAGE_SIZE_def)
  with assms show ?thesis
    by (auto simp: bionic_check_tls_alignment_def valid_alignment_def min_def PAGE_SIZE_def word_le_nat_alt split: if_splits)
qed

definition round_up :: "nat \<Rightarrow> nat \<Rightarrow> nat" where
  "round_up v a = (v + a - 1) div a * a"

lemma round_up_bounds: "0 < a \<Longrightarrow> v \<le> round_up v a \<and> round_up v a < v + a \<and> a dvd round_up v a"
proof -
  assume a: "0 < a"
  have "round_up v a + (v + a - 1) mod a = v + a - 1" by (simp add: round_up_def)
  moreover have "(v + a - 1) mod a < a" using a by simp
  ultimately have "v \<le> round_up v a" "round_up v a < v + a" using a by linarith+
  then show ?thesis by (simp add: round_up_def)
qed

lemma mod_div_mult_commute: "0 < p \<Longrightarrow> (x::nat) mod (q * p) div p * p = (x div p * p) mod (q * p)"
proof -
  assume "0 < p"
  then have "x mod (q * p) div p = x div p mod q" by (simp add: mod_mult2_eq mult.commute[of q])
  then show ?thesis by (simp add: mod_mult_mult2)
qed

lemma valid_alignment_mask:
  assumes "valid_alignment a"
  obtains k where "k < 64" "unat a = 2 ^ k" "a - 1 = mask k"
proof -
  from assms obtain k where "k < 64" "a = 2 ^ k" "unat a = 2 ^ k"
    unfolding valid_alignment_def by (elim conjE powerof2_exp) blast
  then show ?thesis using that by (simp add: mask_eq_exp_minus_1)
qed

lemma unat_BIONIC_ALIGN:
  assumes a: "valid_alignment a"
  shows "unat (BIONIC_ALIGN v a) = round_up (unat v) (unat a) mod 2 ^ 64"
proof -
  from valid_alignment_mask[OF a] obtain k where k: "k < 64" "unat a = 2 ^ k" "a - 1 = mask k" .
  have pow: "(2::nat) ^ 64 = 2 ^ (64 - k) * 2 ^ k" using k(1) by (simp flip: power_add)
  have "a \<noteq> 0" using a by (simp add: valid_alignment_def)
  then have m: "unat (mask k :: u64) = 2 ^ k - 1" unfolding k(3)[symmetric] by (simp add: unat_minus_one k(2))
  have "v + a - 1 = v + mask k" by (simp flip: k(3))
  then have "unat (BIONIC_ALIGN v a) = unat (v + mask k) div 2 ^ k * 2 ^ k"
    by (simp only: BIONIC_ALIGN_def k(3) unat_and_not_mask64)
  also have "unat (v + mask k) = (unat v + (2 ^ k - 1)) mod 2 ^ 64" by (simp add: unat_word_ariths m)
  also have "(unat v + (2 ^ k - 1)) mod 2 ^ 64 div 2 ^ k * 2 ^ k = ((unat v + (2 ^ k - 1)) div 2 ^ k * 2 ^ k) mod 2 ^ 64"
    unfolding pow by (rule mod_div_mult_commute) simp
  finally show ?thesis by (simp add: round_up_def k(2))
qed

text \<open>
  The layout in unbounded arithmetic: the offset each reservation gets, and the first free offset.
  A reservation in the 64-bit layout is either exact or sets the overflow flag.
\<close>

lemma round_up_wraps: "0 < a \<Longrightarrow> a dvd 2 ^ 64 \<Longrightarrow> v < 2 ^ 64 \<Longrightarrow> 2 ^ 64 \<le> round_up v a \<Longrightarrow> round_up v a = 2 ^ 64"
proof -
  assume a: "0 < a" "a dvd 2 ^ 64" "v < 2 ^ 64" "2 ^ 64 \<le> round_up v a"
  have "a dvd round_up v a - 2 ^ 64" using round_up_bounds[OF a(1), of v] a(2) by (meson dvd_diff_nat)
  moreover have "round_up v a - 2 ^ 64 < a" using round_up_bounds[OF a(1), of v] a by linarith
  ultimately have "round_up v a - 2 ^ 64 = 0" by (metis dvd_imp_le gr0I not_le)
  with a(4) show ?thesis by linarith
qed

lemma reserve_exact:
  assumes a: "valid_alignment a" and r: "reserve sz a l = (r, l')"
  shows "round_up (unat (sl_offset l)) (unat a) + unat sz < 2 ^ 64 \<Longrightarrow>
      unat r = round_up (unat (sl_offset l)) (unat a) \<and> unat (sl_offset l') = unat r + unat sz \<and>
      sl_overflowed l' = sl_overflowed l"
    and "2 ^ 64 \<le> round_up (unat (sl_offset l)) (unat a) + unat sz \<Longrightarrow> sl_overflowed l'"
    and "sl_overflowed l \<Longrightarrow> sl_overflowed l'"
    and "sl_tcb l' = sl_tcb l \<and> sl_tls l' = sl_tls l \<and> sl_alignment l' = max (sl_alignment l) a"
proof -
  let ?v = "unat (sl_offset l)" and ?r = "BIONIC_ALIGN (sl_offset l) a"
  from valid_alignment_mask[OF a] obtain k where k: "k < 64" "unat a = 2 ^ k" by blast
  have pos: "0 < unat a" "unat a dvd 2 ^ 64" using k le_imp_power_dvd[of k 64 "2::nat"] by simp_all
  have v: "?v < 2 ^ 64" using unsigned_less[of "sl_offset l", where ?'a = nat] by simp
  note al = unat_BIONIC_ALIGN[OF a, of "sl_offset l"]
  have rr: "r = ?r" and l': "l' = (let l1 = (if ?r < sl_offset l then l\<lparr>sl_overflowed := True\<rparr> else l);
      l2 = l1\<lparr>sl_offset := ?r + sz\<rparr>; l3 = (if unat ?r + unat sz \<ge> 2 ^ 64 then l2\<lparr>sl_overflowed := True\<rparr> else l2)
      in l3\<lparr>sl_alignment := max (sl_alignment l3) a\<rparr>)"
    using r by (auto simp: reserve_def round_up_with_overflow_check_def Let_def)
  have ov: "sl_overflowed l' \<longleftrightarrow> sl_overflowed l \<or> unat ?r < ?v \<or> unat ?r + unat sz \<ge> 2 ^ 64"
    unfolding l' by (auto simp: Let_def word_less_nat_alt)
  have off: "sl_offset l' = ?r + sz" unfolding l' by (simp add: Let_def)
  show "sl_tcb l' = sl_tcb l \<and> sl_tls l' = sl_tls l \<and> sl_alignment l' = max (sl_alignment l) a"
    unfolding l' by (simp add: Let_def)
  show "sl_overflowed l \<Longrightarrow> sl_overflowed l'" using ov by simp
  show "unat r = round_up ?v (unat a) \<and> unat (sl_offset l') = unat r + unat sz \<and> sl_overflowed l' = sl_overflowed l"
    if fits: "round_up ?v (unat a) + unat sz < 2 ^ 64"
  proof -
    have ur: "unat ?r = round_up ?v (unat a)" using al fits by simp
    moreover have "unat (?r + sz) = unat ?r + unat sz" using fits by (intro unat_add64) (simp add: ur)
    moreover have "?v \<le> unat ?r" using round_up_bounds[OF pos(1), of ?v] ur by simp
    ultimately show ?thesis using fits ov off rr by auto
  qed
  show "sl_overflowed l'" if over: "2 ^ 64 \<le> round_up ?v (unat a) + unat sz"
  proof (cases "round_up ?v (unat a) < 2 ^ 64")
    case True
    then have "unat ?r = round_up ?v (unat a)" using al by simp
    with over ov show ?thesis by simp
  next
    case False
    then have wrap: "round_up ?v (unat a) = 2 ^ 64" using round_up_wraps[OF pos v] by simp
    then have "unat ?r = 0" using al by simp
    moreover have "round_up 0 (unat a) = 0" using pos by (simp add: round_up_def)
    then have "?v \<noteq> 0" using wrap by (intro notI) simp
    ultimately show ?thesis using ov by simp
  qed
qed

primrec reserve_all :: "(u64 \<times> u64) list \<Rightarrow> StaticTlsLayout \<Rightarrow> u64 list \<times> StaticTlsLayout" where
  "reserve_all [] l = ([], l)"
| "reserve_all (sa # sas) l =
     (let (r, l1) = reserve (fst sa) (snd sa) l; (rs, l2) = reserve_all sas l1 in (r # rs, l2))"

primrec ideal_layout :: "(u64 \<times> u64) list \<Rightarrow> nat \<Rightarrow> nat list \<times> nat" where
  "ideal_layout [] t0 = ([], t0)"
| "ideal_layout (sa # sas) t0 =
     (let r = round_up t0 (unat (snd sa)); (rs, t1) = ideal_layout sas (r + unat (fst sa)) in (r # rs, t1))"

lemma ideal_layout_mono: "\<forall>sa \<in> set sas. valid_alignment (snd sa) \<Longrightarrow> t0 \<le> snd (ideal_layout sas t0)"
proof (induction sas arbitrary: t0)
  case (Cons sa sas)
  have "0 < unat (snd sa)" using Cons.prems by (simp add: valid_alignment_def unat_gt_0)
  from round_up_bounds[OF this, of t0] Cons.IH[of "round_up t0 (unat (snd sa)) + unat (fst sa)"] Cons.prems
  show ?case by (simp add: Let_def case_prod_unfold)
qed simp

lemma reserve_all_overflowed:
  "\<forall>sa \<in> set sas. valid_alignment (snd sa) \<Longrightarrow> sl_overflowed l \<Longrightarrow> sl_overflowed (snd (reserve_all sas l))"
proof (induction sas arbitrary: l)
  case (Cons sa sas)
  obtain r l1 where r: "reserve (fst sa) (snd sa) l = (r, l1)" by (cases "reserve (fst sa) (snd sa) l")
  from reserve_exact(3)[OF _ r] Cons show ?case by (simp add: r Let_def case_prod_unfold)
qed simp

lemma reserve_all_exact:
  assumes "\<forall>sa \<in> set sas. valid_alignment (snd sa)"
  shows "if snd (ideal_layout sas (unat (sl_offset l))) < 2 ^ 64
    then map unat (fst (reserve_all sas l)) = fst (ideal_layout sas (unat (sl_offset l))) \<and>
      unat (sl_offset (snd (reserve_all sas l))) = snd (ideal_layout sas (unat (sl_offset l))) \<and>
      sl_overflowed (snd (reserve_all sas l)) = sl_overflowed l
    else sl_overflowed (snd (reserve_all sas l))"
  using assms
proof (induction sas arbitrary: l)
  case Nil
  have "unat (sl_offset l) < 2 ^ 64" using unsigned_less[of "sl_offset l", where ?'a = nat] by simp
  then show ?case by simp
next
  case (Cons sa sas)
  obtain r l1 where r: "reserve (fst sa) (snd sa) l = (r, l1)" by (cases "reserve (fst sa) (snd sa) l")
  let ?r = "round_up (unat (sl_offset l)) (unat (snd sa))"
  let ?rest = "ideal_layout sas (?r + unat (fst sa))"
  have valid: "valid_alignment (snd sa)" "\<forall>sa \<in> set sas. valid_alignment (snd sa)" using Cons.prems by auto
  have eqs: "ideal_layout (sa # sas) (unat (sl_offset l)) = (?r # fst ?rest, snd ?rest)"
    "reserve_all (sa # sas) l = (r # fst (reserve_all sas l1), snd (reserve_all sas l1))"
    by (simp_all add: r Let_def case_prod_unfold)
  show ?case
  proof (cases "?r + unat (fst sa) < 2 ^ 64")
    case True
    note e = reserve_exact(1)[OF valid(1) r True]
    then have off: "unat (sl_offset l1) = ?r + unat (fst sa)" by simp
    note ih = Cons.IH[OF valid(2), of l1, unfolded off]
    show ?thesis
    proof (cases "snd ?rest < 2 ^ 64")
      case True
      with ih e show ?thesis unfolding eqs fst_conv snd_conv list.map if_P[OF True] by simp
    next
      case False
      with ih show ?thesis unfolding eqs fst_conv snd_conv if_not_P[OF False] by simp
    qed
  next
    case False
    then have "sl_overflowed l1" using reserve_exact(2)[OF valid(1) r] by simp
    from reserve_all_overflowed[OF valid(2) this] ideal_layout_mono[OF valid(2), of "?r + unat (fst sa)"] False
    show ?thesis unfolding eqs by simp
  qed
qed

lemma length_ideal_layout: "length (fst (ideal_layout sas t0)) = length sas"
  by (induction sas arbitrary: t0) (simp_all add: Let_def case_prod_unfold)

text \<open>The ideal layout: the ranges follow each other, each at a multiple of its alignment.\<close>

lemma ideal_layout_ranges:
  assumes "\<forall>sa \<in> set sas. valid_alignment (snd sa)" and "i < length sas"
  shows "length (fst (ideal_layout sas t0)) = length sas \<and>
    t0 \<le> fst (ideal_layout sas t0) ! i \<and> unat (snd (sas ! i)) dvd fst (ideal_layout sas t0) ! i \<and>
    fst (ideal_layout sas t0) ! i + unat (fst (sas ! i)) \<le> snd (ideal_layout sas t0) \<and>
    (\<forall>j. i < j \<and> j < length sas \<longrightarrow>
       fst (ideal_layout sas t0) ! i + unat (fst (sas ! i)) \<le> fst (ideal_layout sas t0) ! j)"
  using assms
proof (induction sas arbitrary: i t0)
  case (Cons sa sas)
  let ?r = "round_up t0 (unat (snd sa))"
  let ?rest = "ideal_layout sas (?r + unat (fst sa))"
  have valid: "\<forall>sa \<in> set sas. valid_alignment (snd sa)" and pos: "0 < unat (snd sa)"
    using Cons.prems(1) by (simp_all add: valid_alignment_def unat_gt_0)
  note b = round_up_bounds[OF pos, of t0]
  have eq: "ideal_layout (sa # sas) t0 = (?r # fst ?rest, snd ?rest)" by (simp add: Let_def case_prod_unfold)
  have len: "length (fst ?rest) = length sas" by (rule length_ideal_layout)
  show ?case
  proof (cases i)
    case 0
    have "?r + unat (fst sa) \<le> fst ?rest ! j" if "j < length sas" for j using Cons.IH[OF valid that] by blast
    then have later: "\<forall>j. 0 < j \<and> j < length (sa # sas) \<longrightarrow> ?r + unat (fst sa) \<le> (?r # fst ?rest) ! j"
      by (auto simp: nth_Cons')
    from ideal_layout_mono[OF valid] b len later show ?thesis unfolding eq 0 by simp
  next
    case (Suc i')
    with Cons.prems have i': "i' < length sas" by simp
    note ih = Cons.IH[OF valid i', of "?r + unat (fst sa)"]
    have "fst ?rest ! i' + unat (fst (sas ! i')) \<le> (?r # fst ?rest) ! j" if "i < j" "j < length (sa # sas)" for j
    proof -
      from that Suc obtain j' where "j = Suc j'" "i' < j'" "j' < length sas" by (cases j) auto
      with ih show ?thesis by simp
    qed
    then have later: "\<forall>j. i < j \<and> j < length (sa # sas) \<longrightarrow> fst ?rest ! i' + unat (fst (sas ! i')) \<le> (?r # fst ?rest) ! j"
      by blast
    have "t0 \<le> fst ?rest ! i'" using ih b by linarith
    with ih len later show ?thesis unfolding eq Suc by simp
  qed
qed simp

section \<open>Updating the vector\<close>

lemma new_dtv_count_enough:
  assumes "n < 2 ^ 59"
  shows "n \<le> calculate_new_dtv_count n"
proof -
  let ?b = "24 + max 1 n * 8"
  have "?b < 2 ^ bit_length ?b" using bit_length_bounds[of ?b] by simp
  then have "?b \<le> (if \<not> powerof2 (of_nat ?b) then 2 ^ bit_length ?b else ?b)" by simp
  then have "(?b - 24) div 8 \<le> calculate_new_dtv_count n"
    unfolding calculate_new_dtv_count_def Let_def dtv_size_in_bytes_def by (intro div_le_mono diff_le_mono)
  then show ?thesis by simp
qed

definition dtv_ok :: "TlsDtv list \<Rightarrow> bool" where
  "dtv_ok dtvs \<longleftrightarrow> dtvs \<noteq> [] \<and> length (dtv_modules (hd dtvs)) = dtv_count (hd dtvs)"

text \<open>The vector the update works on: the current one, or the larger copy of it.\<close>

definition grown_dtv :: "TlsModules \<Rightarrow> TlsDtv list \<Rightarrow> TlsDtv list" where
  "grown_dtv ms dtvs =
     (if tms_module_count ms > dtv_count (hd dtvs)
      then \<lparr>dtv_count = calculate_new_dtv_count (tms_module_count ms), dtv_generation = dtv_generation (hd dtvs),
            dtv_modules = dtv_modules (hd dtvs) @
              replicate (calculate_new_dtv_count (tms_module_count ms) - dtv_count (hd dtvs)) 0\<rparr> # dtvs
      else dtvs)"

lemma grown_dtv_ok:
  assumes "dtv_ok dtvs" "tms_module_count ms < 2 ^ 59"
  shows "dtv_ok (grown_dtv ms dtvs) \<and> tms_module_count ms \<le> dtv_count (hd (grown_dtv ms dtvs)) \<and>
    dtv_count (hd dtvs) \<le> dtv_count (hd (grown_dtv ms dtvs)) \<and>
    (\<exists>pre. grown_dtv ms dtvs = pre @ dtvs) \<and>
    dtv_generation (hd (grown_dtv ms dtvs)) = dtv_generation (hd dtvs) \<and>
    (\<forall>i < dtv_count (hd (grown_dtv ms dtvs)). dtv_modules (hd (grown_dtv ms dtvs)) ! i =
       (if i < dtv_count (hd dtvs) then dtv_modules (hd dtvs) ! i else 0))"
  using assms new_dtv_count_enough[OF assms(2)] by (auto simp: grown_dtv_def dtv_ok_def nth_append)

lemma update_tls_dtv_eq:
  assumes "dtv_generation (hd dtvs) \<noteq> tms_generation ms"
  shows "fst (update_tls_dtv ms layout tcb dtvs) =
    (hd (grown_dtv ms dtvs))\<lparr>dtv_modules := map (\<lambda>i. update_dtv_slot ms (tcb - sl_tcb layout) (dtv_generation (hd dtvs)) i
        (dtv_modules (hd (grown_dtv ms dtvs)) ! i)) [0..<dtv_count (hd (grown_dtv ms dtvs))],
      dtv_generation := tms_generation ms\<rparr> # tl (grown_dtv ms dtvs)"
  using assms by (simp add: update_tls_dtv_def grown_dtv_def Let_def)

section \<open>Properties\<close>

text \<open>
  C33: Every sequence of reservations with valid alignments either gives exactly the offsets of the
  layout in unbounded arithmetic - which are aligned, increasing and disjoint - and keeps the overflow
  flag, or sets the flag; no wrapped sum goes unnoticed.
\<close>

theorem static_layout_exact:
  assumes "\<forall>sa \<in> set sas. valid_alignment (snd sa)" and "\<not> sl_overflowed l"
    and "reserve_all sas l = (offs, l')"
  shows "(sl_overflowed l' \<longleftrightarrow> 2 ^ 64 \<le> snd (ideal_layout sas (unat (sl_offset l)))) \<and>
    (\<not> sl_overflowed l' \<longrightarrow> map unat offs = fst (ideal_layout sas (unat (sl_offset l))) \<and>
      (\<forall>i < length sas. unat (snd (sas ! i)) dvd unat (offs ! i) \<and> unat (sl_offset l) \<le> unat (offs ! i) \<and>
         unat (offs ! i) + unat (fst (sas ! i)) \<le> unat (sl_offset l') \<and>
         (\<forall>j. i < j \<and> j < length sas \<longrightarrow> unat (offs ! i) + unat (fst (sas ! i)) \<le> unat (offs ! j))))"
proof -
  let ?ideal = "ideal_layout sas (unat (sl_offset l))"
  note e = reserve_all_exact[OF assms(1), of l, unfolded assms(3) fst_conv snd_conv]
  have iff: "sl_overflowed l' \<longleftrightarrow> 2 ^ 64 \<le> snd ?ideal" using e assms(2) by (auto split: if_splits)
  have "map unat offs = fst ?ideal \<and> unat (snd (sas ! i)) dvd unat (offs ! i) \<and> unat (sl_offset l) \<le> unat (offs ! i) \<and>
      unat (offs ! i) + unat (fst (sas ! i)) \<le> unat (sl_offset l') \<and>
      (\<forall>j. i < j \<and> j < length sas \<longrightarrow> unat (offs ! i) + unat (fst (sas ! i)) \<le> unat (offs ! j))"
    if ok: "\<not> sl_overflowed l'" and i: "i < length sas" for i
  proof -
    from ok iff e have offs: "map unat offs = fst ?ideal" and hi: "unat (sl_offset l') = snd ?ideal" by auto
    have len: "length offs = length sas" using arg_cong[OF offs, of length] by (simp add: length_ideal_layout)
    have nth: "fst ?ideal ! j = unat (offs ! j)" if "j < length sas" for j
      unfolding offs[symmetric] using that len by simp
    show ?thesis using ideal_layout_ranges[OF assms(1) i, of "unat (sl_offset l)"] i offs by (simp add: nth hi)
  qed
  moreover have "map unat offs = fst ?ideal" if "\<not> sl_overflowed l'" using that iff e by auto
  ultimately show ?thesis using iff by blast
qed

theorem static_layout_exact_witness:
  "map unat (fst (reserve_all [(72, 8), (10, 16)] empty_layout)) = [0, 80] \<and>
   \<not> sl_overflowed (snd (reserve_all [(72, 8), (10, 16)] empty_layout)) \<and>
   unat (fst (reserve_all [(72, 8), (10, 16)] empty_layout) ! 0) + 72 \<le> 80"
proof -
  let ?sas = "[(72, 8), (10, 16)] :: (u64 \<times> u64) list"
  have valid: "\<forall>sa \<in> set ?sas. valid_alignment (snd sa)" by (simp add: valid_alignment_def powerof2_def)
  have run: "fst (reserve_all ?sas empty_layout) = [0, 80]" "\<not> sl_overflowed (snd (reserve_all ?sas empty_layout))"
    by (simp_all add: reserve_def round_up_with_overflow_check_def BIONIC_ALIGN_def empty_layout_def Let_def)
  have "\<not> sl_overflowed empty_layout" by (simp add: empty_layout_def)
  from static_layout_exact[OF valid this, of "fst (reserve_all ?sas empty_layout)" "snd (reserve_all ?sas empty_layout)"] run
  show ?thesis by (simp add: All_less_Suc)
qed

text \<open>
  C34: Updating a thread's vector brings it to the current generation with a slot for every module:
  a static module points into the thread's static TLS, a dynamic module the vector already knew keeps
  its block, and every other slot is null. The older vectors stay behind it.
\<close>

theorem update_tls_dtv_correct:
  assumes "dtv_ok dtvs" and "tms_module_count ms < 2 ^ 59" and "dtv_generation (hd dtvs) \<noteq> tms_generation ms"
    and "update_tls_dtv ms layout tcb dtvs = (dtvs', died)"
  shows "dtv_ok dtvs' \<and> dtv_generation (hd dtvs') = tms_generation ms \<and> tms_module_count ms \<le> dtv_count (hd dtvs') \<and>
    tl dtvs' \<in> {dtvs, tl dtvs} \<and>
    (\<forall>i < dtv_count (hd dtvs'). dtv_modules (hd dtvs') ! i =
       (if i \<ge> tms_module_count ms then 0
        else let md = tms_module_table ms ! i in
          if tm_static_offset md \<noteq> SIZE_MAX then tcb - sl_tcb layout + tm_static_offset md
          else if tm_first_generation md \<noteq> kTlsGenerationNone \<and> tm_first_generation md \<le> dtv_generation (hd dtvs) \<and>
                  i < dtv_count (hd dtvs)
          then dtv_modules (hd dtvs) ! i
          else 0))"
proof -
  note g = grown_dtv_ok[OF assms(1,2)]
  have d: "dtvs' = (hd (grown_dtv ms dtvs))\<lparr>dtv_modules := map (\<lambda>i. update_dtv_slot ms (tcb - sl_tcb layout) (dtv_generation (hd dtvs)) i
        (dtv_modules (hd (grown_dtv ms dtvs)) ! i)) [0..<dtv_count (hd (grown_dtv ms dtvs))],
      dtv_generation := tms_generation ms\<rparr> # tl (grown_dtv ms dtvs)"
    using update_tls_dtv_eq[OF assms(3), of layout tcb] assms(4) by simp
  have "tl (grown_dtv ms dtvs) \<in> {dtvs, tl dtvs}" by (simp add: grown_dtv_def)
  with g show ?thesis unfolding d
    by (auto simp: dtv_ok_def update_dtv_slot_def slot_dies_def Let_def)
qed

definition demo_dtv :: "TlsDtv list" where
  "demo_dtv = [\<lparr>dtv_count = 1, dtv_generation = 2, dtv_modules = [0x7000]\<rparr>,
               \<lparr>dtv_count = 0, dtv_generation = 0, dtv_modules = []\<rparr>]"

definition demo_modules :: TlsModules where
  "demo_modules = \<lparr>tms_generation = 3, tms_generation_libc_so = None, tms_module_count = 2,
     tms_module_table = [(empty_module 0)\<lparr>tm_first_generation := 2, tm_soinfo_ptr := 0x100\<rparr>,
                         (empty_module 0)\<lparr>tm_first_generation := 3, tm_static_offset := 128, tm_soinfo_ptr := 0x200\<rparr>],
     tms_on_creation_cb = False, tms_on_destruction_cb = False\<rparr>"

definition demo_layout :: StaticTlsLayout where
  "demo_layout = empty_layout\<lparr>sl_offset := 160, sl_tcb := 0\<rparr>"

theorem update_tls_dtv_correct_witness:
  "dtv_modules (hd (fst (update_tls_dtv demo_modules demo_layout 0x9000 demo_dtv))) ! 0 = 0x7000 \<and>
   dtv_modules (hd (fst (update_tls_dtv demo_modules demo_layout 0x9000 demo_dtv))) ! 1 = 0x9080"
proof -
  let ?u = "update_tls_dtv demo_modules demo_layout 0x9000 demo_dtv"
  have ok: "dtv_ok demo_dtv" "tms_module_count demo_modules < 2 ^ 59" "dtv_generation (hd demo_dtv) \<noteq> tms_generation demo_modules"
    by (simp_all add: dtv_ok_def demo_dtv_def demo_modules_def)
  have "2 \<le> dtv_count (hd (fst ?u))"
    using update_tls_dtv_correct[OF ok, where layout = demo_layout and tcb = "0x9000" and dtvs' = "fst ?u" and died = "snd ?u"] by (simp add: demo_modules_def)
  then show ?thesis
    using update_tls_dtv_correct[OF ok, where layout = demo_layout and tcb = "0x9000" and dtvs' = "fst ?u" and died = "snd ?u"]
    by (simp add: demo_modules_def demo_dtv_def empty_module_def SIZE_MAX_def kTlsGenerationNone_def demo_layout_def empty_layout_def)
qed

text \<open>
  C35: The first access of a thread to a dynamic module returns an address in the block of
  \<open>tls_allocator\<close>, while the vector records the block of \<open>posix_memalign\<close>, which alone received the
  initial data: the next access to the same variable returns another address.
\<close>

theorem first_tls_access_lost:
  assumes "dtv_ok dtvs" and "dtv_generation (hd dtvs) = gen" and "tms_generation ms = gen"
    and "unat (tls_module_id_to_idx (ti_module_id ti)) < dtv_count (hd dtvs)"
    and "dtv_modules (hd dtvs) ! unat (tls_module_id_to_idx (ti_module_id ti)) = 0"
    and "da_memalign a = p1" and "da_posix_memalign a = Some p2" and "p2 \<noteq> 0"
  shows "\<exists>mem' dtvs'. tls_get_addr a ms layout gen tcb ti mem dtvs = Inr (p1 + ti_offset ti, mem', dtvs') \<and>
    (\<forall>b. tls_get_addr b ms layout gen tcb ti mem' dtvs' = Inr (p2 + ti_offset ti, mem', dtvs'))"
  using assms by (simp add: tls_get_addr_def tls_get_addr_slow_path_def update_tls_dtv_def dtv_ok_def Let_def)

theorem first_tls_access_lost_witness:
  "\<exists>mem' dtvs'. tls_get_addr \<lparr>da_memalign = 0x5000, da_posix_memalign = Some 0x6000\<rparr>
      (demo_modules\<lparr>tms_generation := 2\<rparr>) demo_layout 2 0x9000 \<lparr>ti_module_id = 1, ti_offset = 8\<rparr> (\<lambda>x. 0)
      [\<lparr>dtv_count = 1, dtv_generation = 2, dtv_modules = [0]\<rparr>] = Inr (0x5008, mem', dtvs') \<and>
    (\<forall>b. tls_get_addr b (demo_modules\<lparr>tms_generation := 2\<rparr>) demo_layout 2 0x9000
      \<lparr>ti_module_id = 1, ti_offset = 8\<rparr> mem' dtvs' = Inr (0x6008, mem', dtvs'))"
  using first_tls_access_lost[where dtvs = "[\<lparr>dtv_count = 1, dtv_generation = 2, dtv_modules = [0]\<rparr>]" and gen = 2
      and ms = "demo_modules\<lparr>tms_generation := 2\<rparr>" and ti = "\<lparr>ti_module_id = 1, ti_offset = 8\<rparr>"
      and a = "\<lparr>da_memalign = 0x5000, da_posix_memalign = Some 0x6000\<rparr>" and ?p1.0 = "0x5000" and ?p2.0 = "0x6000"
      and layout = demo_layout and tcb = "0x9000" and mem = "\<lambda>x. 0"]
  by (simp add: dtv_ok_def tls_module_id_to_idx_def)

end
