(* ===== verification/Linker_Tls.thy ===== *)
theory Linker_Tls
  imports Bionic_Tls Elf_Tls
begin

text \<open>
  The Q linker's side of thread-local storage: \<open>q/linker_tls.cpp\<close> and the TLS relocations of
  \<open>q/linker.cpp\<close>.  The linker registers the modules, gives those that need a fixed offset a range of
  the static layout, and hands their initial data to \<open>bionic_tls.c\<close>.  The last part composes the
  linker with the threads of \<open>Bionic_Tls\<close>.
\<close>

section \<open>Definitions\<close>

datatype linker_tls_fatal =
    ElfTls elf_tls_fatal
  | Hook tls_abort
  | NullTls | VectorLength | VectorRange | ModuleCheck | FinishedCheck | WeakTlsDesc

record soinfo_tls =
  st_segment :: TlsSegment
  st_module_id :: u64

text \<open>
  The variables of the linker; \<open>lt_soinfo\<close> is \<open>get_tls()\<close> of the object at an address, \<open>None\<close> for the
  null pointer.  \<open>lt_empty_init\<close> is the address of the default segment's empty literal and
  \<open>lt_hooked\<close> says whether \<open>init_static_tls_for_thread\<close> is set.
\<close>

record linker_tls =
  lt_finished :: bool
  lt_modules :: TlsModules
  lt_generation_copy :: u64
  lt_layout :: StaticTlsLayout
  lt_soinfo :: "u64 \<Rightarrow> soinfo_tls option"
  lt_empty_init :: u64
  lt_hooked :: bool

text \<open>\<open>g_tls_modules\<close> is the table the shared globals point to.\<close>

abbreviation g_tls_modules :: "linker_tls \<Rightarrow> TlsModule list" where
  "g_tls_modules s \<equiv> tms_module_table (lt_modules s)"

definition set_modules :: "TlsModule list \<Rightarrow> linker_tls \<Rightarrow> linker_tls" where
  "set_modules mds s = s\<lparr>lt_modules := (lt_modules s)\<lparr>tms_module_table := mds, tms_module_count := length mds\<rparr>\<rparr>"

text \<open>The largest \<open>std::vector\<close> of 56-byte elements.\<close>

definition max_modules :: nat where "max_modules = (2 ^ 63 - 1) div 56"

fun first_unused :: "nat \<Rightarrow> TlsModule list \<Rightarrow> nat option" where
  "first_unused i [] = None"
| "first_unused i (md # mds) =
     (if tm_soinfo_ptr md = 0 \<and> tm_static_offset md = SIZE_MAX then Some i else first_unused (Suc i) mds)"

definition get_unused_module_index :: "linker_tls \<Rightarrow> linker_tls_fatal + nat \<times> linker_tls" where
  "get_unused_module_index s =
     (case first_unused 0 (g_tls_modules s) of
        Some i \<Rightarrow> Inr (i, s)
      | None \<Rightarrow>
          if length (g_tls_modules s) = max_modules then Inl VectorLength
          else let s1 = set_modules (g_tls_modules s @ [empty_module (lt_empty_init s)]) s
               in Inr (length (g_tls_modules s1) - 1, s1))"

definition bump_generation :: "linker_tls \<Rightarrow> u64 \<times> linker_tls" where
  "bump_generation s =
     (let new_generation = tms_generation (lt_modules s) + 1
      in (new_generation,
          s\<lparr>lt_modules := (lt_modules s)\<lparr>tms_generation := new_generation,
                 tms_generation_libc_so := map_option (\<lambda>old. new_generation) (tms_generation_libc_so (lt_modules s))\<rparr>,
             lt_generation_copy := new_generation\<rparr>))"

definition register_tls_module :: "u64 \<Rightarrow> u64 \<Rightarrow> linker_tls \<Rightarrow> linker_tls_fatal + linker_tls" where
  "register_tls_module si static_offset s =
     try_then (get_unused_module_index s) (\<lambda>(module_idx, s1).
     case lt_soinfo s1 si of
       None \<Rightarrow> Inl NullTls
     | Some si_tls \<Rightarrow>
         let s2 = s1\<lparr>lt_soinfo := (lt_soinfo s1)(si := Some (si_tls\<lparr>st_module_id := tls_module_idx_to_id (of_nat module_idx)\<rparr>))\<rparr>;
             (new_generation, s3) = bump_generation s2
         in Inr (set_modules ((g_tls_modules s3)[module_idx :=
              \<lparr>tm_segment = st_segment si_tls, tm_static_offset = static_offset,
               tm_first_generation = new_generation, tm_soinfo_ptr = si\<rparr>]) s3))"

definition unregister_tls_module :: "u64 \<Rightarrow> linker_tls \<Rightarrow> linker_tls_fatal + linker_tls" where
  "unregister_tls_module si s =
     (case lt_soinfo s si of
        None \<Rightarrow> Inl NullTls
      | Some si_tls \<Rightarrow>
          let idx = unat (tls_module_id_to_idx (st_module_id si_tls)) in
          if idx \<ge> length (g_tls_modules s) then Inl VectorRange
          else
            let md = g_tls_modules s ! idx in
            if tm_soinfo_ptr md \<noteq> si then Inl ModuleCheck
            else
              let md' = (if tm_static_offset md = SIZE_MAX then empty_module (lt_empty_init s) else md\<lparr>tm_soinfo_ptr := 0\<rparr>);
                  s1 = set_modules ((g_tls_modules s)[idx := md']) s
              in Inr (s1\<lparr>lt_soinfo := (lt_soinfo s1)(si := Some (si_tls\<lparr>st_module_id := kTlsUninitializedModuleId\<rparr>))\<rparr>))"

definition get_tls_module :: "u64 \<Rightarrow> linker_tls \<Rightarrow> linker_tls_fatal + TlsModule" where
  "get_tls_module module_id s =
     (let module_idx = unat (tls_module_id_to_idx module_id)
      in if \<not> module_idx < length (g_tls_modules s) then Inl ModuleCheck else Inr (g_tls_modules s ! module_idx))"

definition linker_setup_exe_static_tls :: "u64 \<Rightarrow> u64 \<Rightarrow> u64 \<Rightarrow> linker_tls \<Rightarrow> linker_tls_fatal + linker_tls" where
  "linker_setup_exe_static_tls sizeof_tls alignof_tls somain s =
     try_then
       (case lt_soinfo s somain of
          None \<Rightarrow>
            (case reserve_exe_segment_and_tcb None (lt_layout s) of
               Inl e \<Rightarrow> Inl (ElfTls e)
             | Inr (off, l) \<Rightarrow> Inr (s\<lparr>lt_layout := l\<rparr>))
        | Some si_tls \<Rightarrow>
            (case reserve_exe_segment_and_tcb (Some (st_segment si_tls)) (lt_layout s) of
               Inl e \<Rightarrow> Inl (ElfTls e)
             | Inr (off, l) \<Rightarrow> register_tls_module somain off (s\<lparr>lt_layout := l\<rparr>)))
       (\<lambda>s1. Inr (s1\<lparr>lt_layout := reserve_bionic_tls sizeof_tls alignof_tls (lt_layout s1)\<rparr>))"

definition linker_finalize_static_tls :: "linker_tls \<Rightarrow> linker_tls_fatal + linker_tls" where
  "linker_finalize_static_tls s =
     (case finish_layout (lt_layout s) of
        Inl e \<Rightarrow> Inl (ElfTls e)
      | Inr l \<Rightarrow> Inr (s\<lparr>lt_finished := True, lt_layout := l\<rparr>))"

definition register_soinfo_tls :: "u64 \<Rightarrow> linker_tls \<Rightarrow> linker_tls_fatal + linker_tls" where
  "register_soinfo_tls si s =
     (case lt_soinfo s si of
        None \<Rightarrow> Inr s
      | Some si_tls \<Rightarrow>
          if st_module_id si_tls \<noteq> kTlsUninitializedModuleId then Inr s
          else
            try_then
              (if sl_tcb (lt_layout s) = SIZE_MAX
               then (case reserve_exe_segment_and_tcb None (lt_layout s) of
                       Inl e \<Rightarrow> Inl (ElfTls e)
                     | Inr (off, l) \<Rightarrow> Inr (s\<lparr>lt_layout := l\<rparr>))
               else Inr s)
              (\<lambda>s1. register_tls_module si SIZE_MAX s1))"

text \<open>The memory at \<open>init_ptr\<close>, as the hook copies it.\<close>

definition bytes_at :: "(u64 \<Rightarrow> u8) \<Rightarrow> u64 \<Rightarrow> nat \<Rightarrow> u8 list option" where
  "bytes_at mem p n = (if p = 0 then None else Some (map (\<lambda>k. mem (p + of_nat k)) [0..<n]))"

definition promote_tls_module_to_static ::
    "tls_host \<Rightarrow> (u64 \<Rightarrow> u8) \<Rightarrow> u64 \<Rightarrow> linker_tls \<Rightarrow> tls_globals \<Rightarrow> thread_tls
      \<Rightarrow> linker_tls_fatal + u64 \<times> linker_tls \<times> tls_globals \<times> thread_tls" where
  "promote_tls_module_to_static h mem si s g t =
     (if lt_finished s then Inl FinishedCheck
      else case lt_soinfo s si of
        None \<Rightarrow> Inl NullTls
      | Some si_tls \<Rightarrow>
          if st_module_id si_tls = kTlsUninitializedModuleId then Inl ModuleCheck
          else
            let idx = unat (tls_module_id_to_idx (st_module_id si_tls)) in
            if idx \<ge> length (g_tls_modules s) then Inl VectorRange
            else
              let md = g_tls_modules s ! idx; seg = st_segment si_tls in
              if tm_soinfo_ptr md \<noteq> si then Inl ModuleCheck
              else if tm_static_offset md = SIZE_MAX then
                let (off, l) = reserve_solib_segment seg (lt_layout s);
                    (new_generation, s1) = bump_generation (s\<lparr>lt_layout := l\<rparr>);
                    s2 = set_modules ((g_tls_modules s1)[idx := md\<lparr>tm_static_offset := off, tm_first_generation := new_generation\<rparr>]) s1
                in if lt_hooked s then
                     (case hybris_init_static_tls_for_thread h (unat off)
                             (bytes_at mem (ts_init_ptr seg) (unat (ts_init_size seg)))
                             (unat (ts_init_size seg)) (unat (ts_size seg)) g t of
                        Inl e \<Rightarrow> Inl (Hook e)
                      | Inr (g', t') \<Rightarrow> Inr (off, s2, g', t'))
                   else Inr (off, s2, g, t)
              else Inr (tm_static_offset md, s, g, t))"

definition unregister_soinfo_tls :: "u64 \<Rightarrow> linker_tls \<Rightarrow> linker_tls_fatal + linker_tls" where
  "unregister_soinfo_tls si s =
     (case lt_soinfo s si of
        None \<Rightarrow> Inr s
      | Some si_tls \<Rightarrow> if st_module_id si_tls = kTlsUninitializedModuleId then Inr s else unregister_tls_module si s)"

text \<open>
  The TLS relocations of \<open>soinfo::relocate\<close>.  \<open>lsi\<close> is the object that defines the symbol, \<open>None\<close> for an
  unresolved weak reference; \<open>tls_tp_base\<close> is read before the loop.
\<close>

definition static_offset_for ::
    "tls_host \<Rightarrow> (u64 \<Rightarrow> u8) \<Rightarrow> u64 \<Rightarrow> linker_tls \<Rightarrow> tls_globals \<Rightarrow> thread_tls
      \<Rightarrow> linker_tls_fatal + u64 \<times> linker_tls \<times> tls_globals \<times> thread_tls" where
  "static_offset_for h mem lsi s g t =
     (case lt_soinfo s lsi of
        None \<Rightarrow> Inl NullTls
      | Some l_tls \<Rightarrow>
          try_then (get_tls_module (st_module_id l_tls) s) (\<lambda>md.
            if tm_static_offset md = SIZE_MAX then promote_tls_module_to_static h mem lsi s g t
            else Inr (tm_static_offset md, s, g, t)))"

definition relocate_tls_tprel ::
    "tls_host \<Rightarrow> (u64 \<Rightarrow> u8) \<Rightarrow> u64 \<Rightarrow> u64 option \<Rightarrow> u64 \<Rightarrow> u64 \<Rightarrow> linker_tls \<Rightarrow> tls_globals \<Rightarrow> thread_tls
      \<Rightarrow> linker_tls_fatal + u64 \<times> linker_tls \<times> tls_globals \<times> thread_tls" where
  "relocate_tls_tprel h mem tls_tp_base lsi sym_addr addend s g t =
     (case lsi of
        None \<Rightarrow> Inr (sym_addr + addend, s, g, t)
      | Some si \<Rightarrow>
          try_then (static_offset_for h mem si s g t) (\<lambda>(static_offset, s', g', t').
            Inr (static_offset - tls_tp_base + (sym_addr + addend), s', g', t')))"

definition relocate_tlsdesc ::
    "tls_host \<Rightarrow> (u64 \<Rightarrow> u8) \<Rightarrow> u64 \<Rightarrow> u64 option \<Rightarrow> u64 \<Rightarrow> u64 \<Rightarrow> linker_tls \<Rightarrow> tls_globals \<Rightarrow> thread_tls
      \<Rightarrow> linker_tls_fatal + u64 \<times> linker_tls \<times> tls_globals \<times> thread_tls" where
  "relocate_tlsdesc h mem tls_tp_base lsi sym_addr addend s g t =
     (case lsi of
        None \<Rightarrow> Inl WeakTlsDesc
      | Some si \<Rightarrow>
          try_then (static_offset_for h mem si s g t) (\<lambda>(static_offset, s', g', t').
            Inr (static_offset - tls_tp_base + sym_addr + addend, s', g', t')))"

section \<open>The linker and the threads\<close>

record ld_world =
  lw_linker :: linker_tls
  lw_tls :: tls_world

definition initial_linker :: "u64 \<Rightarrow> linker_tls" where
  "initial_linker empty_init =
     \<lparr>lt_finished = False,
      lt_modules = \<lparr>tms_generation = kTlsGenerationFirst, tms_generation_libc_so = None, tms_module_count = 0,
        tms_module_table = [], tms_on_creation_cb = False, tms_on_destruction_cb = False\<rparr>,
      lt_generation_copy = SIZE_MAX, lt_layout = empty_layout, lt_soinfo = (\<lambda>si. None),
      lt_empty_init = empty_init, lt_hooked = True\<rparr>"

text \<open>
  An object is prelinked at an address that no object with TLS has, registered, promoted by a
  relocation that a thread \<open>i\<close> runs, and unloaded, in any order the functions allow; a thread step is a
  step of \<open>Bionic_Tls\<close> that leaves the registry alone.
\<close>

inductive ld_step :: "ld_world \<Rightarrow> ld_world \<Rightarrow> bool" where
  ld_prelink: "si \<noteq> 0 \<Longrightarrow> lt_soinfo (lw_linker W) si = None \<Longrightarrow> prelink_tls phdrs bias = Inr (Some seg) \<Longrightarrow>
     ld_step W (W\<lparr>lw_linker := (lw_linker W)\<lparr>lt_soinfo := (lt_soinfo (lw_linker W))
       (si := Some \<lparr>st_segment = seg, st_module_id = kTlsUninitializedModuleId\<rparr>)\<rparr>\<rparr>)"
| ld_register: "register_soinfo_tls si (lw_linker W) = Inr s' \<Longrightarrow> ld_step W (W\<lparr>lw_linker := s'\<rparr>)"
| ld_relocate: "static_offset_for h mem si (lw_linker W) (w_globals (lw_tls W)) (w_thread (lw_tls W) i) = Inr (off, s', g', t') \<Longrightarrow>
     ld_step W (W\<lparr>lw_linker := s', lw_tls := (lw_tls W)\<lparr>w_globals := g', w_thread := (w_thread (lw_tls W))(i := t')\<rparr>\<rparr>)"
| ld_unload: "unregister_soinfo_tls si (lw_linker W) = Inr s' \<Longrightarrow>
     ld_step W (W\<lparr>lw_linker := s'\<lparr>lt_soinfo := (lt_soinfo s')(si := None)\<rparr>\<rparr>)"
| ld_thread: "tls_step (lw_tls W) w' \<Longrightarrow> g_entries (w_globals w') = g_entries (w_globals (lw_tls W)) \<Longrightarrow>
     ld_step W (W\<lparr>lw_tls := w'\<rparr>)"

inductive ld_reachable :: "ld_world \<Rightarrow> bool" where
  ld_start: "ld_reachable \<lparr>lw_linker = initial_linker empty_init, lw_tls = initial_world\<rparr>"
| ld_next: "ld_reachable W \<Longrightarrow> ld_step W W' \<Longrightarrow> ld_reachable W'"

section \<open>The invariant\<close>

definition segment_ok :: "TlsSegment \<Rightarrow> bool" where
  "segment_ok seg \<longleftrightarrow> valid_alignment (ts_alignment seg) \<and> unat (ts_alignment seg) \<le> 4096"

text \<open>Objects and table entries point to each other.\<close>

definition objects_ok :: "TlsModule list \<Rightarrow> (u64 \<Rightarrow> soinfo_tls option) \<Rightarrow> bool" where
  "objects_ok tbl so \<longleftrightarrow>
     (\<forall>si st. so si = Some st \<longrightarrow> si \<noteq> 0 \<and> segment_ok (st_segment st) \<and>
        (st_module_id st \<noteq> 0 \<longrightarrow> (\<exists>k < length tbl. st_module_id st = of_nat k + 1 \<and>
           tm_soinfo_ptr (tbl ! k) = si \<and> tm_segment (tbl ! k) = st_segment st))) \<and>
     (\<forall>k < length tbl. tm_soinfo_ptr (tbl ! k) \<noteq> 0 \<longrightarrow>
        (\<exists>st. so (tm_soinfo_ptr (tbl ! k)) = Some st \<and> st_module_id st = of_nat k + 1))"

text \<open>The registry entry of a promoted module.\<close>

definition entry_for :: "TlsModule \<Rightarrow> hybris_promoted_tls \<Rightarrow> bool" where
  "entry_for md e \<longleftrightarrow> pt_offset e = unat (tm_static_offset md) \<and> pt_segment_size e = unat (ts_size (tm_segment md)) \<and>
     pt_init_size e = unat (ts_init_size (tm_segment md)) \<and> unat (ts_alignment (tm_segment md)) dvd pt_offset e"

definition statics_ok :: "TlsModule list \<Rightarrow> hybris_promoted_tls list \<Rightarrow> bool" where
  "statics_ok tbl es \<longleftrightarrow>
     (\<forall>k < length tbl. tm_static_offset (tbl ! k) \<noteq> SIZE_MAX \<longrightarrow> (\<exists>e \<in> set es. entry_for (tbl ! k) e))"

text \<open>The layout holds the control block and, below its offset, every registered range.\<close>

definition layout_ok :: "StaticTlsLayout \<Rightarrow> TlsModule list \<Rightarrow> hybris_promoted_tls list \<Rightarrow> bool" where
  "layout_ok l tbl es \<longleftrightarrow>
     (if sl_tcb l = SIZE_MAX then sl_offset l = 0 \<and> tbl = [] else sl_tcb l = 0 \<and> 72 \<le> unat (sl_offset l)) \<and>
     unat (sl_offset l) \<le> BIONIC_TLS_RESERVE_SIZE \<and>
     (\<forall>e \<in> set es. pt_offset e + pt_segment_size e \<le> unat (sl_offset l))"

definition linker_inv :: "linker_tls \<Rightarrow> hybris_promoted_tls list \<Rightarrow> bool" where
  "linker_inv s es \<longleftrightarrow> lt_hooked s \<and> \<not> lt_finished s \<and>
     tms_module_count (lt_modules s) = length (g_tls_modules s) \<and> length (g_tls_modules s) \<le> max_modules \<and>
     objects_ok (g_tls_modules s) (lt_soinfo s) \<and> statics_ok (g_tls_modules s) es \<and>
     layout_ok (lt_layout s) (g_tls_modules s) es"

lemma unat_SIZE_MAX: "unat SIZE_MAX = 2 ^ 64 - 1"
  by (simp add: SIZE_MAX_def unsigned_minus_1_eq_mask mask_eq_exp_minus_1)

lemma module_idx_roundtrip: "k < 2 ^ 64 \<Longrightarrow> unat (tls_module_id_to_idx (of_nat k + 1)) = k"
  by (simp add: tls_module_id_to_idx_def unat_of_nat64)

lemma table_idx_small: "length tbl \<le> max_modules \<Longrightarrow> k < length tbl \<Longrightarrow> k + 1 < 2 ^ 64"
  by (simp add: max_modules_def)

lemma id_nonzero:
  assumes "k + 1 < 2 ^ 64"
  shows "of_nat k + 1 \<noteq> (0 :: u64)"
proof
  assume "of_nat k + 1 = (0 :: u64)"
  then have "unat (of_nat (k + 1) :: u64) = 0" by (simp add: add.commute)
  with assms show False by (simp only: unat_of_nat64)
qed

lemma id_inj: "j + 1 < 2 ^ 64 \<Longrightarrow> k + 1 < 2 ^ 64 \<Longrightarrow> of_nat j + 1 = (of_nat k + 1 :: u64) \<Longrightarrow> j = k"
proof -
  assume a: "j + 1 < 2 ^ 64" "k + 1 < 2 ^ 64" "of_nat j + 1 = (of_nat k + 1 :: u64)"
  then have "j < 2 ^ 64" "k < 2 ^ 64" by linarith+
  from module_idx_roundtrip[OF this(1)] module_idx_roundtrip[OF this(2)] show "j = k" unfolding a(3) by (rule trans[OF sym])
qed

lemma set_modules_simps [simp]:
  "g_tls_modules (set_modules mds s) = mds" "tms_module_count (lt_modules (set_modules mds s)) = length mds"
  "lt_soinfo (set_modules mds s) = lt_soinfo s" "lt_layout (set_modules mds s) = lt_layout s"
  "lt_hooked (set_modules mds s) = lt_hooked s" "lt_finished (set_modules mds s) = lt_finished s"
  "lt_empty_init (set_modules mds s) = lt_empty_init s"
  by (simp_all add: set_modules_def)

lemma bump_generation_simps [simp]:
  "g_tls_modules (snd (bump_generation s)) = g_tls_modules s"
  "tms_module_count (lt_modules (snd (bump_generation s))) = tms_module_count (lt_modules s)"
  "lt_soinfo (snd (bump_generation s)) = lt_soinfo s" "lt_layout (snd (bump_generation s)) = lt_layout s"
  "lt_hooked (snd (bump_generation s)) = lt_hooked s" "lt_finished (snd (bump_generation s)) = lt_finished s"
  by (simp_all add: bump_generation_def Let_def)

text \<open>Finding a slot: free and dynamic, and the other slots stay.\<close>

lemma first_unused_spec:
  "first_unused i tbl = Some j \<Longrightarrow> i \<le> j \<and> j - i < length tbl \<and> tm_soinfo_ptr (tbl ! (j - i)) = 0 \<and>
     tm_static_offset (tbl ! (j - i)) = SIZE_MAX"
proof (induction i tbl rule: first_unused.induct)
  case (2 i md mds)
  show ?case
  proof (cases "tm_soinfo_ptr md = 0 \<and> tm_static_offset md = SIZE_MAX")
    case False
    with 2 have "Suc i \<le> j" "j - Suc i < length mds" "tm_soinfo_ptr (mds ! (j - Suc i)) = 0"
      "tm_static_offset (mds ! (j - Suc i)) = SIZE_MAX" by auto
    moreover have "j - i = Suc (j - Suc i)" using calculation(1) by simp
    ultimately show ?thesis by simp
  qed (use "2.prems" in auto)
qed simp

lemma get_unused_spec:
  assumes "get_unused_module_index s = Inr (i, s1)"
  shows "\<exists>tbl. s1 = set_modules tbl s \<or> s1 = s \<and> tbl = g_tls_modules s"
    and "g_tls_modules s1 \<in> {g_tls_modules s, g_tls_modules s @ [empty_module (lt_empty_init s)]}"
    and "i < length (g_tls_modules s1)" "tm_soinfo_ptr (g_tls_modules s1 ! i) = 0"
    and "tm_static_offset (g_tls_modules s1 ! i) = SIZE_MAX"
    and "length (g_tls_modules s) \<le> max_modules \<Longrightarrow> length (g_tls_modules s1) \<le> max_modules"
    and "lt_soinfo s1 = lt_soinfo s \<and> lt_layout s1 = lt_layout s \<and> lt_hooked s1 = lt_hooked s \<and> lt_finished s1 = lt_finished s"
  using assms first_unused_spec[of 0 "g_tls_modules s" i]
  by (auto simp: get_unused_module_index_def Let_def empty_module_def split: option.splits if_splits)

text \<open>How the operations change the links between objects and slots.\<close>

lemma objects_ok_object:
  "objects_ok tbl so \<Longrightarrow> so si = Some st \<Longrightarrow> si \<noteq> 0 \<and> segment_ok (st_segment st)"
  by (simp add: objects_ok_def)

lemma objects_ok_slot:
  assumes "objects_ok tbl so" "so si = Some st" "st_module_id st \<noteq> 0"
  obtains k where "k < length tbl" "st_module_id st = of_nat k + 1" "tm_soinfo_ptr (tbl ! k) = si"
    "tm_segment (tbl ! k) = st_segment st"
  using assms that unfolding objects_ok_def by blast

lemma objects_ok_owner:
  "objects_ok tbl so \<Longrightarrow> k < length tbl \<Longrightarrow> tm_soinfo_ptr (tbl ! k) \<noteq> 0 \<Longrightarrow>
   \<exists>st. so (tm_soinfo_ptr (tbl ! k)) = Some st \<and> st_module_id st = of_nat k + 1"
  by (simp add: objects_ok_def)

lemma objects_okI:
  assumes "\<And>si st. so si = Some st \<Longrightarrow> si \<noteq> 0 \<and> segment_ok (st_segment st)"
    and "\<And>si st. so si = Some st \<Longrightarrow> st_module_id st \<noteq> 0 \<Longrightarrow> \<exists>k < length tbl. st_module_id st = of_nat k + 1 \<and>
           tm_soinfo_ptr (tbl ! k) = si \<and> tm_segment (tbl ! k) = st_segment st"
    and "\<And>k. k < length tbl \<Longrightarrow> tm_soinfo_ptr (tbl ! k) \<noteq> 0 \<Longrightarrow>
        \<exists>st. so (tm_soinfo_ptr (tbl ! k)) = Some st \<and> st_module_id st = of_nat k + 1"
  shows "objects_ok tbl so"
  using assms unfolding objects_ok_def by blast

lemma objects_ok_append:
  assumes ok: "objects_ok tbl so" and md: "tm_soinfo_ptr md = 0"
  shows "objects_ok (tbl @ [md]) so"
proof (rule objects_okI)
  show "si \<noteq> 0 \<and> segment_ok (st_segment st)" if "so si = Some st" for si st using objects_ok_object[OF ok that] .
next
  fix si st assume "so si = Some st" "st_module_id st \<noteq> 0"
  from objects_ok_slot[OF ok this] obtain k where "k < length tbl" "st_module_id st = of_nat k + 1"
    "tm_soinfo_ptr (tbl ! k) = si" "tm_segment (tbl ! k) = st_segment st" .
  then show "\<exists>k < length (tbl @ [md]). st_module_id st = of_nat k + 1 \<and>
    tm_soinfo_ptr ((tbl @ [md]) ! k) = si \<and> tm_segment ((tbl @ [md]) ! k) = st_segment st"
    by (intro exI[of _ k]) (simp add: nth_append)
next
  fix k assume "k < length (tbl @ [md])" "tm_soinfo_ptr ((tbl @ [md]) ! k) \<noteq> 0"
  with md have "k < length tbl" "tm_soinfo_ptr (tbl ! k) \<noteq> 0" by (auto simp: nth_append split: if_splits)
  with objects_ok_owner[OF ok this] show "\<exists>st. so (tm_soinfo_ptr ((tbl @ [md]) ! k)) = Some st \<and> st_module_id st = of_nat k + 1"
    by (simp add: nth_append)
qed

lemma objects_ok_register:
  assumes ok: "objects_ok tbl so" and small: "length tbl \<le> max_modules"
    and i: "i < length tbl" "tm_soinfo_ptr (tbl ! i) = 0"
    and st: "so si = Some st" "st_module_id st = 0" and md: "tm_soinfo_ptr md = si" "tm_segment md = st_segment st"
  shows "objects_ok (tbl[i := md]) (so(si := Some (st\<lparr>st_module_id := of_nat i + 1\<rparr>)))" (is "objects_ok ?tbl ?so")
proof (rule objects_okI)
  show "sj \<noteq> 0 \<and> segment_ok (st_segment st')" if "?so sj = Some st'" for sj st'
    using that objects_ok_object[OF ok, of sj] objects_ok_object[OF ok st(1)] by (auto split: if_splits)
next
  fix sj st' assume s: "?so sj = Some st'" "st_module_id st' \<noteq> 0"
  show "\<exists>k < length ?tbl. st_module_id st' = of_nat k + 1 \<and> tm_soinfo_ptr (?tbl ! k) = sj \<and> tm_segment (?tbl ! k) = st_segment st'"
  proof (cases "sj = si")
    case True
    with s i md show ?thesis by (intro exI[of _ i]) auto
  next
    case False
    with s have "so sj = Some st'" by simp
    from objects_ok_slot[OF ok this s(2)] obtain k where k: "k < length tbl" "st_module_id st' = of_nat k + 1"
      "tm_soinfo_ptr (tbl ! k) = sj" "tm_segment (tbl ! k) = st_segment st'" .
    moreover have "k \<noteq> i" using k(3) i(2) objects_ok_object[OF ok \<open>so sj = Some st'\<close>] by auto
    ultimately show ?thesis by (intro exI[of _ k]) simp
  qed
next
  fix k assume k: "k < length ?tbl" "tm_soinfo_ptr (?tbl ! k) \<noteq> 0"
  show "\<exists>st'. ?so (tm_soinfo_ptr (?tbl ! k)) = Some st' \<and> st_module_id st' = of_nat k + 1"
  proof (cases "k = i")
    case True
    with i md show ?thesis by simp
  next
    case False
    with k have k': "k < length tbl" "tm_soinfo_ptr (tbl ! k) \<noteq> 0" by auto
    from objects_ok_owner[OF ok this] obtain st' where st': "so (tm_soinfo_ptr (tbl ! k)) = Some st'" "st_module_id st' = of_nat k + 1"
      by blast
    moreover have "tm_soinfo_ptr (tbl ! k) \<noteq> si"
      using st st' id_nonzero[OF table_idx_small[OF small k'(1)]] by (intro notI) simp
    ultimately show ?thesis using False by simp
  qed
qed

lemma objects_ok_unregister:
  assumes ok: "objects_ok tbl so" and small: "length tbl \<le> max_modules" and i: "i < length tbl" "tm_soinfo_ptr (tbl ! i) = si"
    and st: "so si = Some st" and md: "tm_soinfo_ptr md = 0"
  shows "objects_ok (tbl[i := md]) (so(si := Some (st\<lparr>st_module_id := 0\<rparr>)))" (is "objects_ok ?tbl ?so")
proof (rule objects_okI)
  show "sj \<noteq> 0 \<and> segment_ok (st_segment st')" if "?so sj = Some st'" for sj st'
    using that objects_ok_object[OF ok, of sj] objects_ok_object[OF ok st] by (auto split: if_splits)
next
  fix sj st' assume s: "?so sj = Some st'" "st_module_id st' \<noteq> 0"
  then have sj: "sj \<noteq> si" "so sj = Some st'" by (auto split: if_splits)
  from objects_ok_slot[OF ok this(2) s(2)] obtain k where "k < length tbl" "st_module_id st' = of_nat k + 1"
    "tm_soinfo_ptr (tbl ! k) = sj" "tm_segment (tbl ! k) = st_segment st'" .
  moreover from this have "k \<noteq> i" using i sj by auto
  ultimately show "\<exists>k < length ?tbl. st_module_id st' = of_nat k + 1 \<and> tm_soinfo_ptr (?tbl ! k) = sj \<and> tm_segment (?tbl ! k) = st_segment st'"
    by (intro exI[of _ k]) simp
next
  have nz: "si \<noteq> 0" using objects_ok_object[OF ok st] by simp
  fix k assume k: "k < length ?tbl" "tm_soinfo_ptr (?tbl ! k) \<noteq> 0"
  then have ki: "k \<noteq> i" using md i(1) by (intro notI) simp
  with k have k': "k \<noteq> i" "k < length tbl" "tm_soinfo_ptr (tbl ! k) \<noteq> 0" by simp_all
  from objects_ok_owner[OF ok this(2,3)] obtain st' where st': "so (tm_soinfo_ptr (tbl ! k)) = Some st'" "st_module_id st' = of_nat k + 1"
    by blast
  from objects_ok_owner[OF ok i(1)] i(2) nz st have "st_module_id st = of_nat i + 1" by auto
  then have "tm_soinfo_ptr (tbl ! k) \<noteq> si"
    using st st' id_inj[OF table_idx_small[OF small k'(2)] table_idx_small[OF small i(1)]] k'(1) by (intro notI) simp
  with st' k' show "\<exists>st'. ?so (tm_soinfo_ptr (?tbl ! k)) = Some st' \<and> st_module_id st' = of_nat k + 1" by simp
qed

lemma objects_ok_same_links:
  assumes ok: "objects_ok tbl so" and md: "tm_soinfo_ptr md = tm_soinfo_ptr (tbl ! i)" "tm_segment md = tm_segment (tbl ! i)"
  shows "objects_ok (tbl[i := md]) so"
proof -
  have same: "tm_soinfo_ptr (tbl[i := md] ! k) = tm_soinfo_ptr (tbl ! k) \<and> tm_segment (tbl[i := md] ! k) = tm_segment (tbl ! k)"
    if "k < length tbl" for k using md that by (cases "k = i") simp_all
  show ?thesis
  proof (rule objects_okI)
    fix si st assume st: "so si = Some st"
    show "si \<noteq> 0 \<and> segment_ok (st_segment st)" by (rule objects_ok_object[OF ok st])
    assume "st_module_id st \<noteq> 0"
    from objects_ok_slot[OF ok st this] obtain k where "k < length tbl" "st_module_id st = of_nat k + 1"
      "tm_soinfo_ptr (tbl ! k) = si" "tm_segment (tbl ! k) = st_segment st" .
    with same show "\<exists>k < length (tbl[i := md]). st_module_id st = of_nat k + 1 \<and>
      tm_soinfo_ptr (tbl[i := md] ! k) = si \<and> tm_segment (tbl[i := md] ! k) = st_segment st"
      by (intro exI[of _ k]) simp
  qed (use same objects_ok_owner[OF ok] in simp)
qed

lemma objects_ok_forget:
  assumes ok: "objects_ok tbl so" and small: "length tbl \<le> max_modules" and st: "\<And>st. so si = Some st \<Longrightarrow> st_module_id st = 0"
  shows "objects_ok tbl (so(si := None))"
proof (rule objects_okI)
  show "sj \<noteq> 0 \<and> segment_ok (st_segment st')" if "(so(si := None)) sj = Some st'" for sj st'
    using that objects_ok_object[OF ok, of sj] by (auto split: if_splits)
  show "\<exists>k < length tbl. st_module_id st' = of_nat k + 1 \<and> tm_soinfo_ptr (tbl ! k) = sj \<and> tm_segment (tbl ! k) = st_segment st'"
    if "(so(si := None)) sj = Some st'" "st_module_id st' \<noteq> 0" for sj st'
    using that ok unfolding objects_ok_def by (auto split: if_splits)
next
  fix k assume k: "k < length tbl" "tm_soinfo_ptr (tbl ! k) \<noteq> 0"
  from objects_ok_owner[OF ok this] obtain st' where st': "so (tm_soinfo_ptr (tbl ! k)) = Some st'" "st_module_id st' = of_nat k + 1"
    by blast
  have "tm_soinfo_ptr (tbl ! k) \<noteq> si"
    using st[of st'] st' id_nonzero[OF table_idx_small[OF small k(1)]] by (intro notI) simp
  with st' show "\<exists>st'. (so(si := None)) (tm_soinfo_ptr (tbl ! k)) = Some st' \<and> st_module_id st' = of_nat k + 1" by simp
qed

lemma objects_ok_prelink:
  assumes ok: "objects_ok tbl so" and "si \<noteq> 0" "so si = None" "segment_ok seg"
  shows "objects_ok tbl (so(si := Some \<lparr>st_segment = seg, st_module_id = 0\<rparr>))"
proof (rule objects_okI)
  show "sj \<noteq> 0 \<and> segment_ok (st_segment st)" if "(so(si := Some \<lparr>st_segment = seg, st_module_id = 0\<rparr>)) sj = Some st" for sj st
    using that assms objects_ok_object[OF ok, of sj] by (auto split: if_splits)
  show "\<exists>k < length tbl. st_module_id st = of_nat k + 1 \<and> tm_soinfo_ptr (tbl ! k) = sj \<and> tm_segment (tbl ! k) = st_segment st"
    if "(so(si := Some \<lparr>st_segment = seg, st_module_id = 0\<rparr>)) sj = Some st" "st_module_id st \<noteq> 0" for sj st
    using that ok unfolding objects_ok_def by (auto split: if_splits)
  show "\<exists>st. (so(si := Some \<lparr>st_segment = seg, st_module_id = 0\<rparr>)) (tm_soinfo_ptr (tbl ! k)) = Some st \<and> st_module_id st = of_nat k + 1"
    if "k < length tbl" "tm_soinfo_ptr (tbl ! k) \<noteq> 0" for k
    using objects_ok_owner[OF ok that] assms(3) by (cases "tm_soinfo_ptr (tbl ! k) = si") auto
qed

section \<open>The operations keep the invariant\<close>

lemma prelink_segment_ok: "prelink_tls phdrs bias = Inr (Some seg) \<Longrightarrow> segment_ok seg"
  using check_tls_alignment_valid
  by (auto simp: prelink_tls_def segment_ok_def split: option.splits)

lemma statics_ok_mono: "statics_ok tbl es \<Longrightarrow> statics_ok tbl (es @ fs)"
  unfolding statics_ok_def by auto

lemma statics_ok_update:
  "statics_ok tbl es \<Longrightarrow> tm_static_offset md = SIZE_MAX \<or> (\<exists>e \<in> set es. entry_for md e) \<Longrightarrow> statics_ok (tbl[i := md]) es"
  unfolding statics_ok_def length_list_update by (metis nth_list_update_eq nth_list_update_neq)

lemma statics_ok_dynamic: "statics_ok tbl es \<Longrightarrow> tm_static_offset md = SIZE_MAX \<Longrightarrow> statics_ok (tbl[i := md]) es"
  using statics_ok_update by blast

lemma statics_ok_append: "statics_ok tbl es \<Longrightarrow> tm_static_offset md = SIZE_MAX \<Longrightarrow> statics_ok (tbl @ [md]) es"
  unfolding statics_ok_def by (auto simp: nth_append)

lemma statics_ok_static:
  "statics_ok tbl es \<Longrightarrow> e \<in> set es \<Longrightarrow> entry_for md e \<Longrightarrow> statics_ok (tbl[i := md]) es"
  using statics_ok_update by blast

lemma linker_inv_prelink:
  assumes "linker_inv s es" "si \<noteq> 0" "lt_soinfo s si = None" "prelink_tls phdrs bias = Inr (Some seg)"
  shows "linker_inv (s\<lparr>lt_soinfo := (lt_soinfo s)(si := Some \<lparr>st_segment = seg, st_module_id = kTlsUninitializedModuleId\<rparr>)\<rparr>) es"
  using assms objects_ok_prelink prelink_segment_ok by (simp add: linker_inv_def kTlsUninitializedModuleId_def)

text \<open>The first object with TLS brings the control block to offset zero.\<close>

lemma reserve_tcb:
  assumes "reserve_exe_segment_and_tcb None l = Inr (off, l')" and ok: "layout_ok l tbl es" and tcb: "sl_tcb l = SIZE_MAX"
  shows "layout_ok l' tbl es \<and> sl_tcb l' \<noteq> SIZE_MAX"
proof -
  from assms(1) obtain r l1 where r: "reserve 72 8 l = (r, l1)" and l': "l' = l1\<lparr>sl_tcb := r\<rparr>"
    by (auto simp: reserve_exe_segment_and_tcb_def slot_consts split: prod.splits)
  have v: "valid_alignment 8" by (simp add: valid_alignment_def powerof2_def)
  have z: "sl_offset l = 0" using ok tcb by (simp add: layout_ok_def)
  then have "\<forall>e \<in> set es. pt_offset e + pt_segment_size e \<le> 0" using ok by (simp add: layout_ok_def)
  moreover have "unat r = 0" "unat (sl_offset l1) = 72" using reserve_exact(1)[OF v r] z by (simp_all add: round_up_def)
  ultimately show ?thesis by (simp add: layout_ok_def l' SIZE_MAX_def BIONIC_TLS_RESERVE_SIZE_def unat_eq_0)
qed

lemma layout_ok_table: "layout_ok l tbl es \<Longrightarrow> sl_tcb l \<noteq> SIZE_MAX \<Longrightarrow> layout_ok l tbl' es"
  by (simp add: layout_ok_def)

lemma linker_inv_register_module:
  assumes inv: "linker_inv s es" and tcb: "sl_tcb (lt_layout s) \<noteq> SIZE_MAX"
    and st: "lt_soinfo s si = Some st" "st_module_id st = 0" and run: "register_tls_module si SIZE_MAX s = Inr s'"
  shows "linker_inv s' es"
proof -
  from run obtain i s1 where g: "get_unused_module_index s = Inr (i, s1)"
    by (auto simp: register_tls_module_def try_then_Inr)
  note u = get_unused_spec[OF g]
  let ?tbl = "g_tls_modules s1"
  define gen where "gen = fst (bump_generation (s1\<lparr>lt_soinfo := (lt_soinfo s1)(si := Some (st\<lparr>st_module_id := tls_module_idx_to_id (of_nat i)\<rparr>))\<rparr>))"
  define md where "md = \<lparr>tm_segment = st_segment st, tm_static_offset = SIZE_MAX, tm_first_generation = gen, tm_soinfo_ptr = si\<rparr>"
  have s': "g_tls_modules s' = ?tbl[i := md]" "tms_module_count (lt_modules s') = length ?tbl"
    "lt_soinfo s' = (lt_soinfo s)(si := Some (st\<lparr>st_module_id := of_nat i + 1\<rparr>))"
    "lt_layout s' = lt_layout s" "lt_hooked s' = lt_hooked s" "lt_finished s' = lt_finished s"
    using run u st by (auto simp: register_tls_module_def g gen_def md_def tls_module_idx_to_id_def Let_def case_prod_unfold)
  have "tm_soinfo_ptr (empty_module (lt_empty_init s)) = 0" "tm_static_offset (empty_module (lt_empty_init s)) = SIZE_MAX"
    by (simp_all add: empty_module_def)
  then have ok: "objects_ok ?tbl (lt_soinfo s)" "statics_ok ?tbl es"
    using u(2) inv objects_ok_append statics_ok_append unfolding linker_inv_def insert_iff empty_iff by auto
  have len: "length ?tbl \<le> max_modules" using u(6) inv by (simp add: linker_inv_def)
  have "objects_ok (?tbl[i := md]) (lt_soinfo s')"
    unfolding s'(3) by (rule objects_ok_register[OF ok(1) len u(3,4) st]) (simp_all add: md_def)
  moreover have "statics_ok (?tbl[i := md]) es" using ok(2) by (rule statics_ok_dynamic) (simp add: md_def)
  ultimately show ?thesis using inv len tcb s' by (simp add: linker_inv_def layout_ok_table[where tbl = "g_tls_modules s"])
qed

lemma linker_inv_register:
  assumes inv: "linker_inv s es" and run: "register_soinfo_tls si s = Inr s'"
  shows "linker_inv s' es"
proof (cases "\<exists>st. lt_soinfo s si = Some st \<and> st_module_id st = 0")
  case False
  with run inv show ?thesis
    by (auto simp: register_soinfo_tls_def kTlsUninitializedModuleId_def split: option.splits if_splits)
next
  case True
  then obtain st where st: "lt_soinfo s si = Some st" "st_module_id st = 0" by blast
  show ?thesis
  proof (cases "sl_tcb (lt_layout s) = SIZE_MAX")
    case False
    with run st have "register_tls_module si SIZE_MAX s = Inr s'"
      by (simp add: register_soinfo_tls_def kTlsUninitializedModuleId_def)
    with linker_inv_register_module[OF inv False st] show ?thesis .
  next
    case True
    with run st obtain off l where r: "reserve_exe_segment_and_tcb None (lt_layout s) = Inr (off, l)"
      and reg: "register_tls_module si SIZE_MAX (s\<lparr>lt_layout := l\<rparr>) = Inr s'"
      by (auto simp: register_soinfo_tls_def kTlsUninitializedModuleId_def try_then_Inr split: sum.splits)
    have "layout_ok l (g_tls_modules s) es \<and> sl_tcb l \<noteq> SIZE_MAX"
      using inv by (intro reserve_tcb[OF r _ True]) (simp add: linker_inv_def)
    then have "linker_inv (s\<lparr>lt_layout := l\<rparr>) es" "sl_tcb (lt_layout (s\<lparr>lt_layout := l\<rparr>)) \<noteq> SIZE_MAX"
      using inv by (simp_all add: linker_inv_def)
    from linker_inv_register_module[OF this _ st(2) reg] st(1) show ?thesis by simp
  qed
qed

lemma linker_inv_unregister:
  assumes inv: "linker_inv s es" and run: "unregister_soinfo_tls si s = Inr s'"
  shows "linker_inv (s'\<lparr>lt_soinfo := (lt_soinfo s')(si := None)\<rparr>) es"
proof -
  have small: "length (g_tls_modules s) \<le> max_modules" and ok: "objects_ok (g_tls_modules s) (lt_soinfo s)"
    and sok: "statics_ok (g_tls_modules s) es" using inv by (simp_all add: linker_inv_def)
  show ?thesis
  proof (cases "\<exists>st. lt_soinfo s si = Some st \<and> st_module_id st \<noteq> 0")
    case False
    then have "s' = s" using run by (auto simp: unregister_soinfo_tls_def kTlsUninitializedModuleId_def split: option.splits if_splits)
    moreover have "objects_ok (g_tls_modules s) ((lt_soinfo s)(si := None))"
      using False by (intro objects_ok_forget[OF ok small]) auto
    ultimately show ?thesis using inv by (simp add: linker_inv_def)
  next
    case True
    then obtain st where st: "lt_soinfo s si = Some st" "st_module_id st \<noteq> 0" by blast
    from objects_ok_slot[OF ok this] obtain k where k: "k < length (g_tls_modules s)" "st_module_id st = of_nat k + 1"
      "tm_soinfo_ptr (g_tls_modules s ! k) = si" .
    have "k < 2 ^ 64" using table_idx_small[OF small k(1)] by simp
    then have idx: "unat (tls_module_id_to_idx (st_module_id st)) = k" unfolding k(2) by (rule module_idx_roundtrip)
    let ?md = "g_tls_modules s ! k"
    define md where "md = (if tm_static_offset ?md = SIZE_MAX then empty_module (lt_empty_init s) else ?md\<lparr>tm_soinfo_ptr := 0\<rparr>)"
    have s': "s' = set_modules ((g_tls_modules s)[k := md]) s\<lparr>lt_soinfo := (lt_soinfo s)(si := Some (st\<lparr>st_module_id := 0\<rparr>))\<rparr>"
      using run st k(1,3) idx
      by (simp add: unregister_soinfo_tls_def unregister_tls_module_def kTlsUninitializedModuleId_def md_def Let_def)
    have "tm_soinfo_ptr md = 0" by (simp add: md_def empty_module_def)
    from objects_ok_unregister[OF ok small k(1,3) st(1) this]
    have "objects_ok ((g_tls_modules s)[k := md]) (((lt_soinfo s)(si := Some (st\<lparr>st_module_id := 0\<rparr>)))(si := None))"
      using small by (intro objects_ok_forget) auto
    moreover have "statics_ok ((g_tls_modules s)[k := md]) es"
    proof (cases "tm_static_offset ?md = SIZE_MAX")
      case True
      with sok show ?thesis by (intro statics_ok_dynamic) (simp_all add: md_def empty_module_def)
    next
      case False
      with sok k(1) obtain e where "e \<in> set es" "entry_for ?md e" by (auto simp: statics_ok_def)
      then have "e \<in> set es" "entry_for md e" using False by (auto simp: md_def entry_for_def)
      with sok show ?thesis by (rule statics_ok_static)
    qed
    moreover have "layout_ok (lt_layout s) ((g_tls_modules s)[k := md]) es" using inv by (simp add: linker_inv_def layout_ok_def)
    ultimately show ?thesis using inv unfolding s' by (simp add: linker_inv_def)
  qed
qed

text \<open>What a successful call of the hook adds to the registry.\<close>

lemma init_static_entry:
  assumes "hybris_init_static_tls_for_thread h off src isz ssz g t = Inr (g', t')"
  shows "\<not> bad_static_range off isz ssz \<and> (isz > 0 \<longrightarrow> src \<noteq> None) \<and>
    g_entries g' = g_entries g @ [\<lparr>pt_offset = off, pt_init_data = (if isz > 0 then take isz (the src) else []),
      pt_init_size = isz, pt_segment_size = ssz\<rparr>]"
proof -
  let ?e = "\<lparr>pt_offset = off, pt_init_data = (if isz > 0 then take isz (the src) else []), pt_init_size = isz, pt_segment_size = ssz\<rparr>"
  from assms obtain g1 g2 where r: "\<not> bad_static_range off isz ssz" "isz > 0 \<longrightarrow> src \<noteq> None"
    and app: "registry_append h ?e g = Inr g1" and cu: "catch_up h g1 t = Inr (g2, t')"
    and g': "g' = g2\<lparr>g_published := length (g_entries g2)\<rparr>"
    by (auto simp: hybris_init_static_tls_for_thread_def Let_def split: if_splits sum.splits)
  have "g_entries g1 = g_entries g @ [?e]" using app by (auto simp: registry_append_def Let_def split: if_splits)
  with same_registry_inv[OF catch_up_result(2)[OF cu]] r g' show ?thesis by simp
qed

lemma init_static_null: "hybris_init_static_tls_for_thread h off None 0 ssz g t = hybris_init_static_tls_for_thread h off (Some []) 0 ssz g t"
  by (simp add: hybris_init_static_tls_for_thread_def)

text \<open>
  A promotion that the hook accepts: the new range starts at or behind the old end of the layout, at
  a multiple of the segment's alignment, and the layout ends behind it.
\<close>

lemma reserve_promoted:
  assumes seg: "segment_ok seg" and small: "unat (sl_offset l) \<le> BIONIC_TLS_RESERVE_SIZE"
    and r: "reserve_solib_segment seg l = (off, l')" and fits: "\<not> bad_static_range (unat off) isz (unat (ts_size seg))"
  shows "unat (sl_offset l) \<le> unat off \<and> unat (ts_alignment seg) dvd unat off \<and>
    unat (sl_offset l') = unat off + unat (ts_size seg) \<and> unat (sl_offset l') \<le> BIONIC_TLS_RESERVE_SIZE \<and> sl_tcb l' = sl_tcb l"
proof -
  let ?v = "unat (sl_offset l)" and ?a = "unat (ts_alignment seg)"
  have va: "valid_alignment (ts_alignment seg)" "?a \<le> 4096" using seg by (auto simp: segment_ok_def)
  then have pos: "0 < ?a" by (simp add: valid_alignment_def unat_gt_0)
  note b = round_up_bounds[OF pos, of ?v]
  have r': "reserve (ts_size seg) (ts_alignment seg) l = (off, l')" using r by (simp add: reserve_solib_segment_def)
  then have "off = BIONIC_ALIGN (sl_offset l) (ts_alignment seg)"
    by (simp add: reserve_def round_up_with_overflow_check_def Let_def split: if_splits)
  moreover have "round_up ?v ?a < 2 ^ 64" using b va small by (simp add: BIONIC_TLS_RESERVE_SIZE_def)
  ultimately have off: "unat off = round_up ?v ?a" using unat_BIONIC_ALIGN[OF va(1), of "sl_offset l"] by simp
  have sum: "unat off + unat (ts_size seg) \<le> BIONIC_TLS_RESERVE_SIZE" using fits by (auto simp: bad_static_range_def)
  then have "round_up ?v ?a + unat (ts_size seg) < 2 ^ 64" unfolding off by (simp add: BIONIC_TLS_RESERVE_SIZE_def)
  from reserve_exact(1)[OF va(1) r' this] reserve_exact(4)[OF va(1) r'] b sum off show ?thesis by simp
qed

lemma promote_inv:
  assumes inv: "linker_inv s (g_entries g)" and run: "promote_tls_module_to_static h mem si s g t = Inr (off, s', g', t')"
  shows "linker_inv s' (g_entries g') \<and>
    (s' = s \<and> g' = g \<and> t' = t \<or>
     (\<exists>src isz ssz. hybris_init_static_tls_for_thread h (unat off) (Some src) isz ssz g t = Inr (g', t') \<and>
        isz \<le> length src \<and> fresh_range g (unat off) ssz)) \<and>
    (\<exists>st k. lt_soinfo s si = Some st \<and> lt_soinfo s' si = Some st \<and> k < length (g_tls_modules s') \<and> tm_soinfo_ptr (g_tls_modules s' ! k) = si \<and>
       tm_segment (g_tls_modules s' ! k) = st_segment st \<and> tm_static_offset (g_tls_modules s' ! k) = off \<and> off \<noteq> SIZE_MAX)"
proof -
  let ?tbl = "g_tls_modules s"
  have small: "length ?tbl \<le> max_modules" and ok: "objects_ok ?tbl (lt_soinfo s)" and sok: "statics_ok ?tbl (g_entries g)"
    and lok: "layout_ok (lt_layout s) ?tbl (g_entries g)" and hooked: "lt_hooked s" "\<not> lt_finished s"
    using inv by (simp_all add: linker_inv_def)
  from run hooked obtain st where st: "lt_soinfo s si = Some st" "st_module_id st \<noteq> 0"
    by (auto simp: promote_tls_module_to_static_def kTlsUninitializedModuleId_def split: option.splits if_splits)
  from objects_ok_slot[OF ok this] obtain k where k: "k < length ?tbl" "st_module_id st = of_nat k + 1"
    "tm_soinfo_ptr (?tbl ! k) = si" "tm_segment (?tbl ! k) = st_segment st" .
  have "k < 2 ^ 64" using table_idx_small[OF small k(1)] by simp
  then have idx: "unat (tls_module_id_to_idx (st_module_id st)) = k" unfolding k(2) by (rule module_idx_roundtrip)
  let ?md = "?tbl ! k" and ?seg = "st_segment st"
  show ?thesis
  proof (cases "tm_static_offset ?md = SIZE_MAX")
    case False
    with run hooked st idx k have "off = tm_static_offset ?md" "s' = s" "g' = g" "t' = t"
      by (auto simp: promote_tls_module_to_static_def kTlsUninitializedModuleId_def)
    with False inv st k show ?thesis by auto
  next
    case True
    obtain l where r: "reserve_solib_segment ?seg (lt_layout s) = (fst (reserve_solib_segment ?seg (lt_layout s)), l)"
      by (cases "reserve_solib_segment ?seg (lt_layout s)") simp
    define s1 where "s1 = snd (bump_generation (s\<lparr>lt_layout := l\<rparr>))"
    define md where "md = ?md\<lparr>tm_static_offset := off, tm_first_generation := fst (bump_generation (s\<lparr>lt_layout := l\<rparr>))\<rparr>"
    from run hooked st idx k True r have off: "fst (reserve_solib_segment ?seg (lt_layout s)) = off"
      and s': "s' = set_modules (?tbl[k := md]) s1"
      and hook: "hybris_init_static_tls_for_thread h (unat off) (bytes_at mem (ts_init_ptr ?seg) (unat (ts_init_size ?seg)))
        (unat (ts_init_size ?seg)) (unat (ts_size ?seg)) g t = Inr (g', t')"
      by (auto simp: promote_tls_module_to_static_def kTlsUninitializedModuleId_def Let_def case_prod_unfold s1_def md_def
          split: sum.splits)
    define e where "e = \<lparr>pt_offset = unat off, pt_init_data = (if unat (ts_init_size ?seg) > 0
        then take (unat (ts_init_size ?seg)) (the (bytes_at mem (ts_init_ptr ?seg) (unat (ts_init_size ?seg)))) else []),
      pt_init_size = unat (ts_init_size ?seg), pt_segment_size = unat (ts_size ?seg)\<rparr>"
    note ent = init_static_entry[OF hook, folded e_def]
    have seg: "segment_ok ?seg" using objects_ok_object[OF ok st(1)] by simp
    have tcb: "sl_tcb (lt_layout s) = 0" "72 \<le> unat (sl_offset (lt_layout s))"
      and top: "unat (sl_offset (lt_layout s)) \<le> BIONIC_TLS_RESERVE_SIZE"
      and below: "\<forall>d \<in> set (g_entries g). pt_offset d + pt_segment_size d \<le> unat (sl_offset (lt_layout s))"
      using lok k(1) by (auto simp: layout_ok_def split: if_splits)
    have res: "unat (sl_offset (lt_layout s)) \<le> unat off" "unat (ts_alignment ?seg) dvd unat off"
      "unat (sl_offset l) = unat off + unat (ts_size ?seg)" "unat (sl_offset l) \<le> BIONIC_TLS_RESERVE_SIZE" "sl_tcb l = 0"
      using reserve_promoted[OF seg top _ conjunct1[OF ent], of l] r off tcb by auto
    have entry: "entry_for md e" using res k by (simp add: entry_for_def md_def e_def)
    have fresh: "fresh_range g (unat off) (unat (ts_size ?seg))"
      using below res tcb by (fastforce simp: fresh_range_def seg_bytes_def)
    have nomax: "off \<noteq> SIZE_MAX" using res unat_SIZE_MAX by (auto simp: BIONIC_TLS_RESERVE_SIZE_def)
    have "objects_ok (?tbl[k := md]) (lt_soinfo s)" using ok by (rule objects_ok_same_links) (simp_all add: md_def)
    moreover have "statics_ok (?tbl[k := md]) (g_entries g')"
      using ent entry statics_ok_mono[OF sok] by (intro statics_ok_static[where e = e]) auto
    moreover have "layout_ok l (?tbl[k := md]) (g_entries g')"
      using ent below res tcb by (fastforce simp: layout_ok_def e_def SIZE_MAX_def)
    ultimately have inv': "linker_inv s' (g_entries g')" using inv by (simp add: linker_inv_def s' s1_def)
    have step: "\<exists>src isz ssz. hybris_init_static_tls_for_thread h (unat off) (Some src) isz ssz g t = Inr (g', t') \<and>
        isz \<le> length src \<and> fresh_range g (unat off) ssz"
    proof (cases "ts_init_ptr ?seg = 0")
      case True
      then have "unat (ts_init_size ?seg) = 0" using ent by (auto simp: bytes_at_def)
      with hook True fresh show ?thesis
        by (intro exI[of _ "[]"] exI[of _ 0] exI[of _ "unat (ts_size ?seg)"]) (simp add: bytes_at_def init_static_null)
    next
      case False
      then show ?thesis using hook fresh
        by (intro exI[of _ "the (bytes_at mem (ts_init_ptr ?seg) (unat (ts_init_size ?seg)))"]
            exI[of _ "unat (ts_init_size ?seg)"] exI[of _ "unat (ts_size ?seg)"]) (simp add: bytes_at_def)
    qed
    have "lt_soinfo s' si = Some st" using st by (simp add: s' s1_def)
    then show ?thesis using inv' step st k nomax by (auto simp: s' md_def intro!: exI[of _ k])
  qed
qed

text \<open>The relocation's way to a static offset has the same contract.\<close>

definition at_static_slot :: "linker_tls \<Rightarrow> u64 \<Rightarrow> soinfo_tls \<Rightarrow> nat \<Rightarrow> u64 \<Rightarrow> bool" where
  "at_static_slot s si st k off \<longleftrightarrow> lt_soinfo s si = Some st \<and> k < length (g_tls_modules s) \<and>
     tm_soinfo_ptr (g_tls_modules s ! k) = si \<and> tm_segment (g_tls_modules s ! k) = st_segment st \<and>
     tm_static_offset (g_tls_modules s ! k) = off \<and> off \<noteq> SIZE_MAX"

lemma static_offset_inv:
  assumes inv: "linker_inv s (g_entries g)" and run: "static_offset_for h mem si s g t = Inr (off, s', g', t')"
  shows "linker_inv s' (g_entries g') \<and>
    (s' = s \<and> g' = g \<and> t' = t \<or>
     (\<exists>src isz ssz. hybris_init_static_tls_for_thread h (unat off) (Some src) isz ssz g t = Inr (g', t') \<and>
        isz \<le> length src \<and> fresh_range g (unat off) ssz)) \<and>
    (\<exists>st k. lt_soinfo s si = Some st \<and> at_static_slot s' si st k off)"
proof -
  let ?tbl = "g_tls_modules s"
  have small: "length ?tbl \<le> max_modules" and ok: "objects_ok ?tbl (lt_soinfo s)" using inv by (simp_all add: linker_inv_def)
  from run obtain st md where st: "lt_soinfo s si = Some st" and md: "get_tls_module (st_module_id st) s = Inr md"
    and rest: "(if tm_static_offset md = SIZE_MAX then promote_tls_module_to_static h mem si s g t
      else Inr (tm_static_offset md, s, g, t)) = Inr (off, s', g', t')"
    by (auto simp: static_offset_for_def try_then_Inr split: option.splits)
  have "st_module_id st \<noteq> 0"
  proof
    assume "st_module_id st = 0"
    then have "unat (tls_module_id_to_idx (st_module_id st)) = 2 ^ 64 - 1"
      using unat_SIZE_MAX by (simp add: tls_module_id_to_idx_def SIZE_MAX_def)
    with md small show False by (simp add: get_tls_module_def max_modules_def)
  qed
  from objects_ok_slot[OF ok st this] obtain k where k: "k < length ?tbl" "st_module_id st = of_nat k + 1"
    "tm_soinfo_ptr (?tbl ! k) = si" "tm_segment (?tbl ! k) = st_segment st" .
  have "k < 2 ^ 64" using table_idx_small[OF small k(1)] by simp
  then have "unat (tls_module_id_to_idx (st_module_id st)) = k" unfolding k(2) by (rule module_idx_roundtrip)
  with md k(1) have md_eq: "md = ?tbl ! k" by (simp add: get_tls_module_def)
  show ?thesis
  proof (cases "tm_static_offset md = SIZE_MAX")
    case True
    with rest have "promote_tls_module_to_static h mem si s g t = Inr (off, s', g', t')" by simp
    from promote_inv[OF inv this] st show ?thesis unfolding at_static_slot_def by blast
  next
    case False
    with rest have "off = tm_static_offset md" "s' = s" "g' = g" "t' = t" by auto
    with False inv st k md_eq show ?thesis unfolding at_static_slot_def by blast
  qed
qed

definition ld_inv :: "ld_world \<Rightarrow> bool" where
  "ld_inv W \<longleftrightarrow> linker_inv (lw_linker W) (g_entries (w_globals (lw_tls W)))"

lemma ld_inv_start: "ld_inv \<lparr>lw_linker = initial_linker empty_init, lw_tls = initial_world\<rparr>"
  by (simp add: ld_inv_def linker_inv_def initial_linker_def initial_world_def objects_ok_def statics_ok_def layout_ok_def empty_layout_def)

text \<open>One step of the whole: the invariant is kept, and the threads stay or make a step of their own.\<close>

lemma ld_step_inv:
  assumes "ld_step W W'" "ld_inv W"
  shows "ld_inv W' \<and> (lw_tls W' = lw_tls W \<or> tls_step (lw_tls W) (lw_tls W'))"
  using assms
proof (induction rule: ld_step.induct)
  case (ld_prelink si W phdrs bias seg)
  then show ?case using linker_inv_prelink by (simp add: ld_inv_def)
next
  case (ld_register si W s')
  then show ?case using linker_inv_register by (auto simp: ld_inv_def)
next
  case (ld_unload si W s')
  then show ?case using linker_inv_unregister by (auto simp: ld_inv_def)
next
  case (ld_thread W w')
  then show ?case by (simp add: ld_inv_def)
next
  case (ld_relocate h mem si W i off s' g' t')
  let ?w = "lw_tls W"
  note r = static_offset_inv[OF ld_relocate.prems[unfolded ld_inv_def] ld_relocate.hyps]
  show ?case
  proof (cases "s' = lw_linker W \<and> g' = w_globals ?w \<and> t' = w_thread ?w i")
    case True
    then show ?thesis using ld_relocate.prems by (simp add: ld_inv_def)
  next
    case False
    with r obtain src isz ssz where p: "hybris_init_static_tls_for_thread h (unat off) (Some src) isz ssz (w_globals ?w) (w_thread ?w i) = Inr (g', t')"
      "isz \<le> length src" "fresh_range (w_globals ?w) (unat off) ssz" by blast
    from tls_step.promote[OF this] r show ?thesis by (simp add: ld_inv_def)
  qed
qed

lemma ld_reachable_inv: "ld_reachable W \<Longrightarrow> ld_inv W \<and> tls_reachable (lw_tls W)"
proof (induction rule: ld_reachable.induct)
  case (ld_start empty_init)
  then show ?case by (simp add: ld_inv_start tls_reachable.start)
next
  case (ld_next W W')
  then show ?case using ld_step_inv[of W W'] tls_reachable.step by metis
qed

text \<open>A slot with a static offset keeps it, whatever the linker does next.\<close>

definition keeps_statics :: "TlsModule list \<Rightarrow> TlsModule list \<Rightarrow> bool" where
  "keeps_statics tbl tbl' \<longleftrightarrow> (\<forall>k < length tbl. tm_static_offset (tbl ! k) \<noteq> SIZE_MAX \<longrightarrow>
     k < length tbl' \<and> tm_static_offset (tbl' ! k) = tm_static_offset (tbl ! k) \<and>
     tm_segment (tbl' ! k) = tm_segment (tbl ! k) \<and> tm_soinfo_ptr (tbl' ! k) \<in> {tm_soinfo_ptr (tbl ! k), 0})"

lemma keeps_statics_refl [simp]: "keeps_statics tbl tbl"
  by (simp add: keeps_statics_def)

lemma keeps_statics_append [simp]: "keeps_statics tbl (tbl @ xs)"
  by (simp add: keeps_statics_def nth_append)

lemma keeps_statics_update:
  "tm_static_offset (tbl ! i) = SIZE_MAX \<Longrightarrow> keeps_statics tbl (tbl[i := md])"
  unfolding keeps_statics_def length_list_update by (metis insertI1 nth_list_update_neq)

lemma keeps_statics_detach: "keeps_statics tbl (tbl[i := (tbl ! i)\<lparr>tm_soinfo_ptr := 0\<rparr>])"
  unfolding keeps_statics_def length_list_update
proof (intro allI impI)
  fix k assume "k < length tbl"
  then show "k < length tbl \<and> tm_static_offset (tbl[i := (tbl ! i)\<lparr>tm_soinfo_ptr := 0\<rparr>] ! k) = tm_static_offset (tbl ! k) \<and>
    tm_segment (tbl[i := (tbl ! i)\<lparr>tm_soinfo_ptr := 0\<rparr>] ! k) = tm_segment (tbl ! k) \<and>
    tm_soinfo_ptr (tbl[i := (tbl ! i)\<lparr>tm_soinfo_ptr := 0\<rparr>] ! k) \<in> {tm_soinfo_ptr (tbl ! k), 0}"
    by (cases "k = i") simp_all
qed

lemma keeps_statics_trans:
  assumes "keeps_statics a b" "keeps_statics b c"
  shows "keeps_statics a c"
  unfolding keeps_statics_def
proof (intro allI impI)
  fix k assume k: "k < length a" "tm_static_offset (a ! k) \<noteq> SIZE_MAX"
  with assms(1) have b: "k < length b" "tm_static_offset (b ! k) = tm_static_offset (a ! k)" "tm_segment (b ! k) = tm_segment (a ! k)"
    "tm_soinfo_ptr (b ! k) \<in> {tm_soinfo_ptr (a ! k), 0}" by (auto simp: keeps_statics_def)
  with k assms(2) have "k < length c" "tm_static_offset (c ! k) = tm_static_offset (b ! k)" "tm_segment (c ! k) = tm_segment (b ! k)"
    "tm_soinfo_ptr (c ! k) \<in> {tm_soinfo_ptr (b ! k), 0}" by (auto simp: keeps_statics_def)
  with b show "k < length c \<and> tm_static_offset (c ! k) = tm_static_offset (a ! k) \<and> tm_segment (c ! k) = tm_segment (a ! k) \<and>
    tm_soinfo_ptr (c ! k) \<in> {tm_soinfo_ptr (a ! k), 0}" by auto
qed

lemma register_module_keeps:
  assumes "register_tls_module si off s = Inr s'"
  shows "keeps_statics (g_tls_modules s) (g_tls_modules s')"
proof -
  from assms obtain i s1 where g: "get_unused_module_index s = Inr (i, s1)"
    by (auto simp: register_tls_module_def try_then_Inr)
  note u = get_unused_spec[OF g]
  from assms obtain md where "g_tls_modules s' = (g_tls_modules s1)[i := md]"
    by (auto simp: register_tls_module_def g Let_def case_prod_unfold split: option.splits)
  then have "keeps_statics (g_tls_modules s1) (g_tls_modules s')" using u(5) keeps_statics_update by simp
  moreover have "keeps_statics (g_tls_modules s) (g_tls_modules s1)" using u(2) by auto
  ultimately show ?thesis by (rule keeps_statics_trans[rotated])
qed

lemma promote_keeps:
  assumes "promote_tls_module_to_static h mem si s g t = Inr (off, s', g', t')"
  shows "keeps_statics (g_tls_modules s) (g_tls_modules s')"
proof -
  from assms obtain st where st: "\<not> lt_finished s" "lt_soinfo s si = Some st" "st_module_id st \<noteq> kTlsUninitializedModuleId"
    unfolding promote_tls_module_to_static_def by (cases "lt_soinfo s si") (simp_all split: if_splits)
  obtain i where idx: "unat (tls_module_id_to_idx (st_module_id st)) = i" by blast
  have i: "i < length (g_tls_modules s)" "tm_soinfo_ptr (g_tls_modules s ! i) = si"
    using assms st idx unfolding promote_tls_module_to_static_def Let_def by (simp_all split: if_splits)
  show ?thesis
  proof (cases "tm_static_offset (g_tls_modules s ! i) = SIZE_MAX")
    case False
    then have "s' = s" using assms st idx i False unfolding promote_tls_module_to_static_def Let_def by simp
    then show ?thesis by simp
  next
    case True
    define s1 where "s1 = snd (bump_generation (s\<lparr>lt_layout := snd (reserve_solib_segment (st_segment st) (lt_layout s))\<rparr>))"
    have "\<exists>md. s' = set_modules ((g_tls_modules s1)[i := md]) s1"
      using assms st idx i True unfolding promote_tls_module_to_static_def Let_def case_prod_unfold s1_def
      by (simp split: if_splits sum.splits) auto
    then show ?thesis using True keeps_statics_update by (auto simp: s1_def)
  qed
qed

lemma unregister_keeps:
  assumes "unregister_soinfo_tls si s = Inr s'"
  shows "keeps_statics (g_tls_modules s) (g_tls_modules s')"
proof (cases "s' = s")
  case False
  with assms obtain st where st: "lt_soinfo s si = Some st" and run: "unregister_tls_module si s = Inr s'"
    unfolding unregister_soinfo_tls_def by (cases "lt_soinfo s si") (simp_all split: if_splits)
  obtain i where idx: "unat (tls_module_id_to_idx (st_module_id st)) = i" by blast
  have i: "i < length (g_tls_modules s)" "tm_soinfo_ptr (g_tls_modules s ! i) = si"
    using run st idx unfolding unregister_tls_module_def Let_def by (simp_all split: if_splits)
  have "g_tls_modules s' = (g_tls_modules s)[i := (if tm_static_offset (g_tls_modules s ! i) = SIZE_MAX
      then empty_module (lt_empty_init s) else (g_tls_modules s ! i)\<lparr>tm_soinfo_ptr := 0\<rparr>)]"
    using run st idx i unfolding unregister_tls_module_def Let_def by auto
  then show ?thesis using keeps_statics_update keeps_statics_detach by simp
qed simp

lemma register_keeps:
  assumes "register_soinfo_tls si s = Inr s'"
  shows "keeps_statics (g_tls_modules s) (g_tls_modules s')"
proof (cases "s' = s")
  case False
  with assms have "register_tls_module si SIZE_MAX s = Inr s' \<or> (\<exists>l. register_tls_module si SIZE_MAX (s\<lparr>lt_layout := l\<rparr>) = Inr s')"
    unfolding register_soinfo_tls_def
    by (cases "lt_soinfo s si"; cases "sl_tcb (lt_layout s) = SIZE_MAX"; cases "reserve_exe_segment_and_tcb None (lt_layout s)")
      (auto split: if_splits)
  then show ?thesis
  proof (elim disjE exE)
    fix l assume "register_tls_module si SIZE_MAX (s\<lparr>lt_layout := l\<rparr>) = Inr s'"
    from register_module_keeps[OF this] show ?thesis by simp
  qed (rule register_module_keeps)
qed simp

lemma static_offset_keeps:
  assumes "static_offset_for h mem si s g t = Inr (off, s', g', t')"
  shows "keeps_statics (g_tls_modules s) (g_tls_modules s')"
proof (cases "s' = s")
  case False
  with assms have "promote_tls_module_to_static h mem si s g t = Inr (off, s', g', t')"
    unfolding static_offset_for_def by (cases "lt_soinfo s si") (auto simp: try_then_Inr split: if_splits)
  then show ?thesis by (rule promote_keeps)
qed simp

lemma ld_step_keeps: "ld_step W W' \<Longrightarrow> keeps_statics (g_tls_modules (lw_linker W)) (g_tls_modules (lw_linker W'))"
proof (induction rule: ld_step.induct)
  case (ld_register si W s')
  from register_keeps[OF this] show ?case by simp
next
  case (ld_relocate h mem si W i off s' g' t')
  from static_offset_keeps[OF this] show ?case by simp
next
  case (ld_unload si W s')
  from unregister_keeps[OF this] show ?case by simp
qed simp_all

section \<open>A concrete run\<close>

text \<open>One library with TLS is prelinked, registered, promoted by thread 0, and unloaded.\<close>

definition demo_seg :: TlsSegment where
  "demo_seg = \<lparr>ts_size = 16, ts_alignment = 8, ts_init_ptr = 0x4000, ts_init_size = 2\<rparr>"

definition demo_tls_phdr :: tls_phdr where
  "demo_tls_phdr = \<lparr>p_type = 7, p_flags = 4, p_offset = 0x2000, p_vaddr = 0x3000, p_filesz = 2, p_memsz = 16, p_align = 8\<rparr>"

definition demo_mem :: "u64 \<Rightarrow> u8" where "demo_mem = (\<lambda>x. 0)(0x4000 := 7, 0x4001 := 9)"

definition linker_with :: "StaticTlsLayout \<Rightarrow> u64 \<Rightarrow> TlsModule list \<Rightarrow> u64 \<Rightarrow> (u64 \<Rightarrow> soinfo_tls option) \<Rightarrow> linker_tls" where
  "linker_with l gen tbl copy so = \<lparr>lt_finished = False,
      lt_modules = \<lparr>tms_generation = gen, tms_generation_libc_so = None, tms_module_count = length tbl,
        tms_module_table = tbl, tms_on_creation_cb = False, tms_on_destruction_cb = False\<rparr>,
      lt_generation_copy = copy, lt_layout = l, lt_soinfo = so, lt_empty_init = 0x900, lt_hooked = True\<rparr>"

definition demo_object :: "u64 \<Rightarrow> u64 \<Rightarrow> soinfo_tls option" where
  "demo_object i = (\<lambda>si. None)(0x100 := Some \<lparr>st_segment = demo_seg, st_module_id = i\<rparr>)"

definition demo_slot :: "u64 \<Rightarrow> u64 \<Rightarrow> u64 \<Rightarrow> TlsModule" where
  "demo_slot off gen si = \<lparr>tm_segment = demo_seg, tm_static_offset = off, tm_first_generation = gen, tm_soinfo_ptr = si\<rparr>"

definition layout_at :: "u64 \<Rightarrow> StaticTlsLayout" where
  "layout_at off = \<lparr>sl_offset = off, sl_alignment = 8, sl_overflowed = False, sl_tcb = 0, sl_tls = SIZE_MAX\<rparr>"

definition demo_globals :: tls_globals where
  "demo_globals = \<lparr>g_entries = [\<lparr>pt_offset = 72, pt_init_data = [7, 9], pt_init_size = 2, pt_segment_size = 16\<rparr>],
     g_capacity = 16, g_published = 1, g_key_done = True\<rparr>"

definition demo_thread :: thread_tls where
  "demo_thread = \<lparr>tt_arena = Some (store_at (\<lambda>x. 0) 72 [7, 9]), tt_inited = False, tt_cursor = 1, tt_shadow = []\<rparr>"

definition demo_prelinked :: ld_world where
  "demo_prelinked = \<lparr>lw_linker = linker_with empty_layout 1 [] SIZE_MAX (demo_object 0), lw_tls = initial_world\<rparr>"

definition demo_registered :: ld_world where
  "demo_registered = \<lparr>lw_linker = linker_with (layout_at 72) 2 [demo_slot SIZE_MAX 2 0x100] 2 (demo_object 1), lw_tls = initial_world\<rparr>"

definition demo_promoted :: ld_world where
  "demo_promoted = \<lparr>lw_linker = linker_with (layout_at 88) 3 [demo_slot 72 3 0x100] 3 (demo_object 1),
     lw_tls = initial_world\<lparr>w_globals := demo_globals, w_thread := (\<lambda>i. fresh_thread)(0 := demo_thread)\<rparr>\<rparr>"

definition demo_unloaded :: ld_world where
  "demo_unloaded = demo_promoted\<lparr>lw_linker := linker_with (layout_at 88) 3 [demo_slot 72 3 0] 3 (\<lambda>si. None)\<rparr>"

lemma demo_prelinked_reachable: "ld_reachable demo_prelinked"
proof -
  let ?W = "\<lparr>lw_linker = initial_linker 0x900, lw_tls = initial_world\<rparr>"
  have "prelink_tls [demo_tls_phdr] 0x1000 = Inr (Some demo_seg)"
    by (simp add: prelink_tls_def demo_tls_phdr_def PT_TLS_def bionic_check_tls_alignment_def powerof2_def PAGE_SIZE_def demo_seg_def)
  then have "ld_step ?W (?W\<lparr>lw_linker := (lw_linker ?W)\<lparr>lt_soinfo := (lt_soinfo (lw_linker ?W))
       (0x100 := Some \<lparr>st_segment = demo_seg, st_module_id = kTlsUninitializedModuleId\<rparr>)\<rparr>\<rparr>)"
    by (rule ld_prelink[rotated 2]) (simp_all add: initial_linker_def)
  moreover have "?W\<lparr>lw_linker := (lw_linker ?W)\<lparr>lt_soinfo := (lt_soinfo (lw_linker ?W))
       (0x100 := Some \<lparr>st_segment = demo_seg, st_module_id = kTlsUninitializedModuleId\<rparr>)\<rparr>\<rparr> = demo_prelinked"
    by (simp add: demo_prelinked_def linker_with_def demo_object_def initial_linker_def tls_ids)
  ultimately show ?thesis using ld_start ld_next by metis
qed

lemma demo_registered_reachable: "ld_reachable demo_registered"
proof -
  have "register_soinfo_tls 0x100 (lw_linker demo_prelinked) = Inr (lw_linker demo_registered)"
    by (simp add: demo_prelinked_def demo_registered_def register_soinfo_tls_def linker_with_def demo_object_def tls_ids empty_layout_def
        reserve_exe_segment_and_tcb_def reserve_def round_up_with_overflow_check_def BIONIC_ALIGN_def slot_consts
        register_tls_module_def get_unused_module_index_def max_modules_def set_modules_def bump_generation_def layout_at_def
        demo_slot_def Let_def)
  from ld_register[OF this] have "ld_step demo_prelinked demo_registered" by (simp add: demo_prelinked_def demo_registered_def)
  then show ?thesis by (rule ld_next[OF demo_prelinked_reachable])
qed

lemma demo_static_offset:
  "static_offset_for demo_host demo_mem 0x100 (lw_linker demo_registered) (w_globals (lw_tls demo_registered)) (w_thread (lw_tls demo_registered) 0)
    = Inr (72, lw_linker demo_promoted, demo_globals, demo_thread)"
proof -
  have hook: "hybris_init_static_tls_for_thread demo_host 72 (Some [7, 9]) 2 16 (w_globals initial_world) fresh_thread = Inr (demo_globals, demo_thread)"
    by (simp add: hybris_init_static_tls_for_thread_def bad_static_range_def tls_consts registry_append_def catch_up_def
        hybris_apply_static_tls_locked_def hybris_ensure_static_tls_def bionic_tls_key_init_def demo_host_def
        initial_world_def fresh_thread_def demo_globals_def demo_thread_def Let_def)
  have "bytes_at demo_mem 0x4000 2 = Some [7, 9]" by (simp add: bytes_at_def demo_mem_def upt_rec)
  with hook show ?thesis
    by (simp add: static_offset_for_def promote_tls_module_to_static_def demo_registered_def demo_promoted_def linker_with_def
        demo_object_def get_tls_module_def tls_ids demo_slot_def SIZE_MAX_def reserve_solib_segment_def demo_seg_def reserve_def
        round_up_with_overflow_check_def BIONIC_ALIGN_def layout_at_def bump_generation_def set_modules_def initial_world_def Let_def)
qed

lemma demo_promoted_step: "ld_step demo_registered demo_promoted"
proof -
  have "(demo_registered\<lparr>lw_linker := lw_linker demo_promoted, lw_tls := (lw_tls demo_registered)\<lparr>w_globals := demo_globals,
      w_thread := (w_thread (lw_tls demo_registered))(0 := demo_thread)\<rparr>\<rparr>) = demo_promoted"
    by (simp add: demo_registered_def demo_promoted_def initial_world_def)
  with ld_relocate[OF demo_static_offset] show ?thesis by simp
qed

lemma demo_promoted_reachable: "ld_reachable demo_promoted"
  by (rule ld_next[OF demo_registered_reachable demo_promoted_step])

lemma demo_unloaded_step: "ld_step demo_promoted demo_unloaded"
proof -
  have "unregister_soinfo_tls 0x100 (lw_linker demo_promoted) = Inr (linker_with (layout_at 88) 3 [demo_slot 72 3 0] 3 (demo_object 0))"
    by (simp add: unregister_soinfo_tls_def unregister_tls_module_def demo_promoted_def linker_with_def demo_object_def tls_ids
        demo_slot_def SIZE_MAX_def set_modules_def Let_def)
  moreover have "(demo_object 0)(0x100 := None) = (\<lambda>si. None)" by (rule ext) (simp add: demo_object_def)
  ultimately show ?thesis using ld_unload[of "0x100" demo_promoted] by (simp add: demo_unloaded_def linker_with_def)
qed

section \<open>Properties\<close>

text \<open>
  C7: The linker keeps what the thread side relies on: every state the linker and the threads can
  reach together is a reachable state of the thread side, where each promoted range lies behind
  the control block and apart from all earlier ranges. Overflowing sizes abort before they do harm.
\<close>

theorem linker_provides_fresh_ranges:
  assumes "ld_reachable W"
  shows "tls_reachable (lw_tls W) \<and>
    sorted_wrt (\<lambda>d e. seg_bytes d \<inter> seg_bytes e = {}) (g_entries (w_globals (lw_tls W))) \<and>
    (\<forall>e \<in> set (g_entries (w_globals (lw_tls W))). 72 \<le> pt_offset e \<and>
       pt_offset e + pt_segment_size e \<le> unat (sl_offset (lt_layout (lw_linker W))) \<and>
       unat (sl_offset (lt_layout (lw_linker W))) \<le> BIONIC_TLS_RESERVE_SIZE)"
proof -
  from ld_reachable_inv[OF assms] have r: "tls_reachable (lw_tls W)"
    and l: "layout_ok (lt_layout (lw_linker W)) (g_tls_modules (lw_linker W)) (g_entries (w_globals (lw_tls W)))"
    by (auto simp: ld_inv_def linker_inv_def)
  from reachable_inv[OF r] have "entries_ok (g_entries (w_globals (lw_tls W)))" by (simp add: world_inv_def)
  with r l show ?thesis by (simp add: entries_ok_def entry_ok_def layout_ok_def)
qed

theorem linker_provides_fresh_ranges_witness:
  "tls_reachable (lw_tls demo_promoted) \<and> pt_offset (hd (g_entries (w_globals (lw_tls demo_promoted)))) = 72 \<and>
   unat (sl_offset (lt_layout (lw_linker demo_promoted))) = 88"
  using linker_provides_fresh_ranges[OF demo_promoted_reachable]
  by (simp add: demo_promoted_def demo_globals_def initial_world_def linker_with_def layout_at_def)

text \<open>
  C36: A table slot that holds a static offset is never recycled: whatever is registered, promoted or
  unloaded later, its offset and segment stay and no other object takes it.
\<close>

theorem static_slot_permanent:
  assumes "ld_step\<^sup>*\<^sup>* W W'" and "k < length (g_tls_modules (lw_linker W))"
    and "tm_static_offset (g_tls_modules (lw_linker W) ! k) \<noteq> SIZE_MAX"
  shows "k < length (g_tls_modules (lw_linker W')) \<and>
    tm_static_offset (g_tls_modules (lw_linker W') ! k) = tm_static_offset (g_tls_modules (lw_linker W) ! k) \<and>
    tm_segment (g_tls_modules (lw_linker W') ! k) = tm_segment (g_tls_modules (lw_linker W) ! k) \<and>
    tm_soinfo_ptr (g_tls_modules (lw_linker W') ! k) \<in> {tm_soinfo_ptr (g_tls_modules (lw_linker W) ! k), 0}"
proof -
  from assms(1) have "keeps_statics (g_tls_modules (lw_linker W)) (g_tls_modules (lw_linker W'))"
    by (induction rule: rtranclp_induct) (auto intro: keeps_statics_trans ld_step_keeps)
  with assms(2,3) show ?thesis unfolding keeps_statics_def by blast
qed

theorem static_slot_permanent_witness:
  "tm_static_offset (g_tls_modules (lw_linker demo_unloaded) ! 0) = 72 \<and>
   tm_segment (g_tls_modules (lw_linker demo_unloaded) ! 0) = demo_seg"
  using static_slot_permanent[OF r_into_rtranclp[of ld_step, OF demo_unloaded_step], of 0]
  by (simp add: demo_promoted_def linker_with_def demo_slot_def SIZE_MAX_def)



end
