(* ===== verification/Linker_Lookup.thy ===== *)
theory Linker_Lookup
  imports Hybris_Prelude
begin

text \<open>
  Symbol lookup of the Q linker: the hash tables, symbol versions and address lookup of
  \<open>q/linker_soinfo.cpp\<close>, the version tracker and the search order of \<open>q/linker.cpp\<close>.  The tables of a
  loaded object are functions from indices to their entries, as the code reads them without
  bounds; strings are C strings without their terminator.  The chain walks may not end on a
  malformed table: there they are \<open>None\<close>.
\<close>

section \<open>Definitions\<close>

type_synonym cstring = "u8 list"

record elf_sym =
  st_name :: u32
  st_info :: u8
  st_shndx :: u16
  st_value :: u64
  st_size :: u64

record elf_verdef =
  vd_version :: u16
  vd_flags :: u16
  vd_ndx :: u16
  vd_cnt :: u16
  vd_hash :: u32
  vd_aux :: u32
  vd_next :: u32

record elf_verneed =
  vn_version :: u16
  vn_cnt :: u16
  vn_file :: u32
  vn_aux :: u32
  vn_next :: u32

record elf_vernaux =
  vna_hash :: u32
  vna_other :: u16
  vna_name :: u32
  vna_next :: u32

text \<open>
  The fields of \<open>soinfo\<close> that the lookup reads.  Version tables are read at byte offsets from their
  start; a null table is \<open>None\<close>.  The bucket counts are 32-bit words of the file, which
  \<open>prelink_image\<close> stores widened.
\<close>

record so_tables =
  so_soname :: "cstring option"
  so_gnu_hash :: bool
  so_symbolic :: bool
  so_bias :: u64
  so_symtab :: "u32 \<Rightarrow> elf_sym"
  so_strtab :: "u32 \<Rightarrow> cstring"
  so_strtab_size :: nat
  so_gnu_nbucket :: u32
  so_gnu_bucket :: "u32 \<Rightarrow> u32"
  so_gnu_chain :: "u32 \<Rightarrow> u32"
  so_gnu_maskwords :: u32
  so_gnu_shift2 :: u32
  so_gnu_bloom :: "u32 \<Rightarrow> u64"
  so_nbucket :: u32
  so_nchain :: nat
  so_bucket :: "u32 \<Rightarrow> u32"
  so_chain :: "u32 \<Rightarrow> u32"
  so_versym :: "(u32 \<Rightarrow> u16) option"
  so_verdef :: "(u64 \<Rightarrow> elf_verdef) option"
  so_verdaux :: "u64 \<Rightarrow> u32"
  so_verdef_cnt :: nat
  so_verneed :: "(u64 \<Rightarrow> elf_verneed) option"
  so_vernaux :: "u64 \<Rightarrow> elf_vernaux"
  so_verneed_cnt :: nat

text \<open>The left summand: a fatal error, or the \<open>false\<close> the code returns after a message.\<close>

datatype lookup_error = StrtabBounds | DivisionByZero | BadVerdef | BadVerneed | NoNeededLibrary | NoVersion

text \<open>The third field of \<open>version_info\<close>, \<open>target_si\<close>, is written and never read.\<close>

record version_info =
  vi_elf_hash :: u32
  vi_name :: cstring

definition get_string :: "so_tables \<Rightarrow> u32 \<Rightarrow> lookup_error + cstring" where
  "get_string so index = (if unat index \<ge> so_strtab_size so then Inl StrtabBounds else Inr (so_strtab so index))"

definition get_versym :: "so_tables \<Rightarrow> u32 \<Rightarrow> u16 option" where
  "get_versym so n = (case so_versym so of Some v \<Rightarrow> Some (v n) | None \<Rightarrow> None)"

subsection \<open>Hashes\<close>

definition elf_hash_step :: "u32 \<Rightarrow> u8 \<Rightarrow> u32" where
  "elf_hash_step h c =
     (let h = push_bit 4 h + ucast c;
          g = h AND 0xf0000000;
          h = h XOR g
      in h XOR drop_bit 24 g)"

definition calculate_elf_hash :: "cstring \<Rightarrow> u32" where
  "calculate_elf_hash name = foldl elf_hash_step 0 name"

definition calculate_gnu_hash :: "cstring \<Rightarrow> u32" where
  "calculate_gnu_hash name = foldl (\<lambda>h c. h + (push_bit 5 h + ucast c)) 5381 name"

text \<open>A symbol name with its cached hashes; \<open>None\<close> is a cleared \<open>has\<close> flag.\<close>

record symbol_name =
  sn_name :: cstring
  sn_elf :: "u32 option"
  sn_gnu :: "u32 option"

definition SymbolName :: "cstring \<Rightarrow> symbol_name" where
  "SymbolName name = \<lparr>sn_name = name, sn_elf = None, sn_gnu = None\<rparr>"

definition elf_hash :: "symbol_name \<Rightarrow> u32 \<times> symbol_name" where
  "elf_hash sn =
     (case sn_elf sn of
        Some h \<Rightarrow> (h, sn)
      | None \<Rightarrow> let h = calculate_elf_hash (sn_name sn) in (h, sn\<lparr>sn_elf := Some h\<rparr>))"

definition gnu_hash :: "symbol_name \<Rightarrow> u32 \<times> symbol_name" where
  "gnu_hash sn =
     (case sn_gnu sn of
        Some h \<Rightarrow> (h, sn)
      | None \<Rightarrow> let h = calculate_gnu_hash (sn_name sn) in (h, sn\<lparr>sn_gnu := Some h\<rparr>))"

subsection \<open>Versions\<close>

definition kVersymNotNeeded :: u16 where "kVersymNotNeeded = 0"
definition kVersymGlobal :: u16 where "kVersymGlobal = 1"
definition kVersymHiddenBit :: u16 where "kVersymHiddenBit = 0x8000"
definition VER_FLG_BASE :: u16 where "VER_FLG_BASE = 1"

lemmas versym_consts = kVersymNotNeeded_def kVersymGlobal_def kVersymHiddenBit_def VER_FLG_BASE_def

text \<open>
  \<open>functor\<close> gets a state, the definition and the offset of its first name, and says whether to stop.
\<close>

fun for_each_verdef_from ::
    "('a \<Rightarrow> elf_verdef \<Rightarrow> u64 \<Rightarrow> lookup_error + 'a \<times> bool) \<Rightarrow> (u64 \<Rightarrow> elf_verdef) \<Rightarrow> nat \<Rightarrow> u64 \<Rightarrow> 'a \<Rightarrow> lookup_error + 'a" where
  "for_each_verdef_from functor tbl 0 offset a = Inr a"
| "for_each_verdef_from functor tbl (Suc n) offset a =
     (let verdef = tbl offset;
          verdaux_offset = offset + ucast (vd_aux verdef);
          offset = offset + ucast (vd_next verdef)
      in if vd_version verdef \<noteq> 1 then Inl BadVerdef
         else if vd_flags verdef AND VER_FLG_BASE \<noteq> 0 then for_each_verdef_from functor tbl n offset a
         else if vd_cnt verdef = 0 then Inl BadVerdef
         else try_then (functor a verdef verdaux_offset) (\<lambda>(a', stop).
           if stop then Inr a' else for_each_verdef_from functor tbl n offset a'))"

definition for_each_verdef ::
    "('a \<Rightarrow> elf_verdef \<Rightarrow> u64 \<Rightarrow> lookup_error + 'a \<times> bool) \<Rightarrow> so_tables \<Rightarrow> 'a \<Rightarrow> lookup_error + 'a" where
  "for_each_verdef functor so a =
     (case so_verdef so of None \<Rightarrow> Inr a | Some tbl \<Rightarrow> for_each_verdef_from functor tbl (so_verdef_cnt so) 0 a)"

definition find_verdef_version_index :: "so_tables \<Rightarrow> version_info option \<Rightarrow> lookup_error + u16" where
  "find_verdef_version_index so vi =
     (case vi of
        None \<Rightarrow> Inr kVersymNotNeeded
      | Some v \<Rightarrow>
          for_each_verdef (\<lambda>versym verdef aux.
            if vd_hash verdef = vi_elf_hash v
            then try_then (get_string so (so_verdaux so aux)) (\<lambda>name.
                   Inr (if vi_name v = name then (vd_ndx verdef, True) else (versym, False)))
            else Inr (versym, False)) so kVersymGlobal)"

text \<open>The tracker: version definitions by index; an entry without a name is unused.\<close>

type_synonym version_tracker = "(u32 \<times> cstring option) list"

definition get_version_info :: "version_tracker \<Rightarrow> u16 \<Rightarrow> version_info option" where
  "get_version_info vt source_symver =
     (if source_symver < 2 \<or> unat source_symver \<ge> length vt then None
      else map_option (\<lambda>name. \<lparr>vi_elf_hash = fst (vt ! unat source_symver), vi_name = name\<rparr>) (snd (vt ! unat source_symver)))"

definition add_version_info :: "nat \<Rightarrow> u32 \<Rightarrow> cstring \<Rightarrow> version_tracker \<Rightarrow> version_tracker" where
  "add_version_info source_index hash ver_name vt =
     (let vt = (if source_index \<ge> length vt then vt @ replicate (source_index + 1 - length vt) (0, None) else vt)
      in vt[source_index := (hash, Some ver_name)])"

fun add_vernaux :: "so_tables \<Rightarrow> nat \<Rightarrow> u64 \<Rightarrow> version_tracker \<Rightarrow> lookup_error + version_tracker" where
  "add_vernaux so 0 offset vt = Inr vt"
| "add_vernaux so (Suc n) offset vt =
     (let vernaux = so_vernaux so offset in
      try_then (get_string so (vna_name vernaux)) (\<lambda>ver_name.
        add_vernaux so n (offset + ucast (vna_next vernaux))
          (add_version_info (unat (vna_other vernaux)) (vna_hash vernaux) ver_name vt)))"

fun init_verneed_from ::
    "so_tables \<Rightarrow> so_tables list \<Rightarrow> (u64 \<Rightarrow> elf_verneed) \<Rightarrow> nat \<Rightarrow> u64 \<Rightarrow> version_tracker \<Rightarrow> lookup_error + version_tracker" where
  "init_verneed_from so children tbl 0 offset vt = Inr vt"
| "init_verneed_from so children tbl (Suc n) offset vt =
     (let verneed = tbl offset;
          vernaux_offset = offset + ucast (vn_aux verneed);
          offset = offset + ucast (vn_next verneed)
      in if vn_version verneed \<noteq> 1 then Inl BadVerneed
         else try_then (get_string so (vn_file verneed)) (\<lambda>target_soname.
           if \<not> (\<exists>si \<in> set children. so_soname si = Some target_soname) then Inl NoNeededLibrary
           else try_then (add_vernaux so (unat (vn_cnt verneed)) vernaux_offset vt)
             (init_verneed_from so children tbl n offset)))"

definition init_verneed :: "so_tables \<Rightarrow> so_tables list \<Rightarrow> version_tracker \<Rightarrow> lookup_error + version_tracker" where
  "init_verneed so children vt =
     (case so_verneed so of None \<Rightarrow> Inr vt | Some tbl \<Rightarrow> init_verneed_from so children tbl (so_verneed_cnt so) 0 vt)"

definition init_verdef :: "so_tables \<Rightarrow> version_tracker \<Rightarrow> lookup_error + version_tracker" where
  "init_verdef so vt =
     for_each_verdef (\<lambda>vt verdef aux.
       try_then (get_string so (so_verdaux so aux)) (\<lambda>name.
         Inr (add_version_info (unat (vd_ndx verdef)) (vd_hash verdef) name vt, False))) so vt"

definition init_tracker :: "so_tables \<Rightarrow> so_tables list \<Rightarrow> version_tracker \<Rightarrow> lookup_error + version_tracker" where
  "init_tracker so children vt = try_then (init_verneed so children vt) (init_verdef so)"

definition lookup_version_info :: "so_tables \<Rightarrow> version_tracker \<Rightarrow> u32 \<Rightarrow> lookup_error + version_info option" where
  "lookup_version_info so vt n =
     (let sym_ver = (case get_versym so n of None \<Rightarrow> 0 | Some v \<Rightarrow> v)
      in if sym_ver \<noteq> 0 \<and> sym_ver \<noteq> 1
         then (case get_version_info vt sym_ver of None \<Rightarrow> Inl NoVersion | Some vi \<Rightarrow> Inr (Some vi))
         else Inr None)"

subsection \<open>Lookup by name\<close>

definition ELF_ST_BIND :: "u8 \<Rightarrow> u8" where "ELF_ST_BIND x = drop_bit 4 x"
definition ELF_ST_TYPE :: "u8 \<Rightarrow> u8" where "ELF_ST_TYPE x = x AND 0xf"

definition is_symbol_global_and_defined :: "elf_sym \<Rightarrow> bool" where
  "is_symbol_global_and_defined s \<longleftrightarrow>
     (ELF_ST_BIND (st_info s) = 1 \<or> ELF_ST_BIND (st_info s) = 2) \<and> st_shndx s \<noteq> 0"

definition is_versym_hidden :: "u16 option \<Rightarrow> bool" where
  "is_versym_hidden versym \<longleftrightarrow> (case versym of None \<Rightarrow> False | Some v \<Rightarrow> v AND kVersymHiddenBit \<noteq> 0)"

definition check_symbol_version :: "u16 \<Rightarrow> u16 option \<Rightarrow> bool" where
  "check_symbol_version verneed verdef \<longleftrightarrow>
     verneed = kVersymNotNeeded \<or> (case verdef of None \<Rightarrow> True | Some v \<Rightarrow> verneed = v AND NOT kVersymHiddenBit)"

text \<open>The test of one symbol that both tables share, after their own conditions.\<close>

definition symbol_matches :: "so_tables \<Rightarrow> cstring \<Rightarrow> u16 \<Rightarrow> u32 \<Rightarrow> lookup_error + bool" where
  "symbol_matches so name verneed n =
     (if check_symbol_version verneed (get_versym so n)
      then try_then (get_string so (st_name (so_symtab so n))) (\<lambda>str.
             Inr (str = name \<and> is_symbol_global_and_defined (so_symtab so n)))
      else Inr False)"

definition skips_hidden :: "so_tables \<Rightarrow> u16 \<Rightarrow> u32 \<Rightarrow> bool" where
  "skips_hidden so verneed n \<longleftrightarrow> verneed = kVersymNotNeeded \<and> is_versym_hidden (get_versym so n)"

text \<open>One round of a chain loop: \<open>None\<close> goes on with the next symbol.\<close>

definition chain_round :: "so_tables \<Rightarrow> cstring \<Rightarrow> u16 \<Rightarrow> bool \<Rightarrow> u32 \<Rightarrow> (lookup_error + u32) option" where
  "chain_round so name verneed hash_ok n =
     (if skips_hidden so verneed n \<or> \<not> hash_ok then None
      else case symbol_matches so name verneed n of
        Inl e \<Rightarrow> Some (Inl e)
      | Inr found \<Rightarrow> if found then Some (Inr n) else None)"

partial_function (option) gnu_chain_walk ::
    "so_tables \<Rightarrow> cstring \<Rightarrow> u32 \<Rightarrow> u16 \<Rightarrow> u32 \<Rightarrow> (lookup_error + u32) option" where
  "gnu_chain_walk so name hash verneed n =
     (case chain_round so name verneed (drop_bit 1 (so_gnu_chain so n XOR hash) = 0) n of
        Some r \<Rightarrow> Some r
      | None \<Rightarrow>
          if so_gnu_chain so n AND 1 = 0 then gnu_chain_walk so name hash verneed (n + 1) else Some (Inr 0))"

definition bloom_rejects :: "so_tables \<Rightarrow> u32 \<Rightarrow> bool" where
  "bloom_rejects so hash \<longleftrightarrow>
     (let h2 = drop_bit (unat (so_gnu_shift2 so)) hash;
          word_num = (hash div 64) AND so_gnu_maskwords so;
          bloom_word = so_gnu_bloom so word_num
      in 1 AND drop_bit (unat (hash mod 64)) bloom_word AND drop_bit (unat (h2 mod 64)) bloom_word = 0)"

definition gnu_lookup :: "so_tables \<Rightarrow> symbol_name \<Rightarrow> version_info option \<Rightarrow> (lookup_error + u32) option" where
  "gnu_lookup so sn vi =
     (let hash = fst (gnu_hash sn) in
      if bloom_rejects so hash then Some (Inr 0)
      else if so_gnu_nbucket so = 0 then Some (Inl DivisionByZero)
      else
        let n = so_gnu_bucket so (hash mod so_gnu_nbucket so) in
        if n = 0 then Some (Inr 0)
        else case find_verdef_version_index so vi of
          Inl e \<Rightarrow> Some (Inl e)
        | Inr verneed \<Rightarrow> gnu_chain_walk so (sn_name sn) hash verneed n)"

partial_function (option) elf_chain_walk ::
    "so_tables \<Rightarrow> cstring \<Rightarrow> u16 \<Rightarrow> u32 \<Rightarrow> (lookup_error + u32) option" where
  "elf_chain_walk so name verneed n =
     (if n = 0 then Some (Inr 0)
      else case chain_round so name verneed True n of
        Some r \<Rightarrow> Some r
      | None \<Rightarrow> elf_chain_walk so name verneed (so_chain so n))"

definition elf_lookup :: "so_tables \<Rightarrow> symbol_name \<Rightarrow> version_info option \<Rightarrow> (lookup_error + u32) option" where
  "elf_lookup so sn vi =
     (let hash = fst (elf_hash sn) in
      case find_verdef_version_index so vi of
        Inl e \<Rightarrow> Some (Inl e)
      | Inr verneed \<Rightarrow>
          if so_nbucket so = 0 then Some (Inl DivisionByZero)
          else elf_chain_walk so (sn_name sn) verneed (so_bucket so (hash mod so_nbucket so)))"

text \<open>Index zero is the undefined symbol: the null pointer of \<open>find_symbol_by_name\<close>.\<close>

definition find_symbol_by_name ::
    "so_tables \<Rightarrow> symbol_name \<Rightarrow> version_info option \<Rightarrow> (lookup_error + u32 option) option" where
  "find_symbol_by_name so sn vi =
     map_option (map_sum id (\<lambda>i. if i = 0 then None else Some i))
       (if so_gnu_hash so then gnu_lookup so sn vi else elf_lookup so sn vi)"

subsection \<open>Lookup by address\<close>

definition symbol_matches_soaddr :: "elf_sym \<Rightarrow> u64 \<Rightarrow> bool" where
  "symbol_matches_soaddr s soaddr \<longleftrightarrow>
     st_shndx s \<noteq> 0 \<and> ELF_ST_TYPE (st_info s) \<noteq> 6 \<and> soaddr \<ge> st_value s \<and> soaddr < st_value s + st_size s"

partial_function (option) gnu_addr_chain :: "so_tables \<Rightarrow> u64 \<Rightarrow> u32 \<Rightarrow> u32 option option" where
  "gnu_addr_chain so soaddr n =
     (if symbol_matches_soaddr (so_symtab so n) soaddr then Some (Some n)
      else if so_gnu_chain so n AND 1 = 0 then gnu_addr_chain so soaddr (n + 1)
      else Some None)"

fun gnu_addr_buckets :: "so_tables \<Rightarrow> u64 \<Rightarrow> u32 list \<Rightarrow> u32 option option" where
  "gnu_addr_buckets so soaddr [] = Some None"
| "gnu_addr_buckets so soaddr (i # is) =
     (if so_gnu_bucket so i = 0 then gnu_addr_buckets so soaddr is
      else case gnu_addr_chain so soaddr (so_gnu_bucket so i) of
        None \<Rightarrow> None
      | Some (Some n) \<Rightarrow> Some (Some n)
      | Some None \<Rightarrow> gnu_addr_buckets so soaddr is)"

definition gnu_addr_lookup :: "so_tables \<Rightarrow> u64 \<Rightarrow> u32 option option" where
  "gnu_addr_lookup so addr = gnu_addr_buckets so (addr - so_bias so) (map of_nat [0..<unat (so_gnu_nbucket so)])"

definition elf_addr_lookup :: "so_tables \<Rightarrow> u64 \<Rightarrow> u32 option" where
  "elf_addr_lookup so addr =
     (let soaddr = addr - so_bias so
      in map_option of_nat (List.find (\<lambda>i. symbol_matches_soaddr (so_symtab so (of_nat i)) soaddr) [0..<so_nchain so]))"

definition find_symbol_by_address :: "so_tables \<Rightarrow> u64 \<Rightarrow> u32 option option" where
  "find_symbol_by_address so addr = (if so_gnu_hash so then gnu_addr_lookup so addr else Some (elf_addr_lookup so addr))"

text \<open>\<open>ifunc\<close> calls the resolver of an indirect function.\<close>

definition resolve_symbol_address :: "(u64 \<Rightarrow> u64) \<Rightarrow> so_tables \<Rightarrow> elf_sym \<Rightarrow> u64" where
  "resolve_symbol_address ifunc so s =
     (if ELF_ST_TYPE (st_info s) = 10 then ifunc (st_value s + so_bias so) else st_value s + so_bias so)"

subsection \<open>The search order\<close>

text \<open>The visit of a group: the first object that has the symbol, or the first error.\<close>

fun visit_group ::
    "('k \<Rightarrow> so_tables) \<Rightarrow> symbol_name \<Rightarrow> version_info option \<Rightarrow> 'k list \<Rightarrow> (lookup_error + ('k \<times> u32) option) option" where
  "visit_group tables sn vi [] = Some (Inr None)"
| "visit_group tables sn vi (si # sis) =
     (case find_symbol_by_name (tables si) sn vi of
        None \<Rightarrow> None
      | Some (Inl e) \<Rightarrow> Some (Inl e)
      | Some (Inr (Some s)) \<Rightarrow> Some (Inr (Some (si, s)))
      | Some (Inr None) \<Rightarrow> visit_group tables sn vi sis)"

definition soinfo_do_lookup ::
    "('k \<Rightarrow> so_tables) \<Rightarrow> 'k \<Rightarrow> cstring \<Rightarrow> version_info option \<Rightarrow> 'k list \<Rightarrow> 'k list
      \<Rightarrow> (lookup_error + ('k \<times> u32) option) option" where
  "soinfo_do_lookup tables si_from name vi global_group local_group =
     (let sn = SymbolName name;
          own = (if so_symbolic (tables si_from) then visit_group tables sn vi [si_from] else Some (Inr None))
      in case own of
           None \<Rightarrow> None
         | Some (Inl e) \<Rightarrow> Some (Inl e)
         | Some (Inr (Some r)) \<Rightarrow> Some (Inr (Some r))
         | Some (Inr None) \<Rightarrow>
             (case visit_group tables sn vi global_group of
                None \<Rightarrow> None
              | Some (Inl e) \<Rightarrow> Some (Inl e)
              | Some (Inr (Some r)) \<Rightarrow> Some (Inr (Some r))
              | Some (Inr None) \<Rightarrow>
                  visit_group tables sn vi
                    (filter (\<lambda>si. \<not> (si = si_from \<and> so_symbolic (tables si_from))) local_group)))"

section \<open>The chain walks\<close>

definition sym_string :: "so_tables \<Rightarrow> u32 \<Rightarrow> cstring" where
  "sym_string so n = so_strtab so (st_name (so_symtab so n))"

text \<open>The symbols a lookup may return.\<close>

definition acceptable :: "so_tables \<Rightarrow> cstring \<Rightarrow> u16 \<Rightarrow> u32 \<Rightarrow> bool" where
  "acceptable so name verneed n \<longleftrightarrow> \<not> skips_hidden so verneed n \<and> check_symbol_version verneed (get_versym so n) \<and>
     sym_string so n = name \<and> is_symbol_global_and_defined (so_symtab so n)"

definition name_in_strtab :: "so_tables \<Rightarrow> u32 \<Rightarrow> bool" where
  "name_in_strtab so n \<longleftrightarrow> unat (st_name (so_symtab so n)) < so_strtab_size so"

lemma chain_round_eq:
  assumes "name_in_strtab so n" and "sym_string so n = name \<Longrightarrow> hash_ok"
  shows "chain_round so name verneed hash_ok n = (if acceptable so name verneed n then Some (Inr n) else None)"
  using assms
  by (auto simp: chain_round_def symbol_matches_def get_string_def name_in_strtab_def acceptable_def sym_string_def)

lemma chain_round_found: "chain_round so name verneed hash_ok n = Some (Inr m) \<Longrightarrow> m = n \<and> acceptable so name verneed n"
  by (auto simp: chain_round_def symbol_matches_def get_string_def acceptable_def sym_string_def try_then_def
      split: if_splits sum.splits)

definition first_of :: "nat option \<Rightarrow> u32" where
  "first_of r = (case r of Some i \<Rightarrow> of_nat i | None \<Rightarrow> 0)"

lemma gnu_chain_walk_run:
  assumes "n < e" and "\<And>i. n \<le> i \<Longrightarrow> i < e \<Longrightarrow> name_in_strtab so (of_nat i)"
    and "\<And>i. n \<le> i \<Longrightarrow> i < e \<Longrightarrow> so_gnu_chain so (of_nat i) AND 1 = 0 \<longleftrightarrow> i + 1 < e"
    and "\<And>i. n \<le> i \<Longrightarrow> i < e \<Longrightarrow> sym_string so (of_nat i) = name \<Longrightarrow> drop_bit 1 (so_gnu_chain so (of_nat i) XOR hash) = 0"
  shows "gnu_chain_walk so name hash verneed (of_nat n) =
    Some (Inr (first_of (List.find (\<lambda>i. acceptable so name verneed (of_nat i)) [n..<e])))"
  using assms
proof (induction "e - n" arbitrary: n)
  case (Suc d)
  have here: "chain_round so name verneed (drop_bit 1 (so_gnu_chain so (of_nat n) XOR hash) = 0) (of_nat n) =
    (if acceptable so name verneed (of_nat n) then Some (Inr (of_nat n)) else None)"
    using Suc.prems by (intro chain_round_eq) auto
  have upt: "[n..<e] = n # [Suc n..<e]" using Suc.prems(1) by (simp add: upt_conv_Cons)
  show ?case
  proof (cases "acceptable so name verneed (of_nat n)")
    case True
    with here show ?thesis by (subst gnu_chain_walk.simps) (simp add: upt first_of_def)
  next
    case False
    show ?thesis
    proof (cases "Suc n < e")
      case True
      have "gnu_chain_walk so name hash verneed (of_nat (Suc n)) =
        Some (Inr (first_of (List.find (\<lambda>i. acceptable so name verneed (of_nat i)) [Suc n..<e])))"
        using Suc.hyps(2) Suc.prems True by (intro Suc.hyps(1)) auto
      with False here True Suc.prems(3)[of n] show ?thesis
        by (subst gnu_chain_walk.simps) (simp add: upt add.commute)
    next
      case last: False
      then have "[Suc n..<e] = []" by simp
      with False here last Suc.prems(1,3) show ?thesis
        by (subst gnu_chain_walk.simps) (simp add: upt first_of_def)
    qed
  qed
qed simp

text \<open>
  The GNU hash table of a well-formed file: the symbols from \<open>lo\<close> up to \<open>hi\<close> are grouped by bucket,
  each group is a run that the low bit of its last chain word ends, a chain word holds the upper
  bits of its symbol's hash, and the filter lets every symbol through.
\<close>

definition bucket_of :: "so_tables \<Rightarrow> nat \<Rightarrow> u32" where
  "bucket_of so i = calculate_gnu_hash (sym_string so (of_nat i)) mod so_gnu_nbucket so"

definition run_ok :: "so_tables \<Rightarrow> nat \<Rightarrow> nat \<Rightarrow> u32 \<Rightarrow> nat \<Rightarrow> nat \<Rightarrow> bool" where
  "run_ok so lo hi b f e \<longleftrightarrow> lo \<le> f \<and> f < e \<and> e \<le> hi \<and> so_gnu_bucket so b = of_nat f \<and>
     (\<forall>i \<in> {lo..<hi}. bucket_of so i = b \<longleftrightarrow> f \<le> i \<and> i < e) \<and>
     (\<forall>i \<in> {f..<e}. so_gnu_chain so (of_nat i) AND 1 = 0 \<longleftrightarrow> i + 1 < e)"

definition gnu_table_ok :: "so_tables \<Rightarrow> nat \<Rightarrow> nat \<Rightarrow> bool" where
  "gnu_table_ok so lo hi \<longleftrightarrow> so_gnu_nbucket so \<noteq> 0 \<and> 0 < lo \<and> hi < 2 ^ 32 \<and>
     (\<forall>i \<in> {lo..<hi}. name_in_strtab so (of_nat i) \<and>
        drop_bit 1 (so_gnu_chain so (of_nat i) XOR calculate_gnu_hash (sym_string so (of_nat i))) = 0 \<and>
        \<not> bloom_rejects so (calculate_gnu_hash (sym_string so (of_nat i)))) \<and>
     (\<forall>k \<in> {0..<unat (so_gnu_nbucket so)}.
        (so_gnu_bucket so (of_nat k) = 0 \<and> (\<forall>i \<in> {lo..<hi}. bucket_of so i \<noteq> of_nat k)) \<or>
        (\<exists>f \<in> {lo..<hi}. \<exists>e \<in> {lo..hi}. run_ok so lo hi (of_nat k) f e))"

lemma find_none: "(\<And>x. x \<in> set xs \<Longrightarrow> \<not> P x) \<Longrightarrow> List.find P xs = None"
  by (simp add: find_None_iff)

lemma find_inside:
  assumes "lo \<le> f" "f \<le> e" "e \<le> hi" and "\<And>i. i \<in> {lo..<hi} \<Longrightarrow> P i \<Longrightarrow> f \<le> i \<and> i < e"
  shows "List.find P [lo..<hi] = List.find P [f..<e]"
proof -
  have split: "[lo..<hi] = [lo..<f] @ [f..<e] @ [e..<hi]" using assms(1-3) upt_add_eq_append[of lo f "hi - f"] upt_add_eq_append[of f e "hi - e"] by simp
  have "\<not> P x" if "x < f \<or> e \<le> x" "lo \<le> x" "x < hi" for x using assms(4)[of x] that by auto
  then have "List.find P [lo..<f] = None" "List.find P [e..<hi] = None"
    using assms(1-3) by (auto intro!: find_none)
  then show ?thesis unfolding split find_append by (simp split: option.splits)
qed

lemma acceptable_bucket:
  "acceptable so name verneed (of_nat i) \<Longrightarrow> bucket_of so i = calculate_gnu_hash name mod so_gnu_nbucket so"
  by (auto simp: acceptable_def bucket_of_def)

lemma word_mod_less: "(m :: u32) \<noteq> 0 \<Longrightarrow> unat (x mod m) < unat m"
  by (simp add: unat_mod unat_gt_0)

lemma fst_gnu_hash [simp]: "fst (gnu_hash (SymbolName name)) = calculate_gnu_hash name"
  by (simp add: gnu_hash_def SymbolName_def Let_def)

lemma fst_elf_hash [simp]: "fst (elf_hash (SymbolName name)) = calculate_elf_hash name"
  by (simp add: elf_hash_def SymbolName_def Let_def)

lemma sn_name_SymbolName [simp]: "sn_name (SymbolName name) = name"
  by (simp add: SymbolName_def)

text \<open>
  The table of the older format: a chain from each bucket to zero holds the symbols of the bucket.
\<close>

fun chain_path :: "so_tables \<Rightarrow> u32 \<Rightarrow> u32 list \<Rightarrow> bool" where
  "chain_path so n [] \<longleftrightarrow> n = 0"
| "chain_path so n (m # ms) \<longleftrightarrow> n = m \<and> n \<noteq> 0 \<and> chain_path so (so_chain so n) ms"

lemma elf_chain_walk_path:
  assumes "chain_path so n ns" "\<And>m. m \<in> set ns \<Longrightarrow> name_in_strtab so m"
  shows "elf_chain_walk so name verneed n =
    Some (Inr (case List.find (acceptable so name verneed) ns of Some m \<Rightarrow> m | None \<Rightarrow> 0))"
  using assms
proof (induction so n ns rule: chain_path.induct)
  case (1 so n)
  then show ?case by (subst elf_chain_walk.simps) simp
next
  case (2 so n m ms)
  then have "chain_round so name verneed True n = (if acceptable so name verneed n then Some (Inr n) else None)"
    by (intro chain_round_eq) auto
  with 2 show ?case by (subst elf_chain_walk.simps) auto
qed

definition elf_table_ok :: "so_tables \<Rightarrow> nat \<Rightarrow> (u32 \<Rightarrow> u32 list) \<Rightarrow> bool" where
  "elf_table_ok so count paths \<longleftrightarrow> so_nbucket so \<noteq> 0 \<and> count < 2 ^ 32 \<and>
     (\<forall>i \<in> {1..<count}. name_in_strtab so (of_nat i)) \<and>
     (\<forall>k \<in> {0..<unat (so_nbucket so)}. chain_path so (so_bucket so (of_nat k)) (paths (of_nat k)) \<and>
        (\<forall>m \<in> set (paths (of_nat k)). 0 < unat m \<and> unat m < count) \<and>
        (\<forall>i \<in> {1..<count}. calculate_elf_hash (sym_string so (of_nat i)) mod so_nbucket so = of_nat k \<longrightarrow>
           of_nat i \<in> set (paths (of_nat k))))"

lemma visit_group_append:
  "visit_group tables sn vi (xs @ ys) =
     (case visit_group tables sn vi xs of Some (Inr None) \<Rightarrow> visit_group tables sn vi ys | r \<Rightarrow> r)"
  by (induction xs) (auto split: option.splits sum.splits)

text \<open>The order in which the objects are asked.\<close>

definition search_order :: "('k \<Rightarrow> so_tables) \<Rightarrow> 'k \<Rightarrow> 'k list \<Rightarrow> 'k list \<Rightarrow> 'k list" where
  "search_order tables si_from global_group local_group =
     (if so_symbolic (tables si_from) then si_from # global_group @ filter (\<lambda>si. si \<noteq> si_from) local_group
      else global_group @ local_group)"

lemma do_lookup_order:
  "soinfo_do_lookup tables si_from name vi G L =
   visit_group tables (SymbolName name) vi (search_order tables si_from G L)"
proof (cases "so_symbolic (tables si_from)")
  case True
  then show ?thesis unfolding soinfo_do_lookup_def search_order_def Let_def
    by (simp add: visit_group_append split: option.splits sum.splits)
next
  case False
  then show ?thesis unfolding soinfo_do_lookup_def search_order_def Let_def
    by (simp add: visit_group_append split: option.splits sum.splits)
qed

lemma visit_group_found:
  "visit_group tables sn vi sis = Some (Inr (Some (si, s))) \<longleftrightarrow>
   (\<exists>pre post. sis = pre @ si # post \<and> find_symbol_by_name (tables si) sn vi = Some (Inr (Some s)) \<and>
      (\<forall>x \<in> set pre. find_symbol_by_name (tables x) sn vi = Some (Inr None)))"
proof (induction sis)
  case (Cons x sis)
  show ?case
  proof (cases "find_symbol_by_name (tables x) sn vi = Some (Inr None)")
    case True
    have "(\<exists>pre post. x # sis = pre @ si # post \<and> find_symbol_by_name (tables si) sn vi = Some (Inr (Some s)) \<and>
        (\<forall>y \<in> set pre. find_symbol_by_name (tables y) sn vi = Some (Inr None))) \<longleftrightarrow>
      (\<exists>pre post. sis = pre @ si # post \<and> find_symbol_by_name (tables si) sn vi = Some (Inr (Some s)) \<and>
        (\<forall>y \<in> set pre. find_symbol_by_name (tables y) sn vi = Some (Inr None)))" (is "?L = ?R")
    proof
      assume ?L
      then obtain pre post where p: "x # sis = pre @ si # post" "find_symbol_by_name (tables si) sn vi = Some (Inr (Some s))"
        "\<forall>y \<in> set pre. find_symbol_by_name (tables y) sn vi = Some (Inr None)" by blast
      with True obtain pre' where "pre = x # pre'" by (cases pre) auto
      with p show ?R by auto
    next
      assume ?R
      then obtain pre post where "sis = pre @ si # post" "find_symbol_by_name (tables si) sn vi = Some (Inr (Some s))"
        "\<forall>y \<in> set pre. find_symbol_by_name (tables y) sn vi = Some (Inr None)" by blast
      with True show ?L by (intro exI[of _ "x # pre"] exI[of _ post]) auto
    qed
    with True Cons show ?thesis by simp
  next
    case False
    have "(\<exists>pre post. x # sis = pre @ si # post \<and> find_symbol_by_name (tables si) sn vi = Some (Inr (Some s)) \<and>
        (\<forall>y \<in> set pre. find_symbol_by_name (tables y) sn vi = Some (Inr None))) \<longleftrightarrow>
      x = si \<and> find_symbol_by_name (tables si) sn vi = Some (Inr (Some s))"
      using False by (auto simp: Cons_eq_append_conv)
    with False show ?thesis by (auto split: option.splits sum.splits)
  qed
qed simp

lemma gnu_table_syms:
  assumes "gnu_table_ok so lo hi" and "i \<in> {lo..<hi}"
  shows "name_in_strtab so (of_nat i)"
    and "sym_string so (of_nat i) = name \<Longrightarrow> drop_bit 1 (so_gnu_chain so (of_nat i) XOR calculate_gnu_hash name) = 0"
    and "bloom_rejects so (calculate_gnu_hash name) \<Longrightarrow> \<not> acceptable so name verneed (of_nat i)"
  using assms by (auto simp: gnu_table_ok_def acceptable_def)

lemma gnu_run_search:
  assumes table: "gnu_table_ok so lo hi" and run: "run_ok so lo hi (calculate_gnu_hash name mod so_gnu_nbucket so) f e"
  shows "gnu_chain_walk so name (calculate_gnu_hash name) verneed (of_nat f) =
    Some (Inr (first_of (List.find (\<lambda>i. acceptable so name verneed (of_nat i)) [lo..<hi])))"
proof -
  let ?P = "\<lambda>i. acceptable so name verneed (of_nat i)"
  have bounds: "lo \<le> f" "f < e" "e \<le> hi" "hi < 2 ^ 32" using table run by (auto simp: gnu_table_ok_def run_ok_def)
  have "gnu_chain_walk so name (calculate_gnu_hash name) verneed (of_nat f) = Some (Inr (first_of (List.find ?P [f..<e])))"
  proof (rule gnu_chain_walk_run[OF bounds(2)])
    fix i assume i: "f \<le> i" "i < e"
    then have "i \<in> {lo..<hi}" using bounds by simp
    then show "name_in_strtab so (of_nat i)"
      "sym_string so (of_nat i) = name \<Longrightarrow> drop_bit 1 (so_gnu_chain so (of_nat i) XOR calculate_gnu_hash name) = 0"
      using gnu_table_syms[OF table] by blast+
    show "so_gnu_chain so (of_nat i) AND 1 = 0 \<longleftrightarrow> i + 1 < e" using run i by (auto simp: run_ok_def)
  qed
  also have "List.find ?P [f..<e] = List.find ?P [lo..<hi]"
  proof (rule find_inside[symmetric])
    fix i assume "i \<in> {lo..<hi}" "?P i"
    then show "f \<le> i \<and> i < e" using run acceptable_bucket unfolding run_ok_def by blast
  qed (use bounds in auto)
  finally show ?thesis .
qed

lemma gnu_lookup_search:
  assumes table: "gnu_table_ok so lo hi" and version: "find_verdef_version_index so vi = Inr verneed"
  shows "gnu_lookup so (SymbolName name) vi =
    Some (Inr (first_of (List.find (\<lambda>i. acceptable so name verneed (of_nat i)) [lo..<hi])))"
proof -
  let ?h = "calculate_gnu_hash name" and ?P = "\<lambda>i. acceptable so name verneed (of_nat i)"
  let ?b = "?h mod so_gnu_nbucket so"
  have nb: "so_gnu_nbucket so \<noteq> 0" and lo: "0 < lo" "hi < 2 ^ 32" using table by (auto simp: gnu_table_ok_def)
  have none: "?thesis" if "gnu_lookup so (SymbolName name) vi = Some (Inr 0)" "\<And>i. i \<in> {lo..<hi} \<Longrightarrow> \<not> ?P i"
    using that find_none[of "[lo..<hi]" ?P] by (simp add: first_of_def)
  have "unat ?b \<in> {0..<unat (so_gnu_nbucket so)}" using word_mod_less[OF nb] by simp
  with table consider (rejected) "bloom_rejects so ?h"
    | (empty) "\<not> bloom_rejects so ?h" "so_gnu_bucket so ?b = 0" "\<forall>i \<in> {lo..<hi}. bucket_of so i \<noteq> ?b"
    | (run) f e where "\<not> bloom_rejects so ?h" "run_ok so lo hi ?b f e"
    unfolding gnu_table_ok_def by (metis of_nat_unat32)
  then show ?thesis
  proof cases
    case rejected
    then show ?thesis using gnu_table_syms(3)[OF table] by (intro none) (auto simp: gnu_lookup_def Let_def)
  next
    case empty
    then have "gnu_lookup so (SymbolName name) vi = Some (Inr 0)"
      using nb version by (simp add: gnu_lookup_def Let_def)
    then show ?thesis using empty(3) acceptable_bucket by (intro none) blast+
  next
    case run
    then have f: "lo \<le> f" "f < hi" "so_gnu_bucket so ?b = of_nat f" by (auto simp: run_ok_def)
    then have "unat (of_nat f :: u32) = f" using lo by (intro unat_of_nat32) simp
    then have "(of_nat f :: u32) \<noteq> 0" using f lo by (intro notI) simp
    then have "gnu_lookup so (SymbolName name) vi = gnu_chain_walk so name ?h verneed (of_nat f)"
      using run(1) nb f version by (simp add: gnu_lookup_def Let_def)
    with gnu_run_search[OF table run(2)] show ?thesis by simp
  qed
qed

text \<open>
  When the walk along the chain words comes to an end: it does so exactly if some symbol on the way
  ends it or the chain reaches zero.
\<close>

lemma elf_chain_walk_returns:
  "(so_chain so ^^ k) n = m \<Longrightarrow> m = 0 \<or> chain_round so name verneed True m \<noteq> None \<Longrightarrow>
   elf_chain_walk so name verneed n \<noteq> None"
proof (induction k arbitrary: n)
  case 0
  then show ?case by (subst elf_chain_walk.simps) (auto split: option.splits)
next
  case (Suc k)
  then have "elf_chain_walk so name verneed (so_chain so n) \<noteq> None"
    by (simp add: funpow_swap1)
  then show ?case by (subst elf_chain_walk.simps) (auto split: option.splits)
qed

lemma elf_chain_walk_ended:
  assumes "elf_chain_walk so name verneed n = Some r"
  shows "\<exists>k. (so_chain so ^^ k) n = 0 \<or> chain_round so name verneed True ((so_chain so ^^ k) n) \<noteq> None"
proof (rule elf_chain_walk.raw_induct[where P = "\<lambda>so name verneed n r. \<exists>k. (so_chain so ^^ k) n = 0 \<or>
    chain_round so name verneed True ((so_chain so ^^ k) n) \<noteq> None", OF _ assms])
  fix f so name verneed n r
  assume ih: "\<And>so name verneed n r. f so name verneed n = Some r \<Longrightarrow>
      \<exists>k. (so_chain so ^^ k) n = 0 \<or> chain_round so name verneed True ((so_chain so ^^ k) n) \<noteq> None"
    and eq: "(if n = 0 then Some (Inr 0)
      else case chain_round so name verneed True n of Some r \<Rightarrow> Some r | None \<Rightarrow> f so name verneed (so_chain so n)) = Some r"
  show "\<exists>k. (so_chain so ^^ k) n = 0 \<or> chain_round so name verneed True ((so_chain so ^^ k) n) \<noteq> None"
  proof (cases "n = 0 \<or> chain_round so name verneed True n \<noteq> None")
    case True
    then show ?thesis by (intro exI[of _ 0]) simp
  next
    case False
    with eq have "f so name verneed (so_chain so n) = Some r" by simp
    from ih[OF this] obtain k where "(so_chain so ^^ Suc k) n = 0 \<or> chain_round so name verneed True ((so_chain so ^^ Suc k) n) \<noteq> None"
      by (auto simp: funpow_swap1)
    then show ?thesis by blast
  qed
qed

section \<open>A small library\<close>

text \<open>Two exported functions \<open>f\<close> and \<open>g\<close> at the indices 1 and 2, in one bucket of either table.\<close>

definition sym_f :: cstring where "sym_f = [102]"
definition sym_g :: cstring where "sym_g = [103]"

definition demo_syms :: so_tables where
  "demo_syms = \<lparr>so_soname = Some [108], so_gnu_hash = True, so_symbolic = False, so_bias = 0x10000,
     so_symtab = (\<lambda>n. \<lparr>st_name = n, st_info = 0x12, st_shndx = 7, st_value = 0x100 * ucast n, st_size = 0x40\<rparr>),
     so_strtab = (\<lambda>n. if n = 1 then sym_f else if n = 2 then sym_g else []), so_strtab_size = 8,
     so_gnu_nbucket = 1, so_gnu_bucket = (\<lambda>b. 1),
     so_gnu_chain = (\<lambda>n. if n = 1 then calculate_gnu_hash sym_f AND NOT 1 else calculate_gnu_hash sym_g OR 1),
     so_gnu_maskwords = 0, so_gnu_shift2 = 6, so_gnu_bloom = (\<lambda>w. - 1),
     so_nbucket = 1, so_nchain = 3, so_bucket = (\<lambda>b. 1), so_chain = (\<lambda>n. if n = 1 then 2 else 0),
     so_versym = None, so_verdef = None, so_verdaux = (\<lambda>off. 0), so_verdef_cnt = 0,
     so_verneed = None, so_vernaux = (\<lambda>off. \<lparr>vna_hash = 0, vna_other = 0, vna_name = 0, vna_next = 0\<rparr>), so_verneed_cnt = 0\<rparr>"

lemma demo_sym_string: "sym_string demo_syms 1 = sym_f" "sym_string demo_syms 2 = sym_g"
  by (simp_all add: sym_string_def demo_syms_def)

lemma demo_hashes: "calculate_gnu_hash sym_f = 177675" "calculate_gnu_hash sym_g = 177676"
  by (simp_all add: calculate_gnu_hash_def sym_f_def sym_g_def)

lemma demo_bloom: "\<not> bloom_rejects demo_syms (calculate_gnu_hash sym_f)" "\<not> bloom_rejects demo_syms (calculate_gnu_hash sym_g)"
  unfolding demo_hashes by (simp_all add: bloom_rejects_def Let_def demo_syms_def mask_eq_exp_minus_1)

lemma demo_gnu_fields:
  "so_gnu_nbucket demo_syms = 1" "so_gnu_bucket demo_syms b = 1"
  "so_gnu_chain demo_syms 1 = 177674" "so_gnu_chain demo_syms 2 = 177677"
  by (simp_all add: demo_syms_def demo_hashes)

lemma demo_gnu_table_ok: "gnu_table_ok demo_syms 1 3"
proof -
  have range: "{1..<3} = {1, 2::nat}" by auto
  have b: "bucket_of demo_syms i = 0" for i by (simp add: bucket_of_def demo_gnu_fields)
  have "run_ok demo_syms 1 3 0 1 3"
    unfolding run_ok_def range b by (simp add: demo_gnu_fields)
  moreover have "name_in_strtab demo_syms n" if "n < 8" for n
    using that by (simp add: name_in_strtab_def demo_syms_def word_less_nat_alt)
  ultimately show ?thesis unfolding gnu_table_ok_def range
    by (simp add: demo_sym_string demo_hashes demo_bloom[unfolded demo_hashes] demo_gnu_fields) (intro disjI1 bexI[of _ 3], simp_all)
qed

lemma demo_elf_table_ok: "elf_table_ok demo_syms 3 (\<lambda>b. [1, 2])"
proof -
  have range: "{1..<3} = {1, 2::nat}" by auto
  show ?thesis unfolding elf_table_ok_def range by (simp add: demo_syms_def name_in_strtab_def)
qed

lemma demo_version: "find_verdef_version_index demo_syms None = Inr 0"
  by (simp add: find_verdef_version_index_def versym_consts)

lemma demo_acceptable: "acceptable demo_syms name 0 n \<longleftrightarrow> sym_string demo_syms n = name"
  by (simp add: acceptable_def skips_hidden_def is_versym_hidden_def check_symbol_version_def
      versym_consts get_versym_def is_symbol_global_and_defined_def ELF_ST_BIND_def) (simp add: demo_syms_def)

lemma demo_find_g: "List.find (\<lambda>i. acceptable demo_syms sym_g 0 (of_nat i)) [1..<3] = Some 2"
  by (simp add: upt_rec demo_acceptable demo_sym_string) (simp add: sym_f_def sym_g_def)

lemma demo_lookup_g: "find_symbol_by_name demo_syms (SymbolName sym_g) None = Some (Inr (Some 2))"
proof -
  have "gnu_lookup demo_syms (SymbolName sym_g) None = Some (Inr 2)"
    unfolding gnu_lookup_search[OF demo_gnu_table_ok demo_version] demo_find_g by (simp add: first_of_def)
  moreover have "so_gnu_hash demo_syms" by (simp add: demo_syms_def)
  ultimately show ?thesis by (simp add: find_symbol_by_name_def)
qed

section \<open>Properties\<close>

text \<open>
  C12: On a well-formed GNU hash table the lookup always returns, and returns the first symbol in
  table order that has the name, is global and defined, and fits the version, or zero if there is
  none: bloom filter, buckets and chain words change nothing of a linear search.
\<close>

theorem gnu_lookup_is_linear_search:
  assumes "gnu_table_ok so lo hi" and "find_verdef_version_index so vi = Inr verneed"
  shows "gnu_lookup so (SymbolName name) vi =
    Some (Inr (first_of (List.find (\<lambda>i. acceptable so name verneed (of_nat i)) [lo..<hi])))"
  using assms by (rule gnu_lookup_search)

theorem gnu_lookup_is_linear_search_witness:
  "gnu_lookup demo_syms (SymbolName sym_g) None = Some (Inr 2)"
  unfolding gnu_lookup_is_linear_search[OF demo_gnu_table_ok demo_version] demo_find_g by (simp add: first_of_def)

text \<open>
  C37: On a well-formed table of the older hash format the lookup always returns; it returns an
  index of the table that has the name and fits, and zero only if no symbol of the table does.
\<close>

theorem elf_lookup_complete:
  assumes "elf_table_ok so count paths" and "find_verdef_version_index so vi = Inr verneed"
  shows "\<exists>r. elf_lookup so (SymbolName name) vi = Some (Inr r) \<and>
    (r = 0 \<longrightarrow> (\<forall>i \<in> {1..<count}. \<not> acceptable so name verneed (of_nat i))) \<and>
    (r \<noteq> 0 \<longrightarrow> unat r < count \<and> acceptable so name verneed r)"
proof -
  let ?b = "calculate_elf_hash name mod so_nbucket so"
  have nb: "so_nbucket so \<noteq> 0" using assms(1) by (simp add: elf_table_ok_def)
  have "unat ?b \<in> {0..<unat (so_nbucket so)}" using word_mod_less[OF nb] by simp
  with assms(1) have path: "chain_path so (so_bucket so ?b) (paths ?b)"
    and inside: "\<forall>m \<in> set (paths ?b). 0 < unat m \<and> unat m < count"
    and all: "\<forall>i \<in> {1..<count}. calculate_elf_hash (sym_string so (of_nat i)) mod so_nbucket so = ?b \<longrightarrow> of_nat i \<in> set (paths ?b)"
    unfolding elf_table_ok_def by (metis of_nat_unat32)+
  have names: "name_in_strtab so m" if "m \<in> set (paths ?b)" for m
    using assms(1) inside that unfolding elf_table_ok_def by (metis Suc_leI One_nat_def atLeastLessThan_iff of_nat_unat32)
  have run: "elf_lookup so (SymbolName name) vi =
      Some (Inr (case List.find (acceptable so name verneed) (paths ?b) of Some m \<Rightarrow> m | None \<Rightarrow> 0))"
    using elf_chain_walk_path[OF path names] nb assms(2) by (simp add: elf_lookup_def Let_def)
  show ?thesis
  proof (cases "List.find (acceptable so name verneed) (paths ?b)")
    case None
    then have "\<not> acceptable so name verneed m" if "m \<in> set (paths ?b)" for m using that by (simp add: find_None_iff)
    then have "\<not> acceptable so name verneed (of_nat i)" if "i \<in> {1..<count}" for i
      using all that by (auto simp: acceptable_def)
    with run None show ?thesis by simp
  next
    case (Some m)
    then have "m \<in> set (paths ?b)" "acceptable so name verneed m" by (auto simp: find_Some_iff)
    with run Some inside show ?thesis by auto
  qed
qed

theorem elf_lookup_complete_witness:
  "\<exists>r. elf_lookup demo_syms (SymbolName sym_f) None = Some (Inr r) \<and> r \<noteq> 0"
proof -
  have "acceptable demo_syms sym_f 0 (of_nat 1)" by (simp add: demo_acceptable demo_sym_string)
  then have "\<not> (\<forall>i \<in> {1..<3}. \<not> acceptable demo_syms sym_f 0 (of_nat i))" by (intro notI) (drule bspec[of _ _ 1], simp_all)
  with elf_lookup_complete[OF demo_elf_table_ok demo_version, of sym_f] show ?thesis by blast
qed



text \<open>
  C39: A reference is bound to the first object, in the order self if it is linked symbolically, then
  the global group, then the local group, that has the symbol; all objects before it answered that
  they have not.
\<close>

theorem do_lookup_first_in_order:
  "soinfo_do_lookup tables si_from name vi G L = Some (Inr (Some (si, s))) \<longleftrightarrow>
   (\<exists>pre post. search_order tables si_from G L = pre @ si # post \<and>
      find_symbol_by_name (tables si) (SymbolName name) vi = Some (Inr (Some s)) \<and>
      (\<forall>x \<in> set pre. find_symbol_by_name (tables x) (SymbolName name) vi = Some (Inr None)))"
  unfolding do_lookup_order by (rule visit_group_found)

theorem do_lookup_first_in_order_witness:
  "soinfo_do_lookup (\<lambda>i::nat. demo_syms) 7 sym_g None [5] [7] = Some (Inr (Some (5, 2)))"
proof -
  have "search_order (\<lambda>i::nat. demo_syms) 7 [5] [7] = [] @ 5 # [7]" by (simp add: search_order_def demo_syms_def)
  then show ?thesis
    using do_lookup_first_in_order[of "\<lambda>i::nat. demo_syms" 7 sym_g None "[5]" "[7]" 5 2] demo_lookup_g by fastforce
qed

end
