(* ===== verification/Linker_Soinfo.thy ===== *)
theory Linker_Soinfo
  imports Linker_Phdr Linker_Lookup
begin

text \<open>
  The loaded objects of the Q linker and what ties them together: \<open>soinfo\<close> with its flags, reference
  count and dependency lists (\<open>q/linker_soinfo.h\<close>, \<open>q/linker_soinfo.cpp\<close>), the list of all objects
  (\<open>q/linker_main.cpp\<close>), the namespaces (\<open>q/linker_namespaces.h\<close>, \<open>q/linker_namespaces.cpp\<close>), and the
  allocation and release of an object (\<open>q/linker.cpp\<close>).  Objects live in an explicit store from
  addresses to records; an access to an address without an object is an error of the model, as is
  an access through a null pointer.  Every object has the current version, so the tests of
  \<open>has_min_version\<close> succeed.
\<close>

section \<open>Objects\<close>

type_synonym so_id = nat
type_synonym ns_id = nat

text \<open>
  \<open>si_tables\<close> holds what the symbol lookup reads.  A null function is zero, a null array \<open>None\<close>; a
  null \<open>local_group_root_\<close> or \<open>primary_namespace_\<close> is \<open>None\<close>.
\<close>

record soinfo =
  si_base :: u64
  si_size :: u64
  si_load_bias :: u64
  si_phdr :: "elf_phdr list"
  si_flags :: u32
  si_tables :: so_tables
  si_preinit_array :: "u64 list option"
  si_init_array :: "u64 list option"
  si_fini_array :: "u64 list option"
  si_init_func :: u64
  si_fini_func :: u64
  si_ref_count :: u64
  si_constructors_called :: bool
  si_st_dev :: u64
  si_st_ino :: u64
  si_file_offset :: int
  si_children :: "so_id list"
  si_parents :: "so_id list"
  si_rtld_flags :: u32
  si_dt_flags_1 :: u32
  si_local_group_root :: "so_id option"
  si_soname :: "string option"
  si_realpath :: string
  si_target_sdk_version :: int
  si_dt_runpath :: "string list"
  si_primary_namespace :: "ns_id option"
  si_secondary_namespaces :: "ns_id list"
  si_handle :: u64

definition FLAG_LINKED :: u32 where "FLAG_LINKED = 0x1"
definition FLAG_EXE :: u32 where "FLAG_EXE = 0x4"
definition FLAG_LINKER :: u32 where "FLAG_LINKER = 0x10"
definition FLAG_MAPPED_BY_CALLER :: u32 where "FLAG_MAPPED_BY_CALLER = 0x80"
definition FLAG_IMAGE_LINKED :: u32 where "FLAG_IMAGE_LINKED = 0x100"
definition FLAG_NEW_SOINFO :: u32 where "FLAG_NEW_SOINFO = 0x40000000"
definition RTLD_NOLOAD :: u32 where "RTLD_NOLOAD = 0x4"
definition RTLD_GLOBAL :: u32 where "RTLD_GLOBAL = 0x100"
definition RTLD_NODELETE :: u32 where "RTLD_NODELETE = 0x1000"
definition DF_1_GLOBAL :: u32 where "DF_1_GLOBAL = 0x2"
definition DF_1_NODELETE :: u32 where "DF_1_NODELETE = 0x8"

lemmas so_flag_defs = FLAG_LINKED_def FLAG_EXE_def FLAG_LINKER_def FLAG_MAPPED_BY_CALLER_def
  FLAG_IMAGE_LINKED_def FLAG_NEW_SOINFO_def

lemmas rtld_flag_defs = RTLD_NOLOAD_def RTLD_GLOBAL_def RTLD_NODELETE_def DF_1_GLOBAL_def DF_1_NODELETE_def

definition is_linked :: "soinfo \<Rightarrow> bool" where "is_linked si \<longleftrightarrow> si_flags si AND FLAG_LINKED \<noteq> 0"
definition is_image_linked :: "soinfo \<Rightarrow> bool" where "is_image_linked si \<longleftrightarrow> si_flags si AND FLAG_IMAGE_LINKED \<noteq> 0"
definition is_main_executable :: "soinfo \<Rightarrow> bool" where "is_main_executable si \<longleftrightarrow> si_flags si AND FLAG_EXE \<noteq> 0"
definition is_linker :: "soinfo \<Rightarrow> bool" where "is_linker si \<longleftrightarrow> si_flags si AND FLAG_LINKER \<noteq> 0"
definition is_mapped_by_caller :: "soinfo \<Rightarrow> bool" where
  "is_mapped_by_caller si \<longleftrightarrow> si_flags si AND FLAG_MAPPED_BY_CALLER \<noteq> 0"

definition set_linked :: "soinfo \<Rightarrow> soinfo" where
  "set_linked si = si\<lparr>si_flags := si_flags si OR FLAG_LINKED\<rparr>"
definition set_image_linked :: "soinfo \<Rightarrow> soinfo" where
  "set_image_linked si = si\<lparr>si_flags := si_flags si OR FLAG_IMAGE_LINKED\<rparr>"
definition set_linker_flag :: "soinfo \<Rightarrow> soinfo" where
  "set_linker_flag si = si\<lparr>si_flags := si_flags si OR FLAG_LINKER\<rparr>"
definition set_main_executable :: "soinfo \<Rightarrow> soinfo" where
  "set_main_executable si = si\<lparr>si_flags := si_flags si OR FLAG_EXE\<rparr>"
definition set_mapped_by_caller :: "bool \<Rightarrow> soinfo \<Rightarrow> soinfo" where
  "set_mapped_by_caller by_caller si =
     (if by_caller then si\<lparr>si_flags := si_flags si OR FLAG_MAPPED_BY_CALLER\<rparr>
      else si\<lparr>si_flags := si_flags si AND NOT FLAG_MAPPED_BY_CALLER\<rparr>)"
definition set_nodelete :: "soinfo \<Rightarrow> soinfo" where
  "set_nodelete si = si\<lparr>si_rtld_flags := si_rtld_flags si OR RTLD_NODELETE\<rparr>"

definition can_unload :: "soinfo \<Rightarrow> bool" where
  "can_unload si \<longleftrightarrow> \<not> is_linked si \<or> si_rtld_flags si AND (RTLD_NODELETE OR RTLD_GLOBAL) = 0"

definition set_dt_flags_1 :: "u32 \<Rightarrow> soinfo \<Rightarrow> soinfo" where
  "set_dt_flags_1 dt_flags_1 si =
     (let f = si_rtld_flags si;
          f = (if dt_flags_1 AND DF_1_GLOBAL \<noteq> 0 then f OR RTLD_GLOBAL else f);
          f = (if dt_flags_1 AND DF_1_NODELETE \<noteq> 0 then f OR RTLD_NODELETE else f)
      in si\<lparr>si_rtld_flags := f, si_dt_flags_1 := dt_flags_1\<rparr>)"

text \<open>The tables of an object before its dynamic section is read: all pointers null.\<close>

definition no_tables :: so_tables where
  "no_tables = \<lparr>so_soname = None, so_gnu_hash = False, so_symbolic = False, so_bias = 0,
     so_symtab = (\<lambda>n. \<lparr>st_name = 0, st_info = 0, st_shndx = 0, st_value = 0, st_size = 0\<rparr>),
     so_strtab = (\<lambda>n. []), so_strtab_size = 0,
     so_gnu_nbucket = 0, so_gnu_bucket = (\<lambda>b. 0), so_gnu_chain = (\<lambda>n. 0), so_gnu_maskwords = 0,
     so_gnu_shift2 = 0, so_gnu_bloom = (\<lambda>w. 0),
     so_nbucket = 0, so_nchain = 0, so_bucket = (\<lambda>b. 0), so_chain = (\<lambda>n. 0),
     so_versym = None, so_verdef = None, so_verdaux = (\<lambda>off. 0), so_verdef_cnt = 0,
     so_verneed = None, so_vernaux = (\<lambda>off. \<lparr>vna_hash = 0, vna_other = 0, vna_name = 0, vna_next = 0\<rparr>),
     so_verneed_cnt = 0\<rparr>"

text \<open>The constructor; \<open>file_stat\<close> is the device and inode of the file.\<close>

definition new_soinfo :: "ns_id \<Rightarrow> string \<Rightarrow> (u64 \<times> u64) option \<Rightarrow> int \<Rightarrow> u32 \<Rightarrow> soinfo" where
  "new_soinfo ns realpath file_stat foffset rtld_flags =
     \<lparr>si_base = 0, si_size = 0, si_load_bias = 0, si_phdr = [], si_flags = FLAG_NEW_SOINFO, si_tables = no_tables,
      si_preinit_array = None, si_init_array = None, si_fini_array = None, si_init_func = 0, si_fini_func = 0,
      si_ref_count = 0, si_constructors_called = False,
      si_st_dev = (case file_stat of Some st \<Rightarrow> fst st | None \<Rightarrow> 0),
      si_st_ino = (case file_stat of Some st \<Rightarrow> snd st | None \<Rightarrow> 0),
      si_file_offset = (case file_stat of Some st \<Rightarrow> foffset | None \<Rightarrow> 0),
      si_children = [], si_parents = [], si_rtld_flags = rtld_flags, si_dt_flags_1 = 0,
      si_local_group_root = None, si_soname = None, si_realpath = realpath, si_target_sdk_version = 0,
      si_dt_runpath = [], si_primary_namespace = Some ns, si_secondary_namespaces = [], si_handle = 0\<rparr>"

section \<open>Namespaces\<close>

record android_namespace_link =
  nl_linked_namespace :: ns_id
  nl_shared_lib_sonames :: "string set"
  nl_allow_all_shared_libs :: bool

definition link_is_accessible :: "android_namespace_link \<Rightarrow> string option \<Rightarrow> bool" where
  "link_is_accessible l soname =
     (case soname of None \<Rightarrow> False | Some n \<Rightarrow> nl_allow_all_shared_libs l \<or> n \<in> nl_shared_lib_sonames l)"

record android_namespace =
  ns_name :: "string option"
  ns_is_isolated :: bool
  ns_is_greylist_enabled :: bool
  ns_ld_library_paths :: "string list"
  ns_default_library_paths :: "string list"
  ns_permitted_paths :: "string list"
  ns_whitelisted_libs :: "string list"
  ns_linked_namespaces :: "android_namespace_link list"
  ns_soinfo_list :: "so_id list"

definition new_namespace :: android_namespace where
  "new_namespace = \<lparr>ns_name = None, ns_is_isolated = False, ns_is_greylist_enabled = False, ns_ld_library_paths = [],
     ns_default_library_paths = [], ns_permitted_paths = [], ns_whitelisted_libs = [], ns_linked_namespaces = [],
     ns_soinfo_list = []\<rparr>"

text \<open>\<open>basename\<close> of a path without a trailing slash: what follows the last slash.\<close>

definition basename :: "string \<Rightarrow> string" where
  "basename path = (case last_slash path of None \<Rightarrow> path | Some i \<Rightarrow> drop (i + 1) path)"

definition path_is_accessible :: "android_namespace \<Rightarrow> string \<Rightarrow> bool" where
  "path_is_accessible ns file =
     (if \<not> ns_is_isolated ns then True
      else if ns_whitelisted_libs ns \<noteq> [] \<and> basename file \<notin> set (ns_whitelisted_libs ns) then False
      else list_ex (file_is_in_dir file) (ns_ld_library_paths ns) \<or>
           list_ex (file_is_in_dir file) (ns_default_library_paths ns) \<or>
           list_ex (file_is_under_dir file) (ns_permitted_paths ns))"

definition add_linked_namespace :: "ns_id \<Rightarrow> string set \<Rightarrow> bool \<Rightarrow> android_namespace \<Rightarrow> android_namespace" where
  "add_linked_namespace linked_namespace shared_lib_sonames allow_all ns =
     ns\<lparr>ns_linked_namespaces := ns_linked_namespaces ns @
        [\<lparr>nl_linked_namespace = linked_namespace, nl_shared_lib_sonames = shared_lib_sonames,
          nl_allow_all_shared_libs = allow_all\<rparr>]\<rparr>"

definition add_soinfo :: "so_id \<Rightarrow> android_namespace \<Rightarrow> android_namespace" where
  "add_soinfo si ns = ns\<lparr>ns_soinfo_list := ns_soinfo_list ns @ [si]\<rparr>"

definition add_soinfos :: "so_id list \<Rightarrow> android_namespace \<Rightarrow> android_namespace" where
  "add_soinfos soinfos ns = fold add_soinfo soinfos ns"

definition remove_soinfo :: "so_id \<Rightarrow> android_namespace \<Rightarrow> android_namespace" where
  "remove_soinfo si ns = ns\<lparr>ns_soinfo_list := filter (\<lambda>candidate. candidate \<noteq> si) (ns_soinfo_list ns)\<rparr>"

section \<open>The state of the linker\<close>

text \<open>
  Calls into the loaded code and effects outside of the tables are recorded in the order in which
  they happen.
\<close>

datatype link_event =
    CallCtor so_id u64
  | CallDtor so_id u64
  | PropertiesInit
  | Munmap u64 u64
  | MapNone u64 u64
  | NotifyGdbUnload so_id
  | UnregisterTls so_id
  | CfiBeforeUnload so_id
  | FreeSoinfo so_id

text \<open>
  \<open>ls_solist\<close> is the list of all objects, with the static object of the linker at its head;
  namespaces are never released.
\<close>

record lstate =
  ls_objs :: "so_id \<rightharpoonup> soinfo"
  ls_solist :: "so_id list"
  ls_ns :: "ns_id \<Rightarrow> android_namespace"
  ls_default_ns :: ns_id
  ls_anonymous_ns :: ns_id
  ls_anonymous_initialized :: bool
  ls_handles :: "u64 \<rightharpoonup> so_id"
  ls_dso_counters :: "u64 \<rightharpoonup> u64"
  ls_app_sdk :: int
  ls_events :: "link_event list"

text \<open>
  \<open>Dangling\<close> and \<open>NullPointer\<close> are accesses to freed or no memory, \<open>Fatal\<close> a message of
  \<open>async_safe_fatal\<close> or a failed \<open>CHECK\<close>, \<open>LinkError\<close> a failure that the code reports.
\<close>

datatype link_error = Dangling | NullPointer | Fatal | LinkError

definition deref :: "lstate \<Rightarrow> so_id \<Rightarrow> link_error + soinfo" where
  "deref s si = (case ls_objs s si of None \<Rightarrow> Inl Dangling | Some x \<Rightarrow> Inr x)"

definition deref_opt :: "lstate \<Rightarrow> so_id option \<Rightarrow> link_error + soinfo" where
  "deref_opt s p = (case p of None \<Rightarrow> Inl NullPointer | Some si \<Rightarrow> deref s si)"

definition modify :: "so_id \<Rightarrow> (soinfo \<Rightarrow> soinfo) \<Rightarrow> lstate \<Rightarrow> link_error + lstate" where
  "modify si f s = try_then (deref s si) (\<lambda>x. Inr (s\<lparr>ls_objs := (ls_objs s)(si \<mapsto> f x)\<rparr>))"

definition modify_ns :: "ns_id \<Rightarrow> (android_namespace \<Rightarrow> android_namespace) \<Rightarrow> lstate \<Rightarrow> lstate" where
  "modify_ns ns f s = s\<lparr>ls_ns := (ls_ns s)(ns := f (ls_ns s ns))\<rparr>"

definition emit :: "link_event list \<Rightarrow> lstate \<Rightarrow> lstate" where
  "emit es s = s\<lparr>ls_events := ls_events s @ es\<rparr>"

text \<open>A loop over a list in which every round may fail.\<close>

fun each :: "('a \<Rightarrow> 's \<Rightarrow> 'e + 's) \<Rightarrow> 'a list \<Rightarrow> 's \<Rightarrow> 'e + 's" where
  "each f [] s = Inr s"
| "each f (x # xs) s = try_then (f x s) (each f xs)"

subsection \<open>Accessors through pointers\<close>

definition increment_ref_count :: "so_id \<Rightarrow> lstate \<Rightarrow> link_error + u64 \<times> lstate" where
  "increment_ref_count si s =
     try_then (deref s si) (\<lambda>x. try_then (deref_opt s (si_local_group_root x)) (\<lambda>r.
       let n = si_ref_count r + 1
       in Inr (n, s\<lparr>ls_objs := (ls_objs s)(the (si_local_group_root x) \<mapsto> r\<lparr>si_ref_count := n\<rparr>)\<rparr>)))"

definition decrement_ref_count :: "so_id \<Rightarrow> lstate \<Rightarrow> link_error + u64 \<times> lstate" where
  "decrement_ref_count si s =
     try_then (deref s si) (\<lambda>x. try_then (deref_opt s (si_local_group_root x)) (\<lambda>r.
       let n = si_ref_count r - 1
       in Inr (n, s\<lparr>ls_objs := (ls_objs s)(the (si_local_group_root x) \<mapsto> r\<lparr>si_ref_count := n\<rparr>)\<rparr>)))"

definition get_target_sdk_version :: "lstate \<Rightarrow> so_id \<Rightarrow> link_error + int" where
  "get_target_sdk_version s si =
     try_then (deref s si) (\<lambda>x. try_then (deref_opt s (si_local_group_root x)) (\<lambda>r. Inr (si_target_sdk_version r)))"

definition add_secondary_namespace :: "ns_id \<Rightarrow> soinfo \<Rightarrow> soinfo" where
  "add_secondary_namespace ns x = x\<lparr>si_secondary_namespaces := si_secondary_namespaces x @ [ns]\<rparr>"

subsection \<open>Access to objects from a namespace\<close>

definition in_namespace :: "ns_id \<Rightarrow> soinfo \<Rightarrow> bool" where
  "in_namespace ns x \<longleftrightarrow> si_primary_namespace x = Some ns \<or> ns \<in> set (si_secondary_namespaces x)"

fun any_in_namespace :: "lstate \<Rightarrow> ns_id \<Rightarrow> so_id list \<Rightarrow> link_error + bool" where
  "any_in_namespace s ns [] = Inr False"
| "any_in_namespace s ns (p # ps) =
     try_then (deref s p) (\<lambda>x. if in_namespace ns x then Inr True else any_in_namespace s ns ps)"

definition is_accessible :: "lstate \<Rightarrow> ns_id \<Rightarrow> so_id \<Rightarrow> link_error + bool" where
  "is_accessible s ns si =
     try_then (deref s si) (\<lambda>x. if in_namespace ns x then Inr True else any_in_namespace s ns (si_parents x))"

fun select_objs :: "lstate \<Rightarrow> (soinfo \<Rightarrow> bool) \<Rightarrow> so_id list \<Rightarrow> link_error + so_id list" where
  "select_objs s P [] = Inr []"
| "select_objs s P (si # sis) =
     try_then (deref s si) (\<lambda>x. try_then (select_objs s P sis) (\<lambda>rest. Inr (if P x then si # rest else rest)))"

definition get_global_group :: "lstate \<Rightarrow> ns_id \<Rightarrow> link_error + so_id list" where
  "get_global_group s ns = select_objs s (\<lambda>x. si_dt_flags_1 x AND DF_1_GLOBAL \<noteq> 0) (ns_soinfo_list (ls_ns s ns))"

definition get_shared_group :: "lstate \<Rightarrow> ns_id \<Rightarrow> link_error + so_id list" where
  "get_shared_group s ns =
     (if ns = ls_default_ns s then get_global_group s ns
      else select_objs s (\<lambda>x. si_rtld_flags x AND RTLD_GLOBAL \<noteq> 0) (ns_soinfo_list (ls_ns s ns)))"

section \<open>Creating namespaces\<close>

definition add_soinfos_to_namespace :: "so_id list \<Rightarrow> ns_id \<Rightarrow> lstate \<Rightarrow> link_error + lstate" where
  "add_soinfos_to_namespace soinfos ns s =
     each (\<lambda>si. modify si (add_secondary_namespace ns)) soinfos (modify_ns ns (add_soinfos soinfos) s)"

text \<open>
  \<open>fresh\<close> is the address of the allocated namespace and \<open>paths\<close> the host's resolution of a path list;
  the types are the bits of \<open>ANDROID_NAMESPACE_TYPE\<close>.
\<close>

definition ANDROID_NAMESPACE_TYPE_ISOLATED :: u64 where "ANDROID_NAMESPACE_TYPE_ISOLATED = 1"
definition ANDROID_NAMESPACE_TYPE_SHARED :: u64 where "ANDROID_NAMESPACE_TYPE_SHARED = 2"
definition ANDROID_NAMESPACE_TYPE_GREYLIST_ENABLED :: u64 where "ANDROID_NAMESPACE_TYPE_GREYLIST_ENABLED = 0x08000000"

definition create_namespace ::
    "ns_id \<Rightarrow> (string option \<Rightarrow> string list) \<Rightarrow> ns_id option \<Rightarrow> string option \<Rightarrow> string option \<Rightarrow> string option \<Rightarrow> u64
     \<Rightarrow> string option \<Rightarrow> ns_id option \<Rightarrow> lstate \<Rightarrow> link_error + ns_id \<times> lstate" where
  "create_namespace fresh paths caller_ns name ld_library_path default_library_path type permitted_path parent_namespace s =
     (let parent = (case parent_namespace of
            Some p \<Rightarrow> p
          | None \<Rightarrow> (case caller_ns of Some c \<Rightarrow> c | None \<Rightarrow> ls_anonymous_ns s));
          pn = ls_ns s parent;
          shared = type AND ANDROID_NAMESPACE_TYPE_SHARED \<noteq> 0;
          ns = new_namespace\<lparr>ns_name := name,
                 ns_is_isolated := type AND ANDROID_NAMESPACE_TYPE_ISOLATED \<noteq> 0,
                 ns_is_greylist_enabled := type AND ANDROID_NAMESPACE_TYPE_GREYLIST_ENABLED \<noteq> 0\<rparr>;
          s1 = modify_ns fresh (\<lambda>_. ns) s;
          add_paths = modify_ns fresh (\<lambda>n. n\<lparr>
            ns_ld_library_paths := paths ld_library_path @ (if shared then ns_ld_library_paths pn else []),
            ns_default_library_paths := paths default_library_path @ (if shared then ns_default_library_paths pn else []),
            ns_permitted_paths := paths permitted_path @ (if shared then ns_permitted_paths pn else [])\<rparr>);
          copy_links = modify_ns fresh (\<lambda>n. fold (\<lambda>l. add_linked_namespace (nl_linked_namespace l)
            (nl_shared_lib_sonames l) (nl_allow_all_shared_libs l)) (ns_linked_namespaces pn) n)
      in if shared
         then try_then (add_soinfos_to_namespace (ns_soinfo_list pn) fresh s1) (\<lambda>s2. Inr (fresh, add_paths (copy_links s2)))
         else try_then (get_shared_group s1 parent) (\<lambda>group.
                try_then (add_soinfos_to_namespace group fresh s1) (\<lambda>s2. Inr (fresh, add_paths s2))))"

text \<open>\<open>split\<close> of \<open>linker_utils.cpp\<close> gives the names; an empty list of names is an error.\<close>

definition link_namespaces :: "ns_id option \<Rightarrow> ns_id option \<Rightarrow> string option \<Rightarrow> lstate \<Rightarrow> link_error + lstate" where
  "link_namespaces namespace_from namespace_to shared_lib_sonames s =
     (let to = (case namespace_to of None \<Rightarrow> ls_default_ns s | Some n \<Rightarrow> n)
      in case namespace_from of
           None \<Rightarrow> Inl LinkError
         | Some from \<Rightarrow>
             (case shared_lib_sonames of
                None \<Rightarrow> Inl LinkError
              | Some names \<Rightarrow>
                  if names = [] then Inl LinkError
                  else (case split names '':'' of
                     None \<Rightarrow> Inl Fatal
                   | Some sonames \<Rightarrow> Inr (modify_ns from (add_linked_namespace to (set sonames) False) s))))"

definition link_namespaces_all_libs :: "ns_id option \<Rightarrow> ns_id option \<Rightarrow> lstate \<Rightarrow> link_error + lstate" where
  "link_namespaces_all_libs namespace_from namespace_to s =
     (case namespace_from of
        None \<Rightarrow> Inl LinkError
      | Some from \<Rightarrow>
          (case namespace_to of
             None \<Rightarrow> Inl LinkError
           | Some to \<Rightarrow> Inr (modify_ns from (add_linked_namespace to {} True) s)))"

definition init_anonymous_namespace ::
    "ns_id \<Rightarrow> (string option \<Rightarrow> string list) \<Rightarrow> string option \<Rightarrow> string option \<Rightarrow> lstate \<Rightarrow> link_error + lstate" where
  "init_anonymous_namespace fresh paths shared_lib_sonames library_search_path s =
     (if ls_anonymous_initialized s then Inl LinkError
      else try_then (create_namespace fresh paths None (Some ''(anonymous)'') None library_search_path
                       ANDROID_NAMESPACE_TYPE_ISOLATED None (Some (ls_default_ns s)) s) (\<lambda>(anon_ns, s1).
             try_then (link_namespaces (Some anon_ns) (Some (ls_default_ns s1)) shared_lib_sonames s1) (\<lambda>s2.
               Inr (s2\<lparr>ls_anonymous_ns := anon_ns, ls_anonymous_initialized := True\<rparr>))))"

section \<open>The list of objects and handles\<close>

definition solist_add_soinfo :: "so_id \<Rightarrow> lstate \<Rightarrow> lstate" where
  "solist_add_soinfo si s = s\<lparr>ls_solist := ls_solist s @ [si]\<rparr>"

text \<open>The head of the list is static: a request to remove it fails a \<open>CHECK\<close>.\<close>

definition solist_remove_soinfo :: "so_id \<Rightarrow> lstate \<Rightarrow> link_error + bool \<times> lstate" where
  "solist_remove_soinfo si s =
     (if si \<notin> set (ls_solist s) then Inr (False, s)
      else if hd (ls_solist s) = si then Inl Fatal
      else Inr (True, s\<lparr>ls_solist := remove1 si (ls_solist s)\<rparr>))"

definition solist_objects :: "lstate \<Rightarrow> so_id list" where
  "solist_objects s = tl (ls_solist s)"

text \<open>
  Handles: \<open>rand_at n\<close> is the answer of the \<open>n\<close>-th call of \<open>rand\<close>; in the first stage of init the
  numbers count up instead.  The loop may go on as long as every candidate is taken.
\<close>

definition next_handle :: "bool \<Rightarrow> (nat \<Rightarrow> u64) \<Rightarrow> nat \<Rightarrow> u64 \<Rightarrow> u64" where
  "next_handle first_stage rand_at n handle = (if first_stage then handle + 2 else rand_at n) OR 1"

definition handle_taken :: "(u64 \<rightharpoonup> so_id) \<Rightarrow> u64 \<Rightarrow> bool" where
  "handle_taken handles handle \<longleftrightarrow> handle = 0 \<or> handle = - 1 \<or> handles handle \<noteq> None"

partial_function (option) generate_handle ::
    "bool \<Rightarrow> (nat \<Rightarrow> u64) \<Rightarrow> (u64 \<rightharpoonup> so_id) \<Rightarrow> nat \<Rightarrow> u64 \<Rightarrow> u64 option" where
  "generate_handle first_stage rand_at handles n handle =
     (if handle_taken handles (next_handle first_stage rand_at n handle)
      then generate_handle first_stage rand_at handles (n + 1) (next_handle first_stage rand_at n handle)
      else Some (next_handle first_stage rand_at n handle))"

definition to_handle :: "lstate \<Rightarrow> (so_id \<Rightarrow> u64) \<Rightarrow> so_id \<Rightarrow> link_error + u64" where
  "to_handle s addr si =
     (if ls_app_sdk s < 24 then Inr (addr si)
      else try_then (deref s si) (\<lambda>x. if si_handle x = 0 then Inl Fatal else Inr (si_handle x)))"

text \<open>\<open>object_at\<close> reads an even handle as the address of an object.\<close>

definition soinfo_from_handle :: "lstate \<Rightarrow> (u64 \<Rightarrow> so_id option) \<Rightarrow> u64 \<Rightarrow> so_id option" where
  "soinfo_from_handle s object_at handle = (if handle AND 1 \<noteq> 0 then ls_handles s handle else object_at handle)"

section \<open>Allocation and release\<close>

definition PATH_MAX :: nat where "PATH_MAX = 4096"

text \<open>
  \<open>fresh\<close> is the address that the allocator returns and \<open>handle\<close> the answer of \<open>generate_handle\<close>.
\<close>

definition soinfo_alloc ::
    "so_id \<Rightarrow> u64 \<Rightarrow> ns_id \<Rightarrow> string \<Rightarrow> (u64 \<times> u64) option \<Rightarrow> int \<Rightarrow> u32 \<Rightarrow> lstate \<Rightarrow> link_error + so_id \<times> lstate" where
  "soinfo_alloc fresh handle ns name file_stat foffset rtld_flags s =
     (if length name \<ge> PATH_MAX then Inl Fatal
      else
        let x = (new_soinfo ns name file_stat foffset rtld_flags)\<lparr>si_handle := handle\<rparr>;
            s1 = solist_add_soinfo fresh (s\<lparr>ls_objs := (ls_objs s)(fresh \<mapsto> x)\<rparr>);
            s2 = s1\<lparr>ls_handles := (ls_handles s1)(handle \<mapsto> fresh)\<rparr>
        in Inr (fresh, modify_ns ns (add_soinfo fresh) s2))"

definition add_child :: "so_id \<Rightarrow> so_id \<Rightarrow> lstate \<Rightarrow> link_error + lstate" where
  "add_child this child s =
     try_then (modify child (\<lambda>c. c\<lparr>si_parents := si_parents c @ [this]\<rparr>) s)
       (modify this (\<lambda>t. t\<lparr>si_children := si_children t @ [child]\<rparr>))"

definition drop_parent :: "so_id \<Rightarrow> soinfo \<Rightarrow> soinfo" where
  "drop_parent p x = x\<lparr>si_parents := filter (\<lambda>q. q \<noteq> p) (si_parents x)\<rparr>"

definition drop_child :: "so_id \<Rightarrow> soinfo \<Rightarrow> soinfo" where
  "drop_child c x = x\<lparr>si_children := filter (\<lambda>q. q \<noteq> c) (si_children x)\<rparr>"

definition remove_all_links :: "so_id \<Rightarrow> lstate \<Rightarrow> link_error + lstate" where
  "remove_all_links this s =
     try_then (deref s this) (\<lambda>x0.
     try_then (each (\<lambda>child. modify child (drop_parent this)) (si_children x0) s) (\<lambda>s1.
     try_then (deref s1 this) (\<lambda>x1.
     try_then (each (\<lambda>parent. modify parent (drop_child this)) (si_parents x1) s1) (\<lambda>s2.
     try_then (deref s2 this) (\<lambda>x2.
       case si_primary_namespace x2 of
         None \<Rightarrow> Inl NullPointer
       | Some ns \<Rightarrow>
           let s3 = modify_ns ns (remove_soinfo this) s2;
               s4 = fold (\<lambda>n. modify_ns n (remove_soinfo this)) (si_secondary_namespaces x2) s3
           in modify this (\<lambda>x. x\<lparr>si_parents := [], si_children := [], si_primary_namespace := None,
                si_secondary_namespaces := []\<rparr>) s4)))))"

definition soinfo_free :: "so_id \<Rightarrow> lstate \<Rightarrow> link_error + lstate" where
  "soinfo_free si s =
     try_then (deref s si) (\<lambda>x.
       let s1 = (if si_base x \<noteq> 0 \<and> si_size x \<noteq> 0
                 then emit [if \<not> is_mapped_by_caller x then Munmap (si_base x) (si_size x)
                            else MapNone (si_base x) (si_size x)] s
                 else s)
       in try_then (solist_remove_soinfo si s1) (\<lambda>(removed, s2).
            if \<not> removed then Inl Fatal
            else try_then (remove_all_links si s2) (\<lambda>s3.
              let s4 = s3\<lparr>ls_handles := (if si_handle x \<noteq> 0 then (ls_handles s3)(si_handle x := None) else ls_handles s3)\<rparr>
              in Inr (emit [FreeSoinfo si] (s4\<lparr>ls_objs := (ls_objs s4)(si := None)\<rparr>)))))"

end
