(* ===== verification/Linker_Unload.thy ===== *)
theory Linker_Unload
  imports Linker_Soinfo
begin

text \<open>
  Unloading: the destructors of an object (\<open>q/linker_soinfo.cpp\<close>), and \<open>soinfo_unload\<close>,
  \<open>do_dlclose\<close> and the counters of thread-local destructors (\<open>q/linker.cpp\<close>).  An invariant of the
  loaded objects ties the reference count of a load group to the references into it, and unloading
  keeps it: no pointer to a freed object is left or followed as long as the dependencies have no cycle.
\<close>

section \<open>Definitions\<close>

text \<open>
  The functions of an array that \<open>call_array\<close> calls, in order: null and minus one are skipped.  The
  functions themselves are not modelled; in particular they do not call the linker.
\<close>

definition call_function :: "u64 \<Rightarrow> u64 list" where
  "call_function f = (if f = 0 \<or> f = - 1 then [] else [f])"

definition call_array :: "u64 list option \<Rightarrow> bool \<Rightarrow> u64 list" where
  "call_array functions backwards =
     (case functions of
        None \<Rightarrow> []
      | Some fs \<Rightarrow> concat (map call_function (if backwards then rev fs else fs)))"

definition dtor_calls :: "soinfo \<Rightarrow> u64 list" where
  "dtor_calls x =
     (if \<not> si_constructors_called x \<or> si_soname x = Some ''libc.so'' then []
      else call_array (si_fini_array x) True @ call_function (si_fini_func x))"

definition call_destructors :: "so_id \<Rightarrow> lstate \<Rightarrow> link_error + lstate" where
  "call_destructors si s = try_then (deref s si) (\<lambda>x. Inr (emit (map (CallDtor si) (dtor_calls x)) s))"

text \<open>The loop over the children of an object that is being unloaded.\<close>

fun unload_children ::
    "so_id \<Rightarrow> so_id list \<Rightarrow> so_id \<Rightarrow> so_id list \<Rightarrow> lstate \<times> so_id list \<times> so_id list
     \<Rightarrow> link_error + lstate \<times> so_id list \<times> so_id list" where
  "unload_children root local_list si [] st = Inr st"
| "unload_children root local_list si (child # rest) (s, unload_list, external_list) =
     try_then (modify si (\<lambda>x. x\<lparr>si_children := rest\<rparr>) s) (\<lambda>s1.
     try_then (modify child (drop_parent si) s1) (\<lambda>s2.
       if child \<in> set local_list then unload_children root local_list si rest (s2, unload_list, external_list)
       else try_then (deref s2 child) (\<lambda>c.
         if is_linked c \<and> si_local_group_root c \<noteq> Some root
         then unload_children root local_list si rest (s2, unload_list, external_list @ [child])
         else if si_parents c = []
         then unload_children root local_list si rest (s2, unload_list @ [child], external_list)
         else unload_children root local_list si rest (s2, unload_list, external_list))))"

definition unload_round ::
    "so_id \<Rightarrow> lstate \<Rightarrow> so_id \<Rightarrow> so_id list \<Rightarrow> so_id list \<Rightarrow> so_id list \<Rightarrow> link_error + lstate \<times> so_id list \<times> so_id list" where
  "unload_round root s si unload_list local_list external_list =
     try_then (deref s si) (\<lambda>x. unload_children root local_list si (si_children x) (s, unload_list, external_list))"

partial_function (option) unload_collect ::
    "so_id \<Rightarrow> lstate \<Rightarrow> so_id list \<Rightarrow> so_id list \<Rightarrow> so_id list \<Rightarrow> (link_error + lstate \<times> so_id list \<times> so_id list) option" where
  "unload_collect root s unload_list local_list external_list =
     (case unload_list of
        [] \<Rightarrow> Some (Inr (s, local_list, external_list))
      | si # more_list \<Rightarrow>
          if si \<in> set local_list then unload_collect root s more_list local_list external_list
          else (case unload_round root s si more_list (local_list @ [si]) external_list of
                  Inl e \<Rightarrow> Some (Inl e)
                | Inr r \<Rightarrow> unload_collect root (fst r) (fst (snd r)) (local_list @ [si]) (snd (snd r))))"

definition release_one :: "so_id \<Rightarrow> lstate \<Rightarrow> link_error + lstate" where
  "release_one si s =
     try_then (deref s si) (\<lambda>x. soinfo_free si (emit [NotifyGdbUnload si, UnregisterTls si, CfiBeforeUnload si] s))"

text \<open>
  The body of \<open>soinfo_unload_impl\<close> up to its last loop; the result has the external references that
  this loop hands to \<open>soinfo_unload\<close>.
\<close>

definition soinfo_unload_impl :: "so_id \<Rightarrow> lstate \<Rightarrow> (link_error + lstate \<times> so_id list) option" where
  "soinfo_unload_impl root s =
     (case deref s root of
        Inl e \<Rightarrow> Some (Inl e)
      | Inr x \<Rightarrow>
          if \<not> can_unload x then Some (Inr (s, []))
          else map_option (\<lambda>r.
                 try_then r (\<lambda>(s1, local_list, external_list).
                 try_then (each call_destructors local_list s1) (\<lambda>s2.
                 try_then (each release_one local_list s2) (\<lambda>s3.
                   Inr (s3, if is_linked x then external_list else [])))))
               (unload_collect root s [root] [] []))"

definition unload_one :: "so_id \<Rightarrow> lstate \<Rightarrow> (link_error + lstate \<times> so_id list) option" where
  "unload_one unload_si s =
     (case try_then (deref s unload_si) (\<lambda>x.
             if is_linked x
             then (case si_local_group_root x of
                     None \<Rightarrow> Inl NullPointer
                   | Some root \<Rightarrow> try_then (decrement_ref_count root s) (\<lambda>(n, s1). Inr (root, n, s1)))
             else Inr (unload_si, 0, s)) of
        Inl e \<Rightarrow> Some (Inl e)
      | Inr (root, ref_count, s1) \<Rightarrow> if ref_count > 0 then Some (Inr (s1, [])) else soinfo_unload_impl root s1)"

text \<open>
  \<open>soinfo_unload\<close> with its pending calls as an explicit stack: the call that a round of the last loop
  of \<open>soinfo_unload_impl\<close> makes runs to its end before the next round, and nothing follows the loop.
\<close>

partial_function (option) soinfo_unload_all :: "so_id list \<Rightarrow> lstate \<Rightarrow> (link_error + lstate) option" where
  "soinfo_unload_all pending s =
     (case pending of
        [] \<Rightarrow> Some (Inr s)
      | si # sis \<Rightarrow>
          (case unload_one si s of
             None \<Rightarrow> None
           | Some r \<Rightarrow>
               (case r of
                  Inl e \<Rightarrow> Some (Inl e)
                | Inr q \<Rightarrow> soinfo_unload_all (snd q @ sis) (fst q))))"

definition soinfo_unload :: "so_id \<Rightarrow> lstate \<Rightarrow> (link_error + lstate) option" where
  "soinfo_unload si s = soinfo_unload_all [si] s"

definition do_dlclose :: "(u64 \<Rightarrow> so_id option) \<Rightarrow> u64 \<Rightarrow> lstate \<Rightarrow> (link_error + lstate) option" where
  "do_dlclose object_at handle s =
     (case soinfo_from_handle s object_at handle of
        None \<Rightarrow> Some (Inl LinkError)
      | Some si \<Rightarrow> soinfo_unload si s)"

section \<open>The dependency graph\<close>

definition kids :: "lstate \<Rightarrow> so_id \<Rightarrow> so_id list" where
  "kids s i = (case ls_objs s i of Some x \<Rightarrow> si_children x | None \<Rightarrow> [])"

definition pars :: "lstate \<Rightarrow> so_id \<Rightarrow> so_id list" where
  "pars s i = (case ls_objs s i of Some x \<Rightarrow> si_parents x | None \<Rightarrow> [])"

definition group_root :: "lstate \<Rightarrow> so_id \<Rightarrow> so_id option" where
  "group_root s i = (case ls_objs s i of Some x \<Rightarrow> si_local_group_root x | None \<Rightarrow> None)"

definition needs :: "lstate \<Rightarrow> so_id rel" where
  "needs s = {(p, c). c \<in> set (kids s p)}"

definition load_group :: "lstate \<Rightarrow> so_id \<Rightarrow> so_id set" where
  "load_group s r = {i \<in> dom (ls_objs s). group_root s i = Some r}"

text \<open>References into the group of \<open>r\<close> from outside, as the code counts them: one per entry of a list of children.\<close>

definition refs_into :: "lstate \<Rightarrow> so_id \<Rightarrow> so_id list \<Rightarrow> nat" where
  "refs_into s r xs = length (filter (\<lambda>c. group_root s c = Some r) xs)"

definition outside_refs :: "lstate \<Rightarrow> so_id \<Rightarrow> nat" where
  "outside_refs s r = (\<Sum>p \<in> dom (ls_objs s) - load_group s r. refs_into s r (kids s p))"

text \<open>
  The links between the objects: children and parents are inverse and loaded, every object belongs
  to a group whose root is loaded and from which it can be reached.
\<close>

definition links_ok :: "lstate \<Rightarrow> bool" where
  "links_ok s \<longleftrightarrow> finite (dom (ls_objs s)) \<and>
     (\<forall>i x. ls_objs s i = Some x \<longrightarrow>
        is_linked x \<and> si_primary_namespace x \<noteq> None \<and>
        set (si_children x) \<subseteq> dom (ls_objs s) \<and> set (si_parents x) \<subseteq> dom (ls_objs s) \<and>
        (\<forall>c \<in> set (si_children x). i \<in> set (pars s c)) \<and> (\<forall>p \<in> set (si_parents x). i \<in> set (kids s p)) \<and>
        (\<exists>r. si_local_group_root x = Some r \<and> group_root s r = Some r \<and> (r, i) \<in> (needs s)\<^sup>*))"

text \<open>
  The tables that point to objects: the list of all objects behind its static head, the lists of the
  namespaces and the handles.
\<close>

definition tables_ok :: "lstate \<Rightarrow> bool" where
  "tables_ok s \<longleftrightarrow>
     ls_solist s \<noteq> [] \<and> hd (ls_solist s) \<notin> dom (ls_objs s) \<and> distinct (ls_solist s) \<and>
     set (tl (ls_solist s)) = dom (ls_objs s) \<and>
     (\<forall>n i. i \<in> set (ns_soinfo_list (ls_ns s n)) \<longrightarrow> (\<exists>x. ls_objs s i = Some x \<and> in_namespace n x)) \<and>
     ls_handles s 0 = None \<and> (\<forall>h i. ls_handles s h = Some i \<longrightarrow> (\<exists>x. ls_objs s i = Some x \<and> si_handle x = h)) \<and>
     (\<forall>i x. ls_objs s i = Some x \<longrightarrow> si_handle x \<noteq> 0 \<longrightarrow> ls_handles s (si_handle x) = Some i)"

text \<open>
  The reference count of a group is the number of its open handles, of pending releases and of
  references from other groups.
\<close>

definition counts_ok :: "lstate \<Rightarrow> (so_id \<Rightarrow> nat) \<Rightarrow> so_id list \<Rightarrow> bool" where
  "counts_ok s opens pending \<longleftrightarrow> set pending \<subseteq> dom (ls_objs s) \<and>
     (\<forall>r x. ls_objs s r = Some x \<longrightarrow> si_local_group_root x = Some r \<longrightarrow>
        unat (si_ref_count x) = opens r + refs_into s r pending + outside_refs s r)"

text \<open>No group stays loaded that nobody refers to, unless its root may not be unloaded.\<close>

definition no_idle_group :: "lstate \<Rightarrow> bool" where
  "no_idle_group s \<longleftrightarrow> (\<forall>r x. ls_objs s r = Some x \<longrightarrow> si_local_group_root x = Some r \<longrightarrow> can_unload x \<longrightarrow> si_ref_count x \<noteq> 0)"

definition linker_ok :: "lstate \<Rightarrow> (so_id \<Rightarrow> nat) \<Rightarrow> so_id list \<Rightarrow> bool" where
  "linker_ok s opens pending \<longleftrightarrow> links_ok s \<and> tables_ok s \<and> counts_ok s opens pending \<and> no_idle_group s"

lemma deref_Some: "ls_objs s i = Some x \<Longrightarrow> deref s i = Inr x"
  by (simp add: deref_def)

lemma modify_Some: "ls_objs s i = Some x \<Longrightarrow> modify i f s = Inr (s\<lparr>ls_objs := (ls_objs s)(i \<mapsto> f x)\<rparr>)"
  by (simp add: modify_def deref_Some)

lemma objs_cong: "(\<And>i. f i = g i) \<Longrightarrow> s\<lparr>ls_objs := f\<rparr> = s\<lparr>ls_objs := g\<rparr>"
  by (metis ext)

lemma links_obj:
  assumes "links_ok s" "ls_objs s i = Some x"
  shows "is_linked x" "si_primary_namespace x \<noteq> None" "set (si_children x) \<subseteq> dom (ls_objs s)" "set (si_parents x) \<subseteq> dom (ls_objs s)"
  using assms unfolding links_ok_def by blast+

lemma group_rootD:
  assumes "links_ok s" "group_root s i = Some r"
  shows "i \<in> dom (ls_objs s)" "group_root s r = Some r" "(r, i) \<in> (needs s)\<^sup>*"
proof -
  obtain x where x: "ls_objs s i = Some x" "si_local_group_root x = Some r"
    using assms(2) by (cases "ls_objs s i") (simp_all add: group_root_def)
  then obtain r' where "si_local_group_root x = Some r'" "group_root s r' = Some r'" "(r', i) \<in> (needs s)\<^sup>*"
    using assms(1) unfolding links_ok_def by blast
  with x show "i \<in> dom (ls_objs s)" "group_root s r = Some r" "(r, i) \<in> (needs s)\<^sup>*" by auto
qed

lemma links_group:
  assumes "links_ok s" "i \<in> dom (ls_objs s)"
  obtains r where "group_root s i = Some r"
proof -
  obtain x where x: "ls_objs s i = Some x" using assms(2) by auto
  then obtain r where "si_local_group_root x = Some r" using assms(1) unfolding links_ok_def by blast
  with x that show ?thesis by (simp add: group_root_def)
qed

lemma kids_iff: "c \<in> set (kids s p) \<longleftrightarrow> (\<exists>x. ls_objs s p = Some x \<and> c \<in> set (si_children x))"
  by (cases "ls_objs s p") (simp_all add: kids_def)

lemma pars_iff: "p \<in> set (pars s c) \<longleftrightarrow> (\<exists>x. ls_objs s c = Some x \<and> p \<in> set (si_parents x))"
  by (cases "ls_objs s c") (simp_all add: pars_def)

lemma pars_kids: "links_ok s \<Longrightarrow> p \<in> set (pars s c) \<longleftrightarrow> c \<in> set (kids s p)"
  unfolding links_ok_def using kids_iff pars_iff by blast

lemma kids_dom: "links_ok s \<Longrightarrow> c \<in> set (kids s p) \<Longrightarrow> c \<in> dom (ls_objs s) \<and> p \<in> dom (ls_objs s)"
  unfolding kids_iff by (metis domI links_obj(3) subsetD)

lemma needs_iff: "(p, c) \<in> needs s \<longleftrightarrow> c \<in> set (kids s p)"
  by (simp add: needs_def)

section \<open>Collecting a load group\<close>

text \<open>The objects with new lists of children and parents.\<close>

definition relink :: "lstate \<Rightarrow> (so_id \<Rightarrow> so_id list) \<Rightarrow> (so_id \<Rightarrow> so_id list) \<Rightarrow> lstate" where
  "relink s K P = s\<lparr>ls_objs := \<lambda>i. map_option (\<lambda>x. x\<lparr>si_children := K i, si_parents := P i\<rparr>) (ls_objs s i)\<rparr>"

lemma relink_obj: "ls_objs s i = Some x \<Longrightarrow> ls_objs (relink s K P) i = Some (x\<lparr>si_children := K i, si_parents := P i\<rparr>)"
  by (simp add: relink_def)

lemma relink_pop:
  assumes "si \<in> dom (ls_objs s)"
  shows "modify si (\<lambda>x. x\<lparr>si_children := rest\<rparr>) (relink s K P) = Inr (relink s (K(si := rest)) P)"
proof -
  obtain x where x: "ls_objs s si = Some x" using assms by auto
  have "y\<lparr>si_children := a, si_parents := b\<rparr>\<lparr>si_children := rest\<rparr> = y\<lparr>si_children := rest, si_parents := b\<rparr>" for y :: soinfo and a b
    by (cases y) simp
  then show ?thesis unfolding modify_Some[OF relink_obj[OF x]] unfolding relink_def using x by (auto intro!: objs_cong)
qed

lemma relink_drop:
  assumes "c \<in> dom (ls_objs s)"
  shows "modify c (drop_parent si) (relink s K P) = Inr (relink s K (P(c := filter (\<lambda>q. q \<noteq> si) (P c))))"
proof -
  obtain x where x: "ls_objs s c = Some x" using assms by auto
  show ?thesis unfolding modify_Some[OF relink_obj[OF x]] unfolding relink_def drop_parent_def using x by (auto intro!: objs_cong)
qed

text \<open>The objects of \<open>L\<close> are detached: their lists of children are emptied, and nobody has them as a parent.\<close>

definition detached :: "lstate \<Rightarrow> so_id set \<Rightarrow> lstate" where
  "detached s L = relink s (\<lambda>i. if i \<in> L then [] else kids s i) (\<lambda>i. filter (\<lambda>q. q \<notin> L) (pars s i))"

text \<open>In the middle of the loop for \<open>si\<close>: the children \<open>D\<close> are popped, \<open>rest\<close> is left.\<close>

definition popped :: "lstate \<Rightarrow> so_id set \<Rightarrow> so_id \<Rightarrow> so_id list \<Rightarrow> so_id set \<Rightarrow> lstate" where
  "popped s L si rest D = relink s ((\<lambda>i. if i \<in> L then [] else kids s i)(si := rest))
     (\<lambda>i. filter (\<lambda>q. q \<notin> L \<and> \<not> (q = si \<and> i \<in> D)) (pars s i))"

lemma popped_pop:
  "si \<in> dom (ls_objs s) \<Longrightarrow> modify si (\<lambda>x. x\<lparr>si_children := rest\<rparr>) (popped s L si cs D) = Inr (popped s L si rest D)"
  by (simp add: popped_def relink_pop)

lemma popped_drop:
  assumes "c \<in> dom (ls_objs s)"
  shows "modify c (drop_parent si) (popped s L si rest D) = Inr (popped s L si rest (insert c D))"
proof -
  have "(\<lambda>i. filter (\<lambda>q. q \<notin> L \<and> \<not> (q = si \<and> i \<in> D)) (pars s i))
      (c := filter (\<lambda>q. q \<noteq> si) (filter (\<lambda>q. q \<notin> L \<and> \<not> (q = si \<and> c \<in> D)) (pars s c))) =
    (\<lambda>i. filter (\<lambda>q. q \<notin> L \<and> \<not> (q = si \<and> i \<in> insert c D)) (pars s i))"
    unfolding filter_filter by (rule ext) (auto intro!: filter_cong)
  then show ?thesis unfolding popped_def relink_drop[OF assms] by simp
qed

lemma popped_deref:
  assumes "ls_objs s c = Some x" "c \<in> D"
  obtains y where "deref (popped s L si rest D) c = Inr y" "is_linked y = is_linked x"
    "si_local_group_root y = si_local_group_root x" "si_parents y = filter (\<lambda>q. q \<notin> insert si L) (pars s c)"
  using assms by (auto simp: deref_def popped_def relink_obj is_linked_def intro!: filter_cong)

lemma popped_start: "si \<notin> L \<Longrightarrow> popped s L si (kids s si) {} = detached s L"
  unfolding popped_def detached_def by (intro arg_cong2[where f = "relink s"]) auto

lemma popped_end:
  assumes "links_ok s"
  shows "popped s L si [] (set (kids s si)) = detached s (insert si L)"
  unfolding popped_def detached_def
proof (intro arg_cong2[where f = "relink s"] ext)
  show "filter (\<lambda>q. q \<notin> L \<and> \<not> (q = si \<and> i \<in> set (kids s si))) (pars s i) = filter (\<lambda>q. q \<notin> insert si L) (pars s i)" for i
    using pars_kids[OF assms, of si i] by (intro filter_cong) auto
qed auto

text \<open>Which children join the list of objects to unload, and which are references to other groups.\<close>

definition joins :: "lstate \<Rightarrow> so_id \<Rightarrow> so_id list \<Rightarrow> so_id \<Rightarrow> bool" where
  "joins s r L c \<longleftrightarrow> c \<notin> set L \<and> group_root s c = Some r \<and> set (pars s c) \<subseteq> set L"

lemma unload_children_run:
  assumes ok: "links_ok s" and si: "si \<in> dom (ls_objs s)"
  shows "set rest \<subseteq> dom (ls_objs s) \<Longrightarrow>
    unload_children r (L @ [si]) si rest (popped s (set L) si rest D, ul, ext) =
      Inr (popped s (set L) si [] (D \<union> set rest), ul @ filter (joins s r (L @ [si])) rest,
           ext @ filter (\<lambda>c. c \<notin> set (L @ [si]) \<and> group_root s c \<noteq> Some r) rest)"
proof (induction rest arbitrary: D ul ext)
  case (Cons c rest)
  then obtain x where x: "ls_objs s c = Some x" by auto
  obtain y where y: "deref (popped s (set L) si rest (insert c D)) c = Inr y" "is_linked y = is_linked x"
    "si_local_group_root y = si_local_group_root x" "si_parents y = filter (\<lambda>q. q \<notin> insert si (set L)) (pars s c)"
    using popped_deref[OF x, of "insert c D"] by blast
  have "is_linked y" using y links_obj[OF ok x] by simp
  moreover have "group_root s c = si_local_group_root y" using x y by (simp add: group_root_def)
  moreover have "si_parents y = [] \<longleftrightarrow> set (pars s c) \<subseteq> set (L @ [si])"
    using y by (auto simp: filter_empty_conv)
  moreover have "modify c (drop_parent si) (popped s (set L) si rest D) = Inr (popped s (set L) si rest (insert c D))"
    using x by (intro popped_drop) auto
  ultimately have "unload_children r (L @ [si]) si (c # rest) (popped s (set L) si (c # rest) D, ul, ext) =
      unload_children r (L @ [si]) si rest (popped s (set L) si rest (insert c D),
        if joins s r (L @ [si]) c then ul @ [c] else ul,
        if c \<notin> set (L @ [si]) \<and> group_root s c \<noteq> Some r then ext @ [c] else ext)"
    using y(1) by (cases "c \<in> set (L @ [si])") (simp_all add: popped_pop[OF si] joins_def)
  with Cons.IH[of "insert c D"] Cons.prems show ?case by simp
qed simp

lemma unload_round_run:
  assumes ok: "links_ok s" and si: "si \<in> dom (ls_objs s)" "si \<notin> set L"
  shows "unload_round r (detached s (set L)) si ul (L @ [si]) ext =
      Inr (detached s (set (L @ [si])), ul @ filter (joins s r (L @ [si])) (kids s si),
           ext @ filter (\<lambda>c. c \<notin> set (L @ [si]) \<and> group_root s c \<noteq> Some r) (kids s si))"
proof -
  obtain x where x: "ls_objs s si = Some x" using si by auto
  then obtain y where y: "deref (detached s (set L)) si = Inr y" "si_children y = kids s si"
    using si(2) by (auto simp: deref_def detached_def relink_obj)
  have "set (kids s si) \<subseteq> dom (ls_objs s)" using kids_dom[OF ok] by blast
  then have "unload_children r (L @ [si]) si (kids s si) (popped s (set L) si (kids s si) {}, ul, ext) =
      Inr (popped s (set L) si [] ({} \<union> set (kids s si)), ul @ filter (joins s r (L @ [si])) (kids s si),
           ext @ filter (\<lambda>c. c \<notin> set (L @ [si]) \<and> group_root s c \<noteq> Some r) (kids s si))"
    by (rule unload_children_run[OF ok si(1)])
  then show ?thesis using y by (simp add: unload_round_def popped_start[OF si(2)] popped_end[OF ok])
qed

text \<open>
  The invariant of the loop: the objects found so far come after all their parents, the list to
  unload has the objects whose parents are all found, and the external references are those of the
  objects found.
\<close>

definition outside_kids :: "lstate \<Rightarrow> so_id \<Rightarrow> so_id \<Rightarrow> so_id list" where
  "outside_kids s r p = filter (\<lambda>c. group_root s c \<noteq> Some r) (kids s p)"

definition parents_first :: "lstate \<Rightarrow> so_id list \<Rightarrow> bool" where
  "parents_first s L \<longleftrightarrow> (\<forall>i < length L. set (pars s (L ! i)) \<subseteq> set (take i L))"

definition collect_inv :: "lstate \<Rightarrow> so_id \<Rightarrow> so_id list \<Rightarrow> so_id list \<Rightarrow> so_id list \<Rightarrow> bool" where
  "collect_inv s r ul L ext \<longleftrightarrow> distinct L \<and> set L \<subseteq> load_group s r \<and> set ul \<subseteq> load_group s r \<and> parents_first s L \<and>
     (\<forall>u \<in> set ul. set (pars s u) \<subseteq> set L) \<and>
     (\<forall>x \<in> load_group s r. set (pars s x) \<subseteq> set L \<longrightarrow> x \<in> set L \<union> set ul) \<and>
     ext = concat (map (outside_kids s r) L)"

lemma parents_first_snoc: "parents_first s L \<Longrightarrow> set (pars s x) \<subseteq> set L \<Longrightarrow> parents_first s (L @ [x])"
  by (auto simp: parents_first_def nth_append less_Suc_eq)

lemma collect_inv_skip: "collect_inv s r (si # ul) L ext \<Longrightarrow> si \<in> set L \<Longrightarrow> collect_inv s r ul L ext"
  by (auto simp: collect_inv_def)

lemma collect_inv_step:
  assumes ok: "links_ok s" and inv: "collect_inv s r (si # ul) L ext" and new: "si \<notin> set L"
  shows "collect_inv s r (ul @ filter (joins s r (L @ [si])) (kids s si)) (L @ [si])
    (ext @ filter (\<lambda>c. c \<notin> set (L @ [si]) \<and> group_root s c \<noteq> Some r) (kids s si))"
proof -
  have inside: "set (L @ [si]) \<subseteq> load_group s r" using inv by (auto simp: collect_inv_def)
  then have "filter (\<lambda>c. c \<notin> set (L @ [si]) \<and> group_root s c \<noteq> Some r) (kids s si) = outside_kids s r si"
    unfolding outside_kids_def by (intro filter_cong) (auto simp: load_group_def)
  moreover have "x \<in> set (L @ [si]) \<union> set (ul @ filter (joins s r (L @ [si])) (kids s si))"
    if x: "x \<in> load_group s r" "set (pars s x) \<subseteq> set (L @ [si])" for x
  proof (cases "si \<in> set (pars s x)")
    case True
    then show ?thesis using x pars_kids[OF ok, of si x] by (auto simp: joins_def load_group_def)
  next
    case False
    then show ?thesis using x inv by (auto simp: collect_inv_def)
  qed
  moreover have "parents_first s (L @ [si])" using inv by (intro parents_first_snoc) (auto simp: collect_inv_def)
  moreover have "set (filter (joins s r (L @ [si])) (kids s si)) \<subseteq> load_group s r"
    using kids_dom[OF ok] by (auto simp: joins_def load_group_def)
  ultimately show ?thesis using inv inside new unfolding collect_inv_def by (auto simp: joins_def)
qed

lemma finite_group: "links_ok s \<Longrightarrow> finite (load_group s r)"
  by (simp add: links_ok_def load_group_def)

lemma unload_collect_run:
  assumes ok: "links_ok s"
  shows "collect_inv s r ul L ext \<Longrightarrow>
    \<exists>L' ext'. unload_collect r (detached s (set L)) ul L ext = Some (Inr (detached s (set L'), L', ext')) \<and>
      collect_inv s r [] L' ext'"
proof (induction "card (load_group s r - set L)" arbitrary: ul L ext rule: less_induct)
  case less
  note outer = less.hyps
  show ?case using less.prems
  proof (induction ul)
    case Nil
    then show ?case by (subst unload_collect.simps) auto
  next
    case (Cons si ul)
    show ?case
    proof (cases "si \<in> set L")
      case True
      with Cons show ?thesis by (subst unload_collect.simps) (simp add: collect_inv_skip)
    next
      case False
      have si: "si \<in> load_group s r" using Cons.prems by (simp add: collect_inv_def)
      then have dom: "si \<in> dom (ls_objs s)" by (simp add: load_group_def)
      have "card (load_group s r - set (L @ [si])) < card (load_group s r - set L)"
        using si False finite_group[OF ok] by (intro psubset_card_mono) auto
      from outer[OF this collect_inv_step[OF ok Cons.prems False]] unload_round_run[OF ok dom False]
      show ?thesis using False by (subst unload_collect.simps) simp
    qed
  qed
qed

text \<open>Without references from outside and without cycles the loop finds the whole group.\<close>

definition closed_group :: "lstate \<Rightarrow> so_id \<Rightarrow> bool" where
  "closed_group s r \<longleftrightarrow> (\<forall>p c. c \<in> set (kids s p) \<longrightarrow> group_root s c = Some r \<longrightarrow> group_root s p = Some r)"

lemma finite_needs: "links_ok s \<Longrightarrow> finite (needs s)"
proof -
  assume ok: "links_ok s"
  have "needs s \<subseteq> dom (ls_objs s) \<times> dom (ls_objs s)" using kids_dom[OF ok] by (auto simp: needs_def)
  moreover have "finite (dom (ls_objs s) \<times> dom (ls_objs s))" using ok by (simp add: links_ok_def)
  ultimately show "finite (needs s)" by (rule finite_subset)
qed

lemma root_no_parents:
  assumes ok: "links_ok s" and "acyclic (needs s)" and "closed_group s r"
  shows "group_root s r = Some r \<Longrightarrow> pars s r = []"
proof (rule ccontr)
  assume r: "group_root s r = Some r" "pars s r \<noteq> []"
  then obtain p where "p \<in> set (pars s r)" by (cases "pars s r") auto
  then have p: "(p, r) \<in> needs s" using pars_kids[OF ok] by (simp add: needs_iff)
  have "group_root s p = Some r" using p r assms(3) unfolding closed_group_def needs_iff by blast
  from group_rootD(3)[OF ok this] p have "(r, r) \<in> (needs s)\<^sup>+" by simp
  with assms(2) show False by (simp add: acyclic_def)
qed

lemma collect_inv_start:
  assumes ok: "links_ok s" and "acyclic (needs s)" and "closed_group s r" and r: "group_root s r = Some r"
  shows "collect_inv s r [r] [] []"
proof -
  have "x = r" if x: "x \<in> load_group s r" "pars s x = []" for x
  proof -
    have "group_root s x = Some r" using x by (simp add: load_group_def)
    from group_rootD(3)[OF ok this] show "x = r" using x(2) pars_kids[OF ok, of _ x] by (cases rule: rtrancl.cases) (auto simp: needs_iff)
  qed
  moreover have "r \<in> load_group s r" using r group_rootD(1)[OF ok] by (simp add: load_group_def)
  ultimately show ?thesis using root_no_parents[OF assms(1-3) r] by (auto simp: collect_inv_def parents_first_def)
qed

lemma collect_inv_end:
  assumes ok: "links_ok s" and ac: "acyclic (needs s)" and closed: "closed_group s r" and inv: "collect_inv s r [] L ext"
  shows "set L = load_group s r"
proof -
  have "wf (needs s)" using finite_acyclic_wf[OF finite_needs[OF ok] ac] .
  then have "x \<in> load_group s r \<longrightarrow> x \<in> set L" for x
  proof (induction x rule: wf_induct_rule)
    case (less x)
    show ?case
    proof
      assume x: "x \<in> load_group s r"
      have "p \<in> set L" if "p \<in> set (pars s x)" for p
      proof -
        have e: "x \<in> set (kids s p)" using that pars_kids[OF ok] by simp
        have "group_root s p = Some r" using closed e x unfolding closed_group_def load_group_def by blast
        then have "p \<in> load_group s r" using kids_dom[OF ok e] by (simp add: load_group_def)
        with less[of p] e show ?thesis by (simp add: needs_iff)
      qed
      then have "set (pars s x) \<subseteq> set L" by blast
      then show "x \<in> set L" using inv x unfolding collect_inv_def by simp
    qed
  qed
  moreover have "set L \<subseteq> load_group s r" using inv by (simp add: collect_inv_def)
  ultimately show ?thesis by blast
qed

section \<open>Destructors and release\<close>

definition dtor_events :: "lstate \<Rightarrow> so_id \<Rightarrow> link_event list" where
  "dtor_events s i = (case ls_objs s i of None \<Rightarrow> [] | Some x \<Rightarrow> map (CallDtor i) (dtor_calls x))"

lemma emit_simps [simp]:
  "ls_objs (emit es s) = ls_objs s" "ls_solist (emit es s) = ls_solist s" "ls_ns (emit es s) = ls_ns s"
  "ls_handles (emit es s) = ls_handles s" "deref (emit es s) i = deref s i" "dtor_events (emit es s) = dtor_events s"
  by (simp_all add: emit_def deref_def dtor_events_def fun_eq_iff)

lemma emit_emit: "emit es (emit fs s) = emit (fs @ es) s"
  by (simp add: emit_def)

lemma each_destructors:
  "set L \<subseteq> dom (ls_objs s) \<Longrightarrow> each call_destructors L s = Inr (emit (concat (map (dtor_events s) L)) s)"
proof (induction L arbitrary: s)
  case (Cons i L)
  then obtain x where "ls_objs s i = Some x" by auto
  then have "call_destructors i s = Inr (emit (dtor_events s i) s)"
    by (simp add: call_destructors_def deref_Some dtor_events_def)
  moreover have "each call_destructors L (emit (dtor_events s i) s) =
      Inr (emit (concat (map (dtor_events s) L)) (emit (dtor_events s i) s))"
    using Cons by simp
  ultimately show ?case by (simp add: emit_emit)
qed (simp add: emit_def)

text \<open>The state after the objects of \<open>F\<close> are freed.\<close>

definition released :: "lstate \<Rightarrow> so_id set \<Rightarrow> lstate" where
  "released t F = t\<lparr>ls_objs := (ls_objs t) |` (- F), ls_solist := filter (\<lambda>i. i \<notin> F) (ls_solist t),
     ls_ns := (\<lambda>n. (ls_ns t n)\<lparr>ns_soinfo_list := filter (\<lambda>i. i \<notin> F) (ns_soinfo_list (ls_ns t n))\<rparr>),
     ls_handles := (\<lambda>h. if ls_handles t h \<in> Some ` F then None else ls_handles t h)\<rparr>"

definition unmap_events :: "soinfo \<Rightarrow> link_event list" where
  "unmap_events x =
     (if si_base x \<noteq> 0 \<and> si_size x \<noteq> 0
      then [if \<not> is_mapped_by_caller x then Munmap (si_base x) (si_size x) else MapNone (si_base x) (si_size x)] else [])"

definition release_events :: "lstate \<Rightarrow> so_id \<Rightarrow> link_event list" where
  "release_events s i = [NotifyGdbUnload i, UnregisterTls i, CfiBeforeUnload i] @
     (case ls_objs s i of None \<Rightarrow> [] | Some x \<Rightarrow> unmap_events x) @ [FreeSoinfo i]"

lemma fold_remove_soinfo:
  "fold (\<lambda>n. modify_ns n (remove_soinfo i)) ns s =
     s\<lparr>ls_ns := \<lambda>n. if n \<in> set ns then remove_soinfo i (ls_ns s n) else ls_ns s n\<rparr>"
proof (induction ns arbitrary: s)
  case (Cons n ns)
  have idem: "remove_soinfo i (remove_soinfo i a) = remove_soinfo i a" for a by (simp add: remove_soinfo_def)
  have "(\<lambda>m. if m \<in> set ns then remove_soinfo i (ls_ns (modify_ns n (remove_soinfo i) s) m) else ls_ns (modify_ns n (remove_soinfo i) s) m) =
      (\<lambda>m. if m \<in> set (n # ns) then remove_soinfo i (ls_ns s m) else ls_ns s m)"
    by (auto simp: modify_ns_def idem fun_eq_iff)
  then show ?case by (simp add: Cons.IH) (simp add: modify_ns_def)
qed simp

lemma remove_all_links_free:
  assumes "ls_objs s i = Some x" "si_children x = []" "si_parents x = []" "si_primary_namespace x = Some n"
  shows "\<exists>y. remove_all_links i s = Inr (s\<lparr>ls_ns := \<lambda>m. if in_namespace m x then remove_soinfo i (ls_ns s m) else ls_ns s m,
    ls_objs := (ls_objs s)(i \<mapsto> y)\<rparr>)"
proof -
  let ?ns = "\<lambda>m. if in_namespace m x then remove_soinfo i (ls_ns s m) else ls_ns s m"
  have idem: "remove_soinfo i (remove_soinfo i a) = remove_soinfo i a" for a by (simp add: remove_soinfo_def)
  have "fold (\<lambda>n. modify_ns n (remove_soinfo i)) (si_secondary_namespaces x) (modify_ns n (remove_soinfo i) s) = s\<lparr>ls_ns := ?ns\<rparr>"
    using assms(4) unfolding fold_remove_soinfo by (auto simp: modify_ns_def in_namespace_def idem fun_eq_iff)
  then show ?thesis using assms by (simp add: remove_all_links_def deref_Some modify_Some Let_def) blast
qed

lemma soinfo_free_run:
  assumes x: "ls_objs s i = Some x" "si_children x = []" "si_parents x = []" "si_primary_namespace x = Some n"
    and list: "ls_solist s = h # rest" "i \<noteq> h" "i \<in> set rest"
  shows "soinfo_free i s = Inr (emit (unmap_events x @ [FreeSoinfo i]) (s\<lparr>ls_objs := (ls_objs s)(i := None),
    ls_solist := h # remove1 i rest,
    ls_ns := \<lambda>m. if in_namespace m x then remove_soinfo i (ls_ns s m) else ls_ns s m,
    ls_handles := if si_handle x \<noteq> 0 then (ls_handles s)(si_handle x := None) else ls_handles s\<rparr>))"
proof -
  define s2 where "s2 = emit (unmap_events x) s\<lparr>ls_solist := h # remove1 i rest\<rparr>"
  have s1: "(if si_base x \<noteq> 0 \<and> si_size x \<noteq> 0
      then emit [if \<not> is_mapped_by_caller x then Munmap (si_base x) (si_size x) else MapNone (si_base x) (si_size x)] s
      else s) = emit (unmap_events x) s" by (simp add: unmap_events_def) (simp add: emit_def)
  have "solist_remove_soinfo i (emit (unmap_events x) s) = Inr (True, s2)"
    using list by (simp add: solist_remove_soinfo_def s2_def)
  note removed = this
  have "ls_objs s2 i = Some x" using x by (simp add: s2_def)
  then obtain y where links: "remove_all_links i s2 =
      Inr (s2\<lparr>ls_ns := \<lambda>m. if in_namespace m x then remove_soinfo i (ls_ns s2 m) else ls_ns s2 m, ls_objs := (ls_objs s2)(i \<mapsto> y)\<rparr>)"
    using remove_all_links_free[OF _ x(2-4)] by blast
  show ?thesis unfolding soinfo_free_def Let_def deref_Some[OF x(1)] try_then_simps s1 removed prod.case links
      not_True_eq_False if_False
    by (intro arg_cong[where f = Inr] lstate.equality) (simp_all add: s2_def emit_def fun_eq_iff)
qed

lemma tables_handle:
  assumes ok: "tables_ok t" and x: "ls_objs t i = Some x"
  shows "ls_handles t k = Some i \<longleftrightarrow> si_handle x \<noteq> 0 \<and> k = si_handle x"
proof
  assume k: "ls_handles t k = Some i"
  then obtain y where "ls_objs t i = Some y" "si_handle y = k" using ok unfolding tables_ok_def by blast
  then have "si_handle x = k" using x by simp
  moreover have "k \<noteq> 0"
  proof
    assume "k = 0"
    with k ok show False by (simp add: tables_ok_def)
  qed
  ultimately show "si_handle x \<noteq> 0 \<and> k = si_handle x" by simp
next
  assume "si_handle x \<noteq> 0 \<and> k = si_handle x"
  then show "ls_handles t k = Some i" using ok x unfolding tables_ok_def by blast
qed

lemma released_step:
  assumes ok: "tables_ok t" and x: "ls_objs t i = Some x" and F: "i \<notin> F" "F \<subseteq> dom (ls_objs t)" and list: "ls_solist t = h # rest"
  shows "(released t F)\<lparr>ls_objs := (ls_objs (released t F))(i := None),
      ls_solist := h # remove1 i (filter (\<lambda>j. j \<notin> F) rest),
      ls_ns := \<lambda>m. if in_namespace m x then remove_soinfo i (ls_ns (released t F) m) else ls_ns (released t F) m,
      ls_handles := if si_handle x \<noteq> 0 then (ls_handles (released t F))(si_handle x := None) else ls_handles (released t F)\<rparr> =
    released t (insert i F)"
proof -
  have h: "h \<notin> dom (ls_objs t)" "distinct rest" using ok list by (auto simp: tables_ok_def)
  have o: "(ls_objs t |` (- F))(i := None) = ls_objs t |` (- insert i F)" by (auto simp: restrict_map_def fun_eq_iff)
  have l: "h # remove1 i (filter (\<lambda>j. j \<notin> F) rest) = filter (\<lambda>j. j \<notin> insert i F) (h # rest)"
    using h F x by (auto simp: distinct_remove1_removeAll removeAll_filter_not_eq filter_filter intro!: filter_cong)
  have n: "(if in_namespace m x then remove_soinfo i (ls_ns (released t F) m) else ls_ns (released t F) m) = ls_ns (released t (insert i F)) m" for m
  proof (cases "in_namespace m x")
    case True
    have "filter (\<lambda>j. j \<noteq> i) (filter (\<lambda>j. j \<notin> F) ms) = filter (\<lambda>j. j \<notin> insert i F) ms" for ms
      unfolding filter_filter by (intro filter_cong) auto
    with True show ?thesis by (simp add: remove_soinfo_def released_def)
  next
    case False
    then have "i \<notin> set (ns_soinfo_list (ls_ns t m))" using ok x unfolding tables_ok_def by force
    then have "filter (\<lambda>j. j \<notin> F) (ns_soinfo_list (ls_ns t m)) = filter (\<lambda>j. j \<notin> insert i F) (ns_soinfo_list (ls_ns t m))"
      by (intro filter_cong) auto
    with False show ?thesis by (simp add: released_def)
  qed
  have k: "(if si_handle x \<noteq> 0 then (ls_handles (released t F))(si_handle x := None) else ls_handles (released t F)) =
      ls_handles (released t (insert i F))"
    using tables_handle[OF ok x] by (auto simp: fun_eq_iff released_def)
  show ?thesis unfolding n k using o l list by (intro lstate.equality) (simp_all add: released_def)
qed

lemma release_one_run:
  assumes ok: "tables_ok t" and x: "ls_objs t i = Some x" "si_children x = []" "si_parents x = []" "si_primary_namespace x \<noteq> None"
    and F: "i \<notin> F" "F \<subseteq> dom (ls_objs t)"
  shows "release_one i (emit E (released t F)) = Inr (emit (E @ release_events t i) (released t (insert i F)))"
proof -
  let ?u = "emit (E @ [NotifyGdbUnload i, UnregisterTls i, CfiBeforeUnload i]) (released t F)"
  obtain n where n: "si_primary_namespace x = Some n" using x(4) by auto
  obtain h rest where list: "ls_solist t = h # rest" "h \<notin> dom (ls_objs t)" "set rest = dom (ls_objs t)"
    using ok by (cases "ls_solist t") (auto simp: tables_ok_def)
  have "ls_objs ?u i = Some x" using x F by (simp add: released_def)
  moreover have "ls_solist ?u = h # filter (\<lambda>j. j \<notin> F) rest" using list F by (auto simp: released_def)
  moreover have "i \<noteq> h" "i \<in> set (filter (\<lambda>j. j \<notin> F) rest)" using list x F by auto
  ultimately have "soinfo_free i ?u = Inr (emit (unmap_events x @ [FreeSoinfo i]) (?u\<lparr>ls_objs := (ls_objs ?u)(i := None),
      ls_solist := h # remove1 i (filter (\<lambda>j. j \<notin> F) rest),
      ls_ns := \<lambda>m. if in_namespace m x then remove_soinfo i (ls_ns ?u m) else ls_ns ?u m,
      ls_handles := if si_handle x \<noteq> 0 then (ls_handles ?u)(si_handle x := None) else ls_handles ?u\<rparr>))"
    using soinfo_free_run x n by blast
  also have "\<dots> = Inr (emit (E @ release_events t i) (released t (insert i F)))"
    unfolding released_step[OF ok x(1) F list(1), symmetric] using x(1)
    by (intro arg_cong[where f = Inr] lstate.equality) (simp_all add: emit_def release_events_def fun_eq_iff)
  finally show ?thesis using x F
    by (simp add: release_one_def deref_Some released_def emit_emit)
qed

lemma each_release:
  assumes ok: "tables_ok t"
  shows "distinct L \<Longrightarrow> set L \<inter> F = {} \<Longrightarrow> F \<union> set L \<subseteq> dom (ls_objs t) \<Longrightarrow>
    (\<And>i. i \<in> set L \<Longrightarrow> \<exists>x. ls_objs t i = Some x \<and> si_children x = [] \<and> si_parents x = [] \<and> si_primary_namespace x \<noteq> None) \<Longrightarrow>
    each release_one L (emit E (released t F)) =
      Inr (emit (E @ concat (map (release_events t) L)) (released t (F \<union> set L)))"
proof (induction L arbitrary: E F)
  case (Cons i L)
  then obtain x where "ls_objs t i = Some x" "si_children x = []" "si_parents x = []" "si_primary_namespace x \<noteq> None" by force
  moreover have "i \<notin> F" "F \<subseteq> dom (ls_objs t)" using Cons.prems(2,3) by auto
  ultimately have "release_one i (emit E (released t F)) = Inr (emit (E @ release_events t i) (released t (insert i F)))"
    by (rule release_one_run[OF ok])
  moreover have "each release_one L (emit (E @ release_events t i) (released t (insert i F))) =
      Inr (emit ((E @ release_events t i) @ concat (map (release_events t) L)) (released t (insert i F \<union> set L)))"
    using Cons.prems by (intro Cons.IH) auto
  ultimately show ?case by simp
qed simp

lemma released_none: "released t {} = t"
  by (intro lstate.equality) (simp_all add: released_def restrict_map_def)

lemma detached_none: "detached s {} = s"
proof -
  have "map_option (\<lambda>x. x\<lparr>si_children := kids s i, si_parents := pars s i\<rparr>) (ls_objs s i) = ls_objs s i" for i
    by (cases "ls_objs s i") (simp_all add: kids_def pars_def)
  then show ?thesis by (simp add: detached_def relink_def)
qed

lemma detached_obj:
  "ls_objs s i = Some x \<Longrightarrow> ls_objs (detached s L) i =
     Some (x\<lparr>si_children := (if i \<in> L then [] else kids s i), si_parents := filter (\<lambda>q. q \<notin> L) (pars s i)\<rparr>)"
  by (simp add: detached_def relink_obj)

lemma detached_dom: "dom (ls_objs (detached s L)) = dom (ls_objs s)"
  by (auto simp: detached_def relink_def)

lemma detached_tables: "tables_ok s \<Longrightarrow> tables_ok (detached s L)"
proof -
  assume ok: "tables_ok s"
  have same: "ls_solist (detached s L) = ls_solist s" "ls_ns (detached s L) = ls_ns s" "ls_handles (detached s L) = ls_handles s"
    by (simp_all add: detached_def relink_def)
  have fwd: "\<exists>y. ls_objs (detached s L) i = Some y \<and> (\<forall>n. in_namespace n y = in_namespace n x) \<and> si_handle y = si_handle x"
    if "ls_objs s i = Some x" for i x unfolding detached_obj[OF that] by (simp add: in_namespace_def)
  have bwd: "\<exists>x. ls_objs s i = Some x \<and> si_handle y = si_handle x" if "ls_objs (detached s L) i = Some y" for i y
  proof -
    have "i \<in> dom (ls_objs (detached s L))" using that by (rule domI)
    then obtain x where x: "ls_objs s i = Some x" unfolding detached_dom by auto
    with that show ?thesis by (auto simp: detached_obj[OF x])
  qed
  show ?thesis unfolding tables_ok_def same detached_dom
  proof (intro conjI allI impI)
    fix n i assume "i \<in> set (ns_soinfo_list (ls_ns s n))"
    then obtain x where "ls_objs s i = Some x" "in_namespace n x" using ok unfolding tables_ok_def by blast
    with fwd show "\<exists>x. ls_objs (detached s L) i = Some x \<and> in_namespace n x" by blast
  next
    fix h i assume "ls_handles s h = Some i"
    then obtain x where "ls_objs s i = Some x" "si_handle x = h" using ok unfolding tables_ok_def by blast
    with fwd show "\<exists>x. ls_objs (detached s L) i = Some x \<and> si_handle x = h" by blast
  next
    fix i y assume "ls_objs (detached s L) i = Some y" "si_handle y \<noteq> 0"
    with bwd[of i y] obtain x where x: "ls_objs s i = Some x" "si_handle y = si_handle x" "si_handle x \<noteq> 0" by auto
    then have "ls_handles s (si_handle x) = Some i" using tables_handle[OF ok x(1)] by simp
    with x(2) show "ls_handles s (si_handle y) = Some i" by simp
  qed (use ok in \<open>unfold tables_ok_def, blast\<close>)+
qed

definition unloaded :: "lstate \<Rightarrow> so_id set \<Rightarrow> lstate" where
  "unloaded s G = released (detached s G) G"

lemma detached_events: "dtor_events (detached s L) = dtor_events s" "release_events (detached s L) = release_events s"
proof -
  have none: "ls_objs (detached s L) i = None" if "ls_objs s i = None" for i using that by (simp add: detached_def relink_def)
  have "dtor_events (detached s L) i = dtor_events s i" for i
    by (cases "ls_objs s i") (simp_all add: dtor_events_def detached_obj dtor_calls_def none)
  then show "dtor_events (detached s L) = dtor_events s" by (rule ext)
  have "release_events (detached s L) i = release_events s i" for i
    by (cases "ls_objs s i") (simp_all add: release_events_def detached_obj unmap_events_def is_mapped_by_caller_def none)
  then show "release_events (detached s L) = release_events s" by (rule ext)
qed

lemma soinfo_unload_impl_run:
  assumes ok: "links_ok s" "tables_ok s" "acyclic (needs s)" "closed_group s r" "group_root s r = Some r"
    and x: "ls_objs s r = Some x" "can_unload x"
  shows "\<exists>L. distinct L \<and> set L = load_group s r \<and> parents_first s L \<and>
    soinfo_unload_impl r s = Some (Inr (emit (concat (map (dtor_events s) L) @ concat (map (release_events s) L)) (unloaded s (load_group s r)),
      concat (map (outside_kids s r) L)))"
proof -
  let ?G = "load_group s r"
  obtain L ext where run: "unload_collect r s [r] [] [] = Some (Inr (detached s (set L), L, ext))" and inv: "collect_inv s r [] L ext"
    using unload_collect_run[OF ok(1) collect_inv_start[OF ok(1,3-5)]] by (auto simp: detached_none)
  have ext: "ext = concat (map (outside_kids s r) L)" using inv by (simp add: collect_inv_def)
  have L: "set L = ?G" by (rule collect_inv_end[OF ok(1,3,4) inv])
  let ?t = "detached s ?G"
  have dom: "?G \<subseteq> dom (ls_objs s)" by (auto simp: load_group_def)
  note same = detached_events[of s ?G]
  have d: "each call_destructors L ?t = Inr (emit (concat (map (dtor_events s) L)) ?t)"
    using each_destructors[of L ?t] dom unfolding same detached_dom L by blast
  have free: "\<exists>y. ls_objs ?t i = Some y \<and> si_children y = [] \<and> si_parents y = [] \<and> si_primary_namespace y \<noteq> None" if i: "i \<in> set L" for i
  proof -
    obtain y where y: "ls_objs s i = Some y" using i L dom by blast
    have "p \<in> ?G" if "p \<in> set (pars s i)" for p
    proof -
      have e: "i \<in> set (kids s p)" using that pars_kids[OF ok(1)] by simp
      then have "group_root s p = Some r" using i L ok(4) unfolding closed_group_def load_group_def by blast
      then show ?thesis using kids_dom[OF ok(1) e] by (simp add: load_group_def)
    qed
    then have "filter (\<lambda>q. q \<notin> ?G) (pars s i) = []" by (simp add: filter_empty_conv)
    then show ?thesis using y i L links_obj(2)[OF ok(1) y] by (simp add: detached_obj[OF y])
  qed
  have "each release_one L (emit (concat (map (dtor_events s) L)) (released ?t {})) =
      Inr (emit (concat (map (dtor_events s) L) @ concat (map (release_events ?t) L)) (released ?t ({} \<union> set L)))"
  proof (rule each_release[OF detached_tables[OF ok(2)]])
    show "distinct L" using inv by (simp add: collect_inv_def)
    show "{} \<union> set L \<subseteq> dom (ls_objs ?t)" using L dom by (simp add: detached_dom)
  qed (use free in blast)+
  then have "each release_one L (emit (concat (map (dtor_events s) L)) ?t) =
      Inr (emit (concat (map (dtor_events s) L) @ concat (map (release_events s) L)) (unloaded s ?G))"
    by (simp add: released_none unloaded_def L same)
  then have "soinfo_unload_impl r s = Some (Inr (emit (concat (map (dtor_events s) L) @ concat (map (release_events s) L)) (unloaded s ?G),
      concat (map (outside_kids s r) L)))"
    using x(2) d links_obj(1)[OF ok(1) x(1)] ext unfolding soinfo_unload_impl_def deref_Some[OF x(1)] run L by simp
  then show ?thesis using inv L unfolding collect_inv_def by blast
qed

section \<open>The invariant is kept\<close>

lemma unloaded_obj:
  "ls_objs (unloaded s G) i = (if i \<in> G then None
     else map_option (\<lambda>x. x\<lparr>si_children := kids s i, si_parents := filter (\<lambda>q. q \<notin> G) (pars s i)\<rparr>) (ls_objs s i))"
  by (simp add: unloaded_def released_def detached_def relink_def restrict_map_def)

lemma unloaded_dom: "dom (ls_objs (unloaded s G)) = dom (ls_objs s) - G"
  by (auto simp: unloaded_obj split: if_splits)

lemma unloaded_kids: "kids (unloaded s G) i = (if i \<in> G then [] else kids s i)"
  by (cases "ls_objs s i") (simp_all add: kids_def unloaded_obj)

lemma unloaded_pars: "pars (unloaded s G) i = (if i \<in> G then [] else filter (\<lambda>q. q \<notin> G) (pars s i))"
  by (cases "ls_objs s i") (simp_all add: pars_def unloaded_obj)

lemma unloaded_root: "group_root (unloaded s G) i = (if i \<in> G then None else group_root s i)"
  by (cases "ls_objs s i") (simp_all add: group_root_def unloaded_obj)

text \<open>From outside a closed group no path leads into it.\<close>

lemma reach_outside:
  assumes "closed_group s r" "links_ok s"
  shows "(i, j) \<in> (needs s)\<^sup>* \<Longrightarrow> i \<notin> load_group s r \<Longrightarrow>
    (i, j) \<in> (needs (unloaded s (load_group s r)))\<^sup>* \<and> j \<notin> load_group s r"
proof (induction rule: rtrancl_induct)
  case (step j k)
  then have "k \<in> set (kids s j)" by (simp add: needs_iff)
  moreover have "k \<notin> load_group s r"
    using step calculation assms(1) kids_dom[OF assms(2)] unfolding closed_group_def load_group_def by blast
  ultimately have "(j, k) \<in> needs (unloaded s (load_group s r))" "k \<notin> load_group s r"
    using step by (simp_all add: needs_iff unloaded_kids)
  then show ?case using step by (meson rtrancl.rtrancl_into_rtrancl)
qed simp

lemma unloaded_links:
  assumes ok: "links_ok s" and closed: "closed_group s r"
  shows "links_ok (unloaded s (load_group s r))"
  unfolding links_ok_def
proof (intro conjI allI impI)
  let ?G = "load_group s r" and ?u = "unloaded s (load_group s r)"
  show "finite (dom (ls_objs ?u))" using ok by (simp add: unloaded_dom links_ok_def)
  fix i y assume y: "ls_objs ?u i = Some y"
  then obtain x where x: "ls_objs s i = Some x" and i: "i \<notin> ?G"
    and yx: "y = x\<lparr>si_children := kids s i, si_parents := filter (\<lambda>q. q \<notin> ?G) (pars s i)\<rparr>"
    by (auto simp: unloaded_obj split: if_splits)
  have out: "c \<notin> ?G" if "c \<in> set (kids s i)" for c
    using that i closed kids_dom[OF ok that] unfolding closed_group_def load_group_def by blast
  show "is_linked y" "si_primary_namespace y \<noteq> None" using links_obj[OF ok x] by (simp_all add: yx is_linked_def)
  show "set (si_children y) \<subseteq> dom (ls_objs ?u)" unfolding unloaded_dom yx using out kids_dom[OF ok] by auto
  have "q \<in> dom (ls_objs s)" if "q \<in> set (pars s i)" for q
    using that pars_kids[OF ok, of q i] kids_dom[OF ok] by blast
  then show "set (si_parents y) \<subseteq> dom (ls_objs ?u)" unfolding unloaded_dom yx by auto
  show "\<forall>c\<in>set (si_children y). i \<in> set (pars ?u c)" using out i pars_kids[OF ok] by (simp add: yx unloaded_pars)
  show "\<forall>p\<in>set (si_parents y). i \<in> set (kids ?u p)" using pars_kids[OF ok] by (simp add: yx unloaded_kids)
  obtain r' where r': "group_root s i = Some r'" using links_group[OF ok] x by (metis domI)
  note root = group_rootD[OF ok r']
  have ne: "r' \<noteq> r" using r' i x by (auto simp: load_group_def)
  then have "r' \<notin> ?G" using root(2) by (simp add: load_group_def)
  moreover have "si_local_group_root y = Some r'" using r' x by (simp add: yx group_root_def)
  ultimately show "\<exists>r. si_local_group_root y = Some r \<and> group_root ?u r = Some r \<and> (r, i) \<in> (needs ?u)\<^sup>*"
    using root(2) reach_outside[OF closed ok root(3)] by (simp add: unloaded_root)
qed

lemma unloaded_tables:
  assumes "tables_ok s" "G \<subseteq> dom (ls_objs s)"
  shows "tables_ok (unloaded s G)"
proof -
  let ?t = "detached s G"
  have ok: "tables_ok ?t" by (rule detached_tables[OF assms(1)])
  have G: "G \<subseteq> dom (ls_objs ?t)" using assms(2) by (simp add: detached_dom)
  obtain h rest where list: "ls_solist ?t = h # rest" "h \<notin> dom (ls_objs ?t)" "distinct rest" "h \<notin> set rest" "set rest = dom (ls_objs ?t)"
    using ok by (cases "ls_solist ?t") (auto simp: tables_ok_def)
  have sel: "ls_solist (unloaded s G) = h # filter (\<lambda>i. i \<notin> G) rest"
    "ls_objs (unloaded s G) = ls_objs ?t |` (- G)"
    using list(1,2) G by (auto simp: unloaded_def released_def)
  show ?thesis unfolding tables_ok_def
  proof (intro conjI allI impI)
    show "set (tl (ls_solist (unloaded s G))) = dom (ls_objs (unloaded s G))" using list(5) by (auto simp: sel)
    show "hd (ls_solist (unloaded s G)) \<notin> dom (ls_objs (unloaded s G))" "distinct (ls_solist (unloaded s G))"
      "ls_solist (unloaded s G) \<noteq> []" using list by (auto simp: sel)
    show "ls_handles (unloaded s G) 0 = None" using ok by (simp add: unloaded_def released_def tables_ok_def)
    fix n i assume "i \<in> set (ns_soinfo_list (ls_ns (unloaded s G) n))"
    then have "i \<in> set (ns_soinfo_list (ls_ns ?t n))" "i \<notin> G" by (auto simp: unloaded_def released_def)
    moreover from this(1) obtain x where "ls_objs ?t i = Some x" "in_namespace n x" using ok unfolding tables_ok_def by blast
    ultimately show "\<exists>x. ls_objs (unloaded s G) i = Some x \<and> in_namespace n x" by (simp add: sel)
  next
    fix k i assume "ls_handles (unloaded s G) k = Some i"
    then have k: "ls_handles ?t k = Some i" "i \<notin> G" by (auto simp: unloaded_def released_def split: if_splits)
    then obtain x where "ls_objs ?t i = Some x" "si_handle x = k" using ok unfolding tables_ok_def by blast
    with k show "\<exists>x. ls_objs (unloaded s G) i = Some x \<and> si_handle x = k" by (simp add: sel)
  next
    fix i x assume "ls_objs (unloaded s G) i = Some x" "si_handle x \<noteq> 0"
    then have x: "ls_objs ?t i = Some x" "i \<notin> G" "si_handle x \<noteq> 0" by (auto simp: sel restrict_map_def split: if_splits)
    then have "ls_handles ?t (si_handle x) = Some i" using tables_handle[OF ok x(1)] by simp
    with x(2) show "ls_handles (unloaded s G) (si_handle x) = Some i" by (auto simp: unloaded_def released_def)
  qed
qed

lemma refs_into_append: "refs_into s r (xs @ ys) = refs_into s r xs + refs_into s r ys"
  by (simp add: refs_into_def)

lemma refs_into_concat: "refs_into s r (concat (map f L)) = (\<Sum>p\<leftarrow>L. refs_into s r (f p))"
  by (induction L) (simp_all add: refs_into_append, simp add: refs_into_def)

lemma refs_into_zero: "refs_into s r xs = 0 \<longleftrightarrow> (\<forall>c \<in> set xs. group_root s c \<noteq> Some r)"
  by (simp add: refs_into_def filter_empty_conv)

lemma refs_into_outside: "r' \<noteq> r \<Longrightarrow> refs_into s r' (outside_kids s r p) = refs_into s r' (kids s p)"
  unfolding refs_into_def outside_kids_def filter_filter by (intro arg_cong[where f = length] filter_cong) auto

lemma refs_into_unloaded:
  assumes "links_ok s" "r' \<noteq> r"
  shows "refs_into (unloaded s (load_group s r)) r' xs = refs_into s r' xs"
proof -
  have "group_root (unloaded s (load_group s r)) c = Some r' \<longleftrightarrow> group_root s c = Some r'" for c
    using assms(2) by (simp add: unloaded_root load_group_def)
  then show ?thesis by (simp add: refs_into_def)
qed

text \<open>What the group referred to is now pending.\<close>

lemma outside_refs_unloaded:
  assumes ok: "links_ok s" and ne: "r' \<noteq> r" and L: "distinct L" "set L = load_group s r"
  shows "outside_refs s r' = refs_into s r' (concat (map (outside_kids s r) L)) + outside_refs (unloaded s (load_group s r)) r'"
proof -
  let ?G = "load_group s r" and ?u = "unloaded s (load_group s r)"
  have fin: "finite (dom (ls_objs s))" using ok by (simp add: links_ok_def)
  have group: "load_group ?u r' = load_group s r'" using ne by (auto simp: load_group_def unloaded_root unloaded_dom)
  have disj: "?G \<inter> load_group s r' = {}" using ne by (auto simp: load_group_def)
  have split: "dom (ls_objs s) - load_group s r' = ?G \<union> (dom (ls_objs ?u) - load_group ?u r')"
    unfolding group unloaded_dom using disj by (auto simp: load_group_def)
  have "outside_refs s r' = (\<Sum>p\<in>?G. refs_into s r' (kids s p)) + (\<Sum>p\<in>dom (ls_objs ?u) - load_group ?u r'. refs_into s r' (kids s p))"
    unfolding outside_refs_def split using fin finite_group[OF ok]
    by (intro sum.union_disjoint) (auto simp: unloaded_dom)
  also have "(\<Sum>p\<in>?G. refs_into s r' (kids s p)) = refs_into s r' (concat (map (outside_kids s r) L))"
    unfolding refs_into_concat refs_into_outside[OF ne] L(2)[symmetric] sum_list_distinct_conv_sum_set[OF L(1)] ..
  also have "(\<Sum>p\<in>dom (ls_objs ?u) - load_group ?u r'. refs_into s r' (kids s p)) = outside_refs ?u r'"
    unfolding outside_refs_def refs_into_unloaded[OF ok ne] by (intro sum.cong) (auto simp: unloaded_kids unloaded_dom)
  finally show ?thesis .
qed

lemma closed_group_count:
  assumes ok: "links_ok s" and "outside_refs s r = 0"
  shows "closed_group s r"
  unfolding closed_group_def
proof (intro allI impI)
  fix p c assume e: "c \<in> set (kids s p)" "group_root s c = Some r"
  have "finite (dom (ls_objs s) - load_group s r)" using ok by (simp add: links_ok_def)
  then have zero: "\<forall>q \<in> dom (ls_objs s) - load_group s r. refs_into s r (kids s q) = 0"
    using assms(2) by (simp add: outside_refs_def)
  show "group_root s p = Some r"
  proof (rule ccontr)
    assume "group_root s p \<noteq> Some r"
    then have "p \<in> dom (ls_objs s) - load_group s r" using kids_dom[OF ok e(1)] by (simp add: load_group_def)
    with zero e show False unfolding refs_into_zero by blast
  qed
qed

lemma unloaded_counts:
  assumes ok: "links_ok s" and counts: "counts_ok s opens pending" and r: "ls_objs s r = Some x" "si_local_group_root x = Some r" "si_ref_count x = 0"
    and L: "distinct L" "set L = load_group s r"
  shows "counts_ok (unloaded s (load_group s r)) opens (concat (map (outside_kids s r) L) @ pending)"
proof -
  let ?G = "load_group s r" and ?u = "unloaded s (load_group s r)"
  let ?ext = "concat (map (outside_kids s r) L)"
  have "refs_into s r pending = 0" using counts r unfolding counts_ok_def by force
  then have "set pending \<subseteq> dom (ls_objs ?u)"
    using counts unfolding refs_into_zero unloaded_dom counts_ok_def load_group_def by blast
  moreover have "set ?ext \<subseteq> dom (ls_objs ?u)"
    using kids_dom[OF ok] by (auto simp: outside_kids_def unloaded_dom load_group_def)
  moreover have "unat (si_ref_count y) = opens r' + refs_into ?u r' (?ext @ pending) + outside_refs ?u r'"
    if y: "ls_objs ?u r' = Some y" "si_local_group_root y = Some r'" for r' y
  proof -
    obtain z where z: "ls_objs s r' = Some z" "si_ref_count y = si_ref_count z" "si_local_group_root z = Some r'" "r' \<notin> ?G"
      using y by (auto simp: unloaded_obj split: if_splits)
    then have ne: "r' \<noteq> r" by (auto simp: load_group_def group_root_def)
    have "unat (si_ref_count z) = opens r' + refs_into s r' pending + outside_refs s r'"
      using counts z by (simp add: counts_ok_def)
    then show ?thesis using z(2) outside_refs_unloaded[OF ok ne L]
      by (simp add: refs_into_unloaded[OF ok ne] refs_into_append)
  qed
  ultimately show ?thesis by (simp add: counts_ok_def)
qed

lemma unloaded_no_idle:
  assumes "\<And>r' x. r' \<noteq> r \<Longrightarrow> ls_objs s r' = Some x \<Longrightarrow> si_local_group_root x = Some r' \<Longrightarrow> can_unload x \<Longrightarrow> si_ref_count x \<noteq> 0"
    and "r \<in> G"
  shows "no_idle_group (unloaded s G)"
  unfolding no_idle_group_def
proof (intro allI impI)
  fix r' y assume y: "ls_objs (unloaded s G) r' = Some y" "si_local_group_root y = Some r'" "can_unload y"
  then obtain x where "ls_objs s r' = Some x" "r' \<notin> G" "si_local_group_root x = Some r'" "can_unload x" "si_ref_count y = si_ref_count x"
    by (auto simp: unloaded_obj can_unload_def is_linked_def split: if_splits)
  with assms show "si_ref_count y \<noteq> 0" by metis
qed

text \<open>A change of a reference count leaves the graph and the tables alone.\<close>

lemma recount:
  fixes n :: u64
  assumes "ls_objs s r = Some y"
  defines "s1 \<equiv> s\<lparr>ls_objs := (ls_objs s)(r \<mapsto> y\<lparr>si_ref_count := n\<rparr>)\<rparr>"
  shows "kids s1 = kids s" "pars s1 = pars s" "group_root s1 = group_root s" "dom (ls_objs s1) = dom (ls_objs s)" "needs s1 = needs s"
    and "links_ok s \<Longrightarrow> links_ok s1" and "tables_ok s \<Longrightarrow> tables_ok s1"
proof -
  show k: "kids s1 = kids s" and p: "pars s1 = pars s" and g: "group_root s1 = group_root s"
    using assms by (auto simp: s1_def kids_def pars_def group_root_def fun_eq_iff)
  show d: "dom (ls_objs s1) = dom (ls_objs s)" using assms by (auto simp: s1_def)
  show e: "needs s1 = needs s" by (simp add: needs_def k)
  have obj: "\<exists>x. ls_objs s i = Some x \<and> (z = x \<or> z = x\<lparr>si_ref_count := n\<rparr>)" if "ls_objs s1 i = Some z" for i z
    using that assms(1) by (auto simp: s1_def split: if_splits)
  have fwd: "\<exists>z. ls_objs s1 i = Some z \<and> (z = x \<or> z = x\<lparr>si_ref_count := n\<rparr>)" if "ls_objs s i = Some x" for i x
    using that assms(1) by (cases "i = r") (simp_all add: s1_def)
  show "links_ok s1" if ok: "links_ok s"
    unfolding links_ok_def k p g d e
  proof (intro conjI allI impI)
    fix i z assume "ls_objs s1 i = Some z"
    then obtain x where x: "ls_objs s i = Some x" "z = x \<or> z = x\<lparr>si_ref_count := n\<rparr>" using obj by blast
    then have same: "si_children z = si_children x" "si_parents z = si_parents x" "si_local_group_root z = si_local_group_root x"
      "is_linked z = is_linked x" "si_primary_namespace z = si_primary_namespace x" by (auto simp: is_linked_def)
    show "is_linked z" "si_primary_namespace z \<noteq> None" "set (si_children z) \<subseteq> dom (ls_objs s)" "set (si_parents z) \<subseteq> dom (ls_objs s)"
      "\<forall>c\<in>set (si_children z). i \<in> set (pars s c)" "\<forall>p\<in>set (si_parents z). i \<in> set (kids s p)"
      "\<exists>r. si_local_group_root z = Some r \<and> group_root s r = Some r \<and> (r, i) \<in> (needs s)\<^sup>*"
      unfolding same using ok x(1) unfolding links_ok_def by blast+
  qed (use ok in \<open>simp add: links_ok_def\<close>)
  show "tables_ok s1" if ok: "tables_ok s"
    unfolding tables_ok_def d
  proof (intro conjI allI impI)
    fix m i assume "i \<in> set (ns_soinfo_list (ls_ns s1 m))"
    then have "i \<in> set (ns_soinfo_list (ls_ns s m))" by (simp add: s1_def)
    then obtain x where "ls_objs s i = Some x" "in_namespace m x" using ok unfolding tables_ok_def by blast
    with fwd[of i x] show "\<exists>x. ls_objs s1 i = Some x \<and> in_namespace m x" by (auto simp: in_namespace_def)
  next
    fix h i assume "ls_handles s1 h = Some i"
    then have "ls_handles s h = Some i" by (simp add: s1_def)
    then obtain x where "ls_objs s i = Some x" "si_handle x = h" using ok unfolding tables_ok_def by blast
    with fwd[of i x] show "\<exists>x. ls_objs s1 i = Some x \<and> si_handle x = h" by auto
  next
    fix i z assume z: "ls_objs s1 i = Some z" "si_handle z \<noteq> 0"
    then obtain x where x: "ls_objs s i = Some x" "si_handle z = si_handle x" using obj by fastforce
    with z show "ls_handles s1 (si_handle z) = Some i" using tables_handle[OF ok x(1)] by (simp add: s1_def)
  qed (use ok in \<open>simp_all add: tables_ok_def s1_def\<close>)
qed

lemma emit_graph [simp]:
  "kids (emit es s) = kids s" "pars (emit es s) = pars s" "group_root (emit es s) = group_root s" "needs (emit es s) = needs s"
  by (simp_all add: kids_def pars_def group_root_def needs_def fun_eq_iff)

lemma emit_linker_ok [simp]: "linker_ok (emit es s) opens pending = linker_ok s opens pending"
  by (simp add: linker_ok_def links_ok_def tables_ok_def counts_ok_def no_idle_group_def refs_into_def outside_refs_def load_group_def)

text \<open>What one call of \<open>soinfo_unload\<close> does before it handles the external references.\<close>

definition unload_effect :: "lstate \<Rightarrow> (so_id \<Rightarrow> nat) \<Rightarrow> lstate \<Rightarrow> bool" where
  "unload_effect s opens s' \<longleftrightarrow> dom (ls_objs s') \<subseteq> dom (ls_objs s) \<and>
     (\<forall>i \<in> dom (ls_objs s'). group_root s' i = group_root s i) \<and>
     (\<forall>i \<in> dom (ls_objs s) - dom (ls_objs s'). opens (the (group_root s i)) = 0)"

lemma unload_effect_trans: "unload_effect s opens s1 \<Longrightarrow> unload_effect s1 opens s2 \<Longrightarrow> unload_effect s opens s2"
  unfolding unload_effect_def by (metis (no_types, lifting) Diff_iff subset_iff)

lemma counts_at:
  "counts_ok s opens pending \<Longrightarrow> ls_objs s r = Some x \<Longrightarrow> si_local_group_root x = Some r \<Longrightarrow>
   unat (si_ref_count x) = opens r + refs_into s r pending + outside_refs s r"
  by (simp add: counts_ok_def)

lemma counts_decrement:
  assumes ok: "links_ok s" and counts: "counts_ok s opens (si # pending)" and si: "group_root s si = Some r"
    and y: "ls_objs s r = Some y" "si_local_group_root y = Some r"
  defines "s1 \<equiv> s\<lparr>ls_objs := (ls_objs s)(r \<mapsto> y\<lparr>si_ref_count := si_ref_count y - 1\<rparr>)\<rparr>"
  shows "counts_ok s1 opens pending"
proof -
  note same = recount[OF y(1), of "si_ref_count y - 1", folded s1_def]
  have refs: "refs_into s1 = refs_into s" "outside_refs s1 = outside_refs s"
    by (simp_all add: refs_into_def outside_refs_def load_group_def same(1,3,4) fun_eq_iff)
  have "unat (si_ref_count y) = opens r + refs_into s r (si # pending) + outside_refs s r"
    using counts y by (simp add: counts_ok_def)
  moreover have head: "refs_into s r' (si # pending) = (if r' = r then 1 else 0) + refs_into s r' pending" for r'
    using si by (simp add: refs_into_def)
  ultimately have pos: "unat (si_ref_count y) = Suc (opens r + refs_into s r pending + outside_refs s r)" by simp
  then have "si_ref_count y \<noteq> 0" by (intro notI) simp
  then have "unat (si_ref_count y - 1) = unat (si_ref_count y) - 1" by (simp add: unat_minus_one)
  with pos have dec: "unat (si_ref_count y - 1) = opens r + refs_into s r pending + outside_refs s r" by simp
  have "unat (si_ref_count z) = opens r' + refs_into s r' pending + outside_refs s r'"
    if "ls_objs s1 r' = Some z" "si_local_group_root z = Some r'" for r' z
  proof (cases "r' = r")
    case True
    with that dec show ?thesis by (auto simp: s1_def)
  next
    case False
    with that have "ls_objs s r' = Some z" by (simp add: s1_def)
    with that counts False head[of r'] show ?thesis by (simp add: counts_ok_def)
  qed
  then show ?thesis using counts unfolding counts_ok_def refs same by simp
qed

lemma unload_one_step:
  assumes ok: "linker_ok s opens (si # pending)" and ac: "acyclic (needs s)"
  shows "\<exists>s' ext. unload_one si s = Some (Inr (s', ext)) \<and> linker_ok s' opens (ext @ pending) \<and> acyclic (needs s') \<and>
    unload_effect s opens s' \<and> (ext = [] \<or> card (dom (ls_objs s')) < card (dom (ls_objs s)))"
proof -
  have links: "links_ok s" and tables: "tables_ok s" and counts: "counts_ok s opens (si # pending)" and idle: "no_idle_group s"
    using ok by (simp_all add: linker_ok_def)
  obtain x where x: "ls_objs s si = Some x" using counts by (auto simp: counts_ok_def)
  obtain r where r: "group_root s si = Some r" using links_group[OF links] x by (metis domI)
  then have xr: "si_local_group_root x = Some r" using x by (simp add: group_root_def)
  note root = group_rootD[OF links r]
  obtain y where y: "ls_objs s r = Some y" "si_local_group_root y = Some r"
    using root(2) by (cases "ls_objs s r") (simp_all add: group_root_def)
  define s1 where "s1 = s\<lparr>ls_objs := (ls_objs s)(r \<mapsto> y\<lparr>si_ref_count := si_ref_count y - 1\<rparr>)\<rparr>"
  note same = recount[OF y(1), of "si_ref_count y - 1", folded s1_def]
  have counts1: "counts_ok s1 opens pending" unfolding s1_def by (rule counts_decrement[OF links counts r y])
  let ?y1 = "y\<lparr>si_ref_count := si_ref_count y - 1\<rparr>"
  have y1: "ls_objs s1 r = Some ?y1" by (simp add: s1_def)
  have idle1: "si_ref_count z \<noteq> 0" if "r' \<noteq> r" "ls_objs s1 r' = Some z" "si_local_group_root z = Some r'" "can_unload z" for r' z
    using that idle by (simp add: s1_def no_idle_group_def)
  have start: "unload_one si s = (if 0 < si_ref_count y - 1 then Some (Inr (s1, [])) else soinfo_unload_impl r s1)"
    using links_obj(1)[OF links x] x xr y by (simp add: unload_one_def deref_Some decrement_ref_count_def deref_opt_def Let_def s1_def)
  have keep: ?thesis if "unload_one si s = Some (Inr (s1, []))" "0 < si_ref_count y - 1 \<or> \<not> can_unload ?y1"
  proof -
    have "no_idle_group s1" unfolding no_idle_group_def
      using idle1 that(2) y1 by (metis option.inject soinfo.select_convs(12) soinfo.surjective soinfo.update_convs(12) word_gt_0)
    then have "linker_ok s1 opens pending" using same(6)[OF links] same(7)[OF tables] counts1 by (simp add: linker_ok_def)
    then show ?thesis using that(1) ac same by (auto simp: unload_effect_def)
  qed
  show ?thesis
  proof (cases "0 < si_ref_count y - 1 \<or> \<not> can_unload ?y1")
    case True
    then show ?thesis using start y1 by (intro keep) (auto simp: soinfo_unload_impl_def deref_Some)
  next
    case False
    then have zero: "si_ref_count ?y1 = 0" by (simp add: word_gt_0)
    have "unat (si_ref_count ?y1) = opens r + refs_into s1 r pending + outside_refs s1 r"
      by (rule counts_at[OF counts1 y1]) (simp add: y(2))
    then have none: "opens r = 0" "outside_refs s1 r = 0" using zero by simp_all
    note links1 = same(6)[OF links] and tables1 = same(7)[OF tables]
    have closed: "closed_group s1 r" by (rule closed_group_count[OF links1 none(2)])
    have root1: "group_root s1 r = Some r" using root(2) by (simp add: same)
    let ?G = "load_group s1 r"
    obtain L es where L: "distinct L" "set L = ?G" and run: "soinfo_unload_impl r s1 = Some (Inr (emit es (unloaded s1 ?G), concat (map (outside_kids s1 r) L)))"
      using soinfo_unload_impl_run[OF links1 tables1 _ closed root1 y1] ac False by (auto simp: same)
    have rG: "r \<in> ?G" using root1 y1 by (simp add: load_group_def domI)
    have dom: "?G \<subseteq> dom (ls_objs s1)" by (auto simp: load_group_def)
    have "linker_ok (unloaded s1 ?G) opens (concat (map (outside_kids s1 r) L) @ pending)"
      unfolding linker_ok_def using unloaded_links[OF links1 closed] unloaded_tables[OF tables1 dom]
        unloaded_counts[OF links1 counts1 y1 _ zero L] unloaded_no_idle[OF idle1 rG] y(2) by simp
    moreover have "needs (unloaded s1 ?G) \<subseteq> needs s" by (auto simp: needs_def unloaded_kids same split: if_splits)
    then have "acyclic (needs (unloaded s1 ?G))" using ac by (rule acyclic_subset[rotated])
    moreover have "unload_effect s opens (unloaded s1 ?G)"
      using none(1) by (auto simp: unload_effect_def unloaded_dom unloaded_root same load_group_def)
    moreover have "card (dom (ls_objs (unloaded s1 ?G))) < card (dom (ls_objs s))"
      using links rG dom by (intro psubset_card_mono) (auto simp: unloaded_dom same links_ok_def)
    ultimately show ?thesis using start False run by (auto simp: unload_effect_def)
  qed
qed

lemma soinfo_unload_all_run:
  "linker_ok s opens pending \<Longrightarrow> acyclic (needs s) \<Longrightarrow>
   \<exists>s'. soinfo_unload_all pending s = Some (Inr s') \<and> linker_ok s' opens [] \<and> acyclic (needs s') \<and> unload_effect s opens s'"
proof (induction "card (dom (ls_objs s))" arbitrary: s pending rule: less_induct)
  case less
  note outer = less.hyps
  show ?case using less.prems outer
  proof (induction pending arbitrary: s)
    case Nil
    then show ?case by (subst soinfo_unload_all.simps) (auto simp: unload_effect_def)
  next
    case (Cons si pending)
    obtain s1 ext where step: "unload_one si s = Some (Inr (s1, ext))" "linker_ok s1 opens (ext @ pending)" "acyclic (needs s1)"
      "unload_effect s opens s1" "ext = [] \<or> card (dom (ls_objs s1)) < card (dom (ls_objs s))"
      using unload_one_step[OF Cons.prems(1,2)] by blast
    have "card (dom (ls_objs s1)) \<le> card (dom (ls_objs s))"
      using step(4) Cons.prems(1) by (intro card_mono) (auto simp: unload_effect_def linker_ok_def links_ok_def)
    then consider "card (dom (ls_objs s1)) < card (dom (ls_objs s))" | "card (dom (ls_objs s1)) = card (dom (ls_objs s))" "ext = []"
      using step(5) by linarith
    then obtain s' where "soinfo_unload_all (ext @ pending) s1 = Some (Inr s')" "linker_ok s' opens []" "acyclic (needs s')" "unload_effect s1 opens s'"
    proof cases
      case 1
      then show ?thesis using Cons.prems(3)[OF 1 step(2,3)] that by blast
    next
      case 2
      then show ?thesis using Cons.IH[of s1] step(2,3) Cons.prems(3) that by auto
    qed
    with step(1) unload_effect_trans[OF step(4)] show ?case by (subst soinfo_unload_all.simps) auto
  qed
qed

section \<open>Small linker states\<close>

text \<open>
  Object 1 needs 2 and 3, object 2 needs 3; 1 and 2 are one load group, 3 is another and has been opened
  on its own as well.
\<close>

definition lib_obj :: "so_id \<Rightarrow> so_id list \<Rightarrow> so_id list \<Rightarrow> u64 \<Rightarrow> u64 \<Rightarrow> soinfo" where
  "lib_obj root children parents count handle =
     (new_soinfo 0 ''/lib.so'' None 0 0)\<lparr>si_flags := FLAG_NEW_SOINFO OR FLAG_LINKED, si_tables := demo_syms,
        si_constructors_called := True, si_fini_func := handle * 16, si_children := children, si_parents := parents,
        si_local_group_root := Some root, si_ref_count := count, si_handle := handle\<rparr>"

definition lib_state :: "(so_id \<rightharpoonup> soinfo) \<Rightarrow> lstate" where
  "lib_state objs = \<lparr>ls_objs = objs, ls_solist = [0, 1, 2, 3], ls_ns = (\<lambda>n. new_namespace\<lparr>ns_soinfo_list := if n = 0 then [1, 2, 3] else []\<rparr>),
     ls_default_ns = 0, ls_anonymous_ns = 0, ls_anonymous_initialized = False,
     ls_handles = [11 \<mapsto> 1, 12 \<mapsto> 2, 13 \<mapsto> 3], ls_dso_counters = Map.empty, ls_app_sdk = 29, ls_events = []\<rparr>"

definition two_groups :: lstate where
  "two_groups = lib_state [1 \<mapsto> lib_obj 1 [2, 3] [] 1 11, 2 \<mapsto> lib_obj 1 [3] [1] 0 12, 3 \<mapsto> lib_obj 3 [] [1, 2] 3 13]"

text \<open>Object 1 needs 2, and 2 and 3 need each other; the three are one load group.\<close>

definition cyclic_group :: lstate where
  "cyclic_group = lib_state [1 \<mapsto> lib_obj 1 [2] [] 1 11, 2 \<mapsto> lib_obj 1 [3] [1, 3] 0 12, 3 \<mapsto> lib_obj 1 [2] [2] 0 13]"

lemma lib_obj_sel:
  "si_children (lib_obj r cs ps n h) = cs" "si_parents (lib_obj r cs ps n h) = ps" "si_local_group_root (lib_obj r cs ps n h) = Some r"
  "si_ref_count (lib_obj r cs ps n h) = n" "si_handle (lib_obj r cs ps n h) = h" "is_linked (lib_obj r cs ps n h)"
  "can_unload (lib_obj r cs ps n h)" "si_primary_namespace (lib_obj r cs ps n h) = Some 0" "in_namespace 0 (lib_obj r cs ps n h)"
  by (simp_all add: lib_obj_def new_soinfo_def is_linked_def can_unload_def in_namespace_def so_flag_defs)

lemma lib_state_tables:
  assumes "\<And>i. objs i \<noteq> None \<longleftrightarrow> i \<in> {1, 2, 3}"
    "\<And>i x. objs i = Some x \<Longrightarrow> in_namespace 0 x \<and> si_handle x = of_nat (10 + i)"
  shows "tables_ok (lib_state objs)"
proof -
  have dom: "dom objs = {1, 2, 3}" using assms(1) by auto
  have obj: "\<exists>x. objs i = Some x \<and> in_namespace 0 x \<and> si_handle x = of_nat (10 + i)" if "i \<in> {1, 2, 3}" for i
    using assms(1)[of i] assms(2)[of i] that by auto
  have sel: "ls_objs (lib_state objs) = objs" "ls_solist (lib_state objs) = [0, 1, 2, 3]"
    "ls_handles (lib_state objs) = [11 \<mapsto> 1, 12 \<mapsto> 2, 13 \<mapsto> 3]"
    "ns_soinfo_list (ls_ns (lib_state objs) n) = (if n = 0 then [1, 2, 3] else [])" for n by (simp_all add: lib_state_def)
  show ?thesis unfolding tables_ok_def sel
  proof (intro conjI allI impI)
    fix n :: ns_id and i assume "i \<in> set (if n = 0 then [1, 2, 3] else [] :: so_id list)"
    then have "i \<in> {1, 2, 3}" "n = 0" by (auto split: if_splits)
    with obj show "\<exists>x. objs i = Some x \<and> in_namespace n x" by blast
  next
    fix h :: u64 and i :: so_id assume "[11 \<mapsto> 1, 12 \<mapsto> 2, 13 \<mapsto> 3] h = Some i"
    then have "i \<in> {1, 2, 3}" "h = of_nat (10 + i)" by (auto split: if_splits)
    with obj show "\<exists>x. objs i = Some x \<and> si_handle x = h" by blast
  next
    fix i x assume x: "objs i = Some x"
    then have "i \<in> {1, 2, 3}" using assms(1) by blast
    with assms(2)[OF x] show "[11 \<mapsto> 1, 12 \<mapsto> 2, 13 \<mapsto> 3] (si_handle x) = Some i" by auto
  qed (simp_all add: dom)
qed

lemma two_groups_objs:
  "ls_objs two_groups i = Some x \<longleftrightarrow> i = 1 \<and> x = lib_obj 1 [2, 3] [] 1 11 \<or> i = 2 \<and> x = lib_obj 1 [3] [1] 0 12 \<or> i = 3 \<and> x = lib_obj 3 [] [1, 2] 3 13"
  by (auto simp: two_groups_def lib_state_def)

lemma two_groups_graph:
  "dom (ls_objs two_groups) = {1, 2, 3}"
  "kids two_groups i = (if i = 1 then [2, 3] else if i = 2 then [3] else [])"
  "pars two_groups i = (if i = 2 then [1] else if i = 3 then [1, 2] else [])"
  "group_root two_groups i = (if i = 1 then Some 1 else if i = 2 then Some 1 else if i = 3 then Some 3 else None)"
  by (auto simp: two_groups_def lib_state_def kids_def pars_def group_root_def lib_obj_sel split: if_splits)

lemma two_groups_needs: "needs two_groups = {(1, 2), (1, 3), (2, 3)}"
  by (auto simp: needs_def two_groups_graph split: if_splits)

lemma two_groups_acyclic: "acyclic (needs two_groups)"
proof -
  have "needs two_groups \<subseteq> less_than" by (auto simp: two_groups_needs)
  then show ?thesis using acyclic_subset wf_acyclic[OF wf_less_than] by blast
qed

definition two_groups_opens :: "so_id \<Rightarrow> nat" where
  "two_groups_opens r = (if r = 1 \<or> r = 3 then 1 else 0)"

lemma two_groups_ok: "linker_ok two_groups two_groups_opens []"
proof -
  have "tables_ok two_groups" unfolding two_groups_def by (rule lib_state_tables) (auto simp: lib_obj_sel split: if_splits)
  moreover have "links_ok two_groups"
    unfolding links_ok_def two_groups_objs two_groups_graph(1) two_groups_needs by (auto simp: lib_obj_sel two_groups_graph)
  note base = calculation this
  have "load_group two_groups 1 = {1, 2}" "load_group two_groups 3 = {3}"
    by (auto simp: load_group_def two_groups_graph split: if_splits)
  moreover have "{1, 2, 3} - {1, 2} = {3::nat}" "{1, 2, 3} - {3} = {1, 2::nat}" by auto
  ultimately have "outside_refs two_groups 1 = 0" "outside_refs two_groups 3 = 2"
    unfolding outside_refs_def refs_into_def two_groups_graph(1) by (simp_all add: two_groups_graph)
  then have "counts_ok two_groups two_groups_opens []"
    unfolding counts_ok_def two_groups_objs by (auto simp: lib_obj_sel refs_into_def two_groups_opens_def)
  moreover have "no_idle_group two_groups" unfolding no_idle_group_def two_groups_objs by (auto simp: lib_obj_sel)
  ultimately show ?thesis using base by (simp add: linker_ok_def)
qed

lemma cyclic_group_objs:
  "ls_objs cyclic_group i = Some x \<longleftrightarrow> i = 1 \<and> x = lib_obj 1 [2] [] 1 11 \<or> i = 2 \<and> x = lib_obj 1 [3] [1, 3] 0 12 \<or> i = 3 \<and> x = lib_obj 1 [2] [2] 0 13"
  by (auto simp: cyclic_group_def lib_state_def)

lemma cyclic_group_graph:
  "dom (ls_objs cyclic_group) = {1, 2, 3}"
  "kids cyclic_group i = (if i = 1 then [2] else if i = 2 then [3] else if i = 3 then [2] else [])"
  "pars cyclic_group i = (if i = 2 then [1, 3] else if i = 3 then [2] else [])"
  "group_root cyclic_group i = (if i \<in> {1, 2, 3} then Some 1 else None)"
  by (auto simp: cyclic_group_def lib_state_def kids_def pars_def group_root_def lib_obj_sel split: if_splits)

lemma cyclic_group_ok: "linker_ok cyclic_group (\<lambda>r. 0) [1]"
proof -
  have "tables_ok cyclic_group" unfolding cyclic_group_def by (rule lib_state_tables) (auto simp: lib_obj_sel split: if_splits)
  moreover have needs: "(1, 2) \<in> needs cyclic_group" "(2, 3) \<in> needs cyclic_group" by (simp_all add: needs_def cyclic_group_graph)
  then have "(1, 3) \<in> (needs cyclic_group)\<^sup>*" by (meson converse_rtrancl_into_rtrancl r_into_rtrancl)
  then have "links_ok cyclic_group" using needs
    unfolding links_ok_def cyclic_group_objs cyclic_group_graph(1) by (auto simp: lib_obj_sel cyclic_group_graph)
  moreover have "load_group cyclic_group 1 = {1, 2, 3}" by (auto simp: load_group_def cyclic_group_graph split: if_splits)
  then have "outside_refs cyclic_group 1 = 0" unfolding outside_refs_def cyclic_group_graph(1) by simp
  then have "counts_ok cyclic_group (\<lambda>r. 0) [1]"
    unfolding counts_ok_def cyclic_group_objs by (auto simp: lib_obj_sel refs_into_def cyclic_group_graph)
  moreover have "no_idle_group cyclic_group" unfolding no_idle_group_def cyclic_group_objs by (auto simp: lib_obj_sel)
  ultimately show ?thesis by (simp add: linker_ok_def)
qed

section \<open>Properties\<close>

text \<open>
  C2: Closing a handle.  If the loaded objects satisfy the invariant, with a reference count that
  agrees with the open handles and the references between groups, and the dependencies have no cycle,
  then \<open>dlclose\<close> returns and follows no dangling pointer; it leaves the invariant with one handle
  less, keeps every object of a group that still has a handle, and leaves no group behind that nobody
  refers to.
\<close>

theorem dlclose_safe:
  assumes "linker_ok s opens []" and "acyclic (needs s)"
    and "soinfo_from_handle s object_at handle = Some si" and "group_root s si = Some r" and "0 < opens r"
  shows "\<exists>s'. do_dlclose object_at handle s = Some (Inr s') \<and> linker_ok s' (opens(r := opens r - 1)) [] \<and> acyclic (needs s') \<and>
    (\<forall>i \<in> dom (ls_objs s). 0 < (opens(r := opens r - 1)) (the (group_root s i)) \<longrightarrow> i \<in> dom (ls_objs s'))"
proof -
  let ?opens = "opens(r := opens r - 1)"
  have links: "links_ok s" using assms(1) by (simp add: linker_ok_def)
  have refs: "refs_into s r' [si] = (if r' = r then 1 else 0)" "refs_into s r' [] = 0" for r'
    using assms(4) by (simp_all add: refs_into_def)
  have "counts_ok s ?opens [si]"
    using assms(1,5) group_rootD(1)[OF links assms(4)] unfolding linker_ok_def counts_ok_def refs by auto
  then have "linker_ok s ?opens [si]" using assms(1) by (simp add: linker_ok_def)
  from soinfo_unload_all_run[OF this assms(2)] obtain s' where
    "soinfo_unload_all [si] s = Some (Inr s')" "linker_ok s' ?opens []" "acyclic (needs s')" "unload_effect s ?opens s'" by blast
  moreover from this(4) have "\<forall>i \<in> dom (ls_objs s). 0 < ?opens (the (group_root s i)) \<longrightarrow> i \<in> dom (ls_objs s')"
    unfolding unload_effect_def by (metis DiffI less_irrefl)
  ultimately show ?thesis using assms(3) by (simp add: do_dlclose_def soinfo_unload_def)
qed

theorem dlclose_safe_witness:
  "\<exists>s'. do_dlclose (\<lambda>a. None) 11 two_groups = Some (Inr s') \<and> 3 \<in> dom (ls_objs s')"
proof -
  have "soinfo_from_handle two_groups (\<lambda>a. None) 11 = Some 1" by (simp add: soinfo_from_handle_def two_groups_def lib_state_def)
  moreover have "group_root two_groups 1 = Some 1" by (simp add: two_groups_graph)
  moreover have "0 < two_groups_opens 1" by (simp add: two_groups_opens_def)
  ultimately obtain s' where "do_dlclose (\<lambda>a. None) 11 two_groups = Some (Inr s')"
    "\<forall>i \<in> dom (ls_objs two_groups). 0 < (two_groups_opens(1 := two_groups_opens 1 - 1)) (the (group_root two_groups i)) \<longrightarrow> i \<in> dom (ls_objs s')"
    using dlclose_safe[OF two_groups_ok two_groups_acyclic] by blast
  then show ?thesis by (auto simp: two_groups_graph two_groups_opens_def)
qed



text \<open>
  C40: The absence of cycles is needed.  In a load group of three objects that satisfies the invariant
  and in which the second and the third need each other, dropping the last reference releases the root
  alone: the other two stay loaded and can be found, with a pointer to the freed root that the next
  \<open>dlopen\<close> and every lookup of a default symbol follow.
\<close>

theorem cyclic_group_dangles:
  "linker_ok cyclic_group (\<lambda>r. 0) [1] \<and>
   (\<exists>s'. soinfo_unload 1 cyclic_group = Some (Inr s') \<and> 2 \<in> set (ns_soinfo_list (ls_ns s' 0)) \<and> group_root s' 2 = Some 1 \<and>
      ls_objs s' 1 = None \<and> increment_ref_count 2 s' = Inl Dangling \<and> get_target_sdk_version s' 2 = Inl Dangling)"
proof
  show ok: "linker_ok cyclic_group (\<lambda>r. 0) [1]" by (rule cyclic_group_ok)
  let ?y = "(lib_obj 1 [2] [] 1 11)\<lparr>si_ref_count := 0\<rparr>"
  define s1 where "s1 = cyclic_group\<lparr>ls_objs := (ls_objs cyclic_group)(1 \<mapsto> ?y)\<rparr>"
  have y: "ls_objs cyclic_group 1 = Some (lib_obj 1 [2] [] 1 11)" by (simp add: cyclic_group_objs)
  note same = recount[OF y, of 0, folded s1_def]
  have links: "links_ok s1" and tables: "tables_ok s1" using ok same by (simp_all add: linker_ok_def)
  have sel: "kids s1 1 = [2]" "pars s1 1 = []" "pars s1 2 = [1, 3]" "group_root s1 2 = Some 1" "dom (ls_objs s1) = {1, 2, 3}"
    by (simp_all add: same cyclic_group_graph)
  have y1: "ls_objs s1 1 = Some ?y" "can_unload ?y" "is_linked ?y"
    by (simp_all add: s1_def lib_obj_def new_soinfo_def can_unload_def is_linked_def so_flag_defs)
  have one: "unload_one 1 cyclic_group = soinfo_unload_impl 1 s1"
    using y by (simp add: unload_one_def deref_Some decrement_ref_count_def deref_opt_def lib_obj_sel s1_def Let_def)
  have "unload_round 1 s1 1 [] [1] [] = Inr (detached s1 {1}, [], [])"
    using unload_round_run[OF links, of 1 "[]" 1 "[]" "[]"] sel by (simp add: detached_none joins_def)
  then have "unload_collect 1 s1 [1] [] [] = Some (Inr (detached s1 {1}, [1], []))"
    by (subst unload_collect.simps) (simp, subst unload_collect.simps, simp)
  moreover have "each call_destructors [1] (detached s1 {1}) = Inr (emit (dtor_events s1 1) (detached s1 {1}))"
    using each_destructors[of "[1]" "detached s1 {1}"] sel unfolding detached_events detached_dom by simp
  moreover have "each release_one [1] (emit (dtor_events s1 1) (detached s1 {1})) =
      Inr (emit (dtor_events s1 1 @ release_events s1 1) (unloaded s1 {1}))"
    using each_release[OF detached_tables[OF tables], of "[1]" "{}" "{1}" "dtor_events s1 1"] detached_obj[OF y1(1)] sel links_obj(2)[OF links y1(1)]
    by (simp add: detached_dom detached_events released_none unloaded_def)
  ultimately have "soinfo_unload_impl 1 s1 = Some (Inr (emit (dtor_events s1 1 @ release_events s1 1) (unloaded s1 {1}), []))"
    using y1 by (simp add: soinfo_unload_impl_def deref_Some)
  then have run: "soinfo_unload 1 cyclic_group = Some (Inr (emit (dtor_events s1 1 @ release_events s1 1) (unloaded s1 {1})))"
    using one by (simp add: soinfo_unload_def soinfo_unload_all.simps)
  obtain z where z: "ls_objs (unloaded s1 {1}) 2 = Some z" "si_local_group_root z = Some 1"
    by (simp add: unloaded_obj s1_def cyclic_group_def lib_state_def lib_obj_sel)
  have "2 \<in> set (ns_soinfo_list (ls_ns (unloaded s1 {1}) 0))"
    by (simp add: unloaded_def released_def detached_def relink_def s1_def cyclic_group_def lib_state_def)
  moreover have "ls_objs (unloaded s1 {1}) 1 = None" by (simp add: unloaded_obj)
  ultimately show "\<exists>s'. soinfo_unload 1 cyclic_group = Some (Inr s') \<and> 2 \<in> set (ns_soinfo_list (ls_ns s' 0)) \<and> group_root s' 2 = Some 1 \<and>
      ls_objs s' 1 = None \<and> increment_ref_count 2 s' = Inl Dangling \<and> get_target_sdk_version s' 2 = Inl Dangling"
    using run z by (simp add: group_root_def increment_ref_count_def get_target_sdk_version_def deref_Some deref_opt_def deref_def)
qed

end
