(* ===== verification/Linker_Walk.thy ===== *)
theory Linker_Walk
  imports Linker_Unload
begin

text \<open>
  Walking the loaded objects (\<open>q/linker.cpp\<close>): the breadth-first walk over dependencies, the symbol
  lookups of \<open>dlsym\<close> built on it, the search for the object that contains an address, \<open>dladdr\<close> and the
  counters of thread-local destructors.  The walk calls its action exactly on the objects of a
  breadth-first order, which is computed layer by layer here.
\<close>

section \<open>Definitions\<close>

datatype walk_action_result = kWalkStop | kWalkContinue | kWalkSkip

text \<open>An action gets an object and its own state; \<open>None\<close> is an action that does not return.\<close>

type_synonym 'a walk_action = "so_id \<Rightarrow> 'a \<Rightarrow> (link_error + walk_action_result \<times> 'a) option"

definition children_of :: "lstate \<Rightarrow> so_id \<Rightarrow> link_error + so_id list" where
  "children_of s si = try_then (deref s si) (\<lambda>x. Inr (si_children x))"

text \<open>What a round of the loop appends to the list of objects to visit.\<close>

definition walk_pushes :: "lstate \<Rightarrow> walk_action_result \<Rightarrow> so_id \<Rightarrow> link_error + so_id list" where
  "walk_pushes s result si = (if result \<noteq> kWalkSkip then children_of s si else Inr [])"

partial_function (option) walk_loop ::
    "lstate \<Rightarrow> 'a walk_action \<Rightarrow> so_id list \<Rightarrow> so_id list \<Rightarrow> 'a \<Rightarrow> (link_error + bool \<times> 'a) option" where
  "walk_loop s action visit_list visited a =
     (case visit_list of
        [] \<Rightarrow> Some (Inr (True, a))
      | si # rest \<Rightarrow>
          if si \<in> set visited then walk_loop s action rest visited a
          else (case action si a of
                  None \<Rightarrow> None
                | Some r \<Rightarrow>
                    (case r of
                       Inl e \<Rightarrow> Some (Inl e)
                     | Inr q \<Rightarrow>
                         if fst q = kWalkStop then Some (Inr (False, snd q))
                         else (case walk_pushes s (fst q) si of
                                 Inl e \<Rightarrow> Some (Inl e)
                               | Inr cs \<Rightarrow> walk_loop s action (rest @ cs) (visited @ [si]) (snd q)))))"

definition walk_dependencies_tree :: "lstate \<Rightarrow> so_id \<Rightarrow> 'a walk_action \<Rightarrow> 'a \<Rightarrow> (link_error + bool \<times> 'a) option" where
  "walk_dependencies_tree s root action a = walk_loop s action [root] [] a"

text \<open>
  \<open>find_symbol_by_name\<close> through a pointer: a table that the code would read out of range is fatal, any
  other error is the result false.
\<close>

definition find_in :: "lstate \<Rightarrow> cstring \<Rightarrow> version_info option \<Rightarrow> so_id \<Rightarrow> (link_error + bool \<times> u32 option) option" where
  "find_in s name vi si =
     (case deref s si of
        Inl e \<Rightarrow> Some (Inl e)
      | Inr x \<Rightarrow>
          map_option (\<lambda>r. case r of
              Inl e \<Rightarrow> if e = StrtabBounds \<or> e = DivisionByZero then Inl Fatal else Inr (False, None)
            | Inr sym_index \<Rightarrow> Inr (True, sym_index)) (find_symbol_by_name (si_tables x) (SymbolName name) vi))"

text \<open>The state of the action: \<open>skip_lookup\<close> and the symbol found.\<close>

definition dlsym_action ::
    "lstate \<Rightarrow> ns_id \<Rightarrow> so_id option \<Rightarrow> cstring \<Rightarrow> version_info option \<Rightarrow> (bool \<times> (so_id \<times> u32) option) walk_action" where
  "dlsym_action s ns skip_until name vi current_soinfo st =
     (if fst st then Some (Inr (kWalkContinue, (Some current_soinfo \<noteq> skip_until, snd st)))
      else case is_accessible s ns current_soinfo of
        Inl e \<Rightarrow> Some (Inl e)
      | Inr accessible \<Rightarrow>
          if \<not> accessible then Some (Inr (kWalkSkip, st))
          else map_option (\<lambda>r. try_then r (\<lambda>(ok, sym_index).
                 Inr (if \<not> ok then (kWalkStop, (False, None))
                      else case sym_index of
                        Some n \<Rightarrow> (kWalkStop, (False, Some (current_soinfo, n)))
                      | None \<Rightarrow> (kWalkContinue, st)))) (find_in s name vi current_soinfo))"

definition dlsym_handle_lookup_ns ::
    "lstate \<Rightarrow> ns_id \<Rightarrow> so_id \<Rightarrow> so_id option \<Rightarrow> cstring \<Rightarrow> version_info option \<Rightarrow> (link_error + (so_id \<times> u32) option) option" where
  "dlsym_handle_lookup_ns s ns root skip_until name vi =
     map_option (\<lambda>r. try_then r (\<lambda>(completed, st). Inr (snd st)))
       (walk_dependencies_tree s root (dlsym_action s ns skip_until name vi) (skip_until \<noteq> None, None))"

definition RTLD_DEFAULT :: u64 where "RTLD_DEFAULT = 0"
definition RTLD_NEXT :: u64 where "RTLD_NEXT = - 1"
definition ANDROID_API_M :: int where "ANDROID_API_M = 23"

text \<open>The loop over the objects of the namespace: \<open>None\<close> inside is a lookup that found nothing.\<close>

fun linear_search ::
    "lstate \<Rightarrow> cstring \<Rightarrow> version_info option \<Rightarrow> so_id list \<Rightarrow> (link_error + bool \<times> (so_id \<times> u32) option) option" where
  "linear_search s name vi [] = Some (Inr (True, None))"
| "linear_search s name vi (si # sis) =
     (case try_then (deref s si) (\<lambda>x.
             if si_rtld_flags x AND RTLD_GLOBAL = 0
             then try_then (get_target_sdk_version s si) (\<lambda>v. Inr (v \<ge> ANDROID_API_M)) else Inr False) of
        Inl e \<Rightarrow> Some (Inl e)
      | Inr True \<Rightarrow> linear_search s name vi sis
      | Inr False \<Rightarrow>
          (case find_in s name vi si of
             None \<Rightarrow> None
           | Some (Inl e) \<Rightarrow> Some (Inl e)
           | Some (Inr (ok, sym_index)) \<Rightarrow>
               if \<not> ok then Some (Inr (False, None))
               else (case sym_index of
                       Some n \<Rightarrow> Some (Inr (True, Some (si, n)))
                     | None \<Rightarrow> linear_search s name vi sis)))"

definition dlsym_linear_lookup ::
    "lstate \<Rightarrow> ns_id \<Rightarrow> cstring \<Rightarrow> version_info option \<Rightarrow> so_id option \<Rightarrow> u64 \<Rightarrow> (link_error + (so_id \<times> u32) option) option" where
  "dlsym_linear_lookup s ns name vi caller handle =
     (let soinfo_list = ns_soinfo_list (ls_ns s ns);
          start = (if handle = RTLD_NEXT
                   then (case caller of
                           None \<Rightarrow> Inr None
                         | Some c \<Rightarrow> if c \<in> set soinfo_list then Inr (Some (tl (dropWhile (\<lambda>si. si \<noteq> c) soinfo_list))) else Inl Fatal)
                   else Inr (Some soinfo_list))
      in case start of
           Inl e \<Rightarrow> Some (Inl e)
         | Inr None \<Rightarrow> Some (Inr None)
         | Inr (Some sis) \<Rightarrow>
             (case linear_search s name vi sis of
                None \<Rightarrow> None
              | Some (Inl e) \<Rightarrow> Some (Inl e)
              | Some (Inr (ok, found)) \<Rightarrow>
                  if \<not> ok then Some (Inr None)
                  else (case (found, caller) of
                          (None, Some c) \<Rightarrow>
                            (case try_then (deref s c) (\<lambda>x. try_then (deref_opt s (si_local_group_root x)) (\<lambda>r.
                                    case si_primary_namespace r of
                                      None \<Rightarrow> Inl NullPointer
                                    | Some rns \<Rightarrow> Inr (the (si_local_group_root x), rns))) of
                               Inl e \<Rightarrow> Some (Inl e)
                             | Inr (root, rns) \<Rightarrow>
                                 dlsym_handle_lookup_ns s rns root (if handle = RTLD_NEXT then Some c else None) name vi)
                        | _ \<Rightarrow> Some (Inr found))))"

text \<open>The main object is a constant address that no object has.\<close>

definition solist_get_somain :: so_id where "solist_get_somain = 0xDEADBEEF"

definition dlsym_handle_lookup ::
    "lstate \<Rightarrow> so_id \<Rightarrow> cstring \<Rightarrow> version_info option \<Rightarrow> (link_error + (so_id \<times> u32) option) option" where
  "dlsym_handle_lookup s si name vi =
     (if si = solist_get_somain then dlsym_linear_lookup s (ls_default_ns s) name vi None RTLD_DEFAULT
      else case try_then (deref s si) (\<lambda>x. case si_primary_namespace x of None \<Rightarrow> Inl NullPointer | Some ns \<Rightarrow> Inr ns) of
        Inl e \<Rightarrow> Some (Inl e)
      | Inr ns \<Rightarrow> dlsym_handle_lookup_ns s ns si None name vi)"

definition load_contains :: "u64 \<Rightarrow> elf_phdr \<Rightarrow> bool" where
  "load_contains vaddr ph \<longleftrightarrow> p_type ph = PT_LOAD \<and> vaddr \<ge> p_vaddr ph \<and> vaddr < p_vaddr ph + p_memsz ph"

fun containing_library_from :: "lstate \<Rightarrow> u64 \<Rightarrow> so_id list \<Rightarrow> link_error + so_id option" where
  "containing_library_from s address [] = Inr None"
| "containing_library_from s address (si # sis) =
     try_then (deref s si) (\<lambda>x.
       if address < si_base x \<or> address - si_base x \<ge> si_size x then containing_library_from s address sis
       else if list_ex (load_contains (address - si_load_bias x)) (si_phdr x) then Inr (Some si)
       else containing_library_from s address sis)"

definition find_containing_library :: "lstate \<Rightarrow> u64 \<Rightarrow> link_error + so_id option" where
  "find_containing_library s address = containing_library_from s address (solist_objects s)"

definition get_caller_namespace :: "lstate \<Rightarrow> so_id option \<Rightarrow> link_error + ns_id" where
  "get_caller_namespace s caller =
     (case caller of
        None \<Rightarrow> Inr (ls_anonymous_ns s)
      | Some c \<Rightarrow> try_then (deref s c) (\<lambda>x. case si_primary_namespace x of None \<Rightarrow> Inl NullPointer | Some ns \<Rightarrow> Inr ns))"

definition STT_TLS :: u8 where "STT_TLS = 6"

text \<open>
  The end of \<open>do_dlsym\<close>: the address of the symbol found.  Symbols of thread-local variables are refused.
\<close>

definition dlsym_result :: "(u64 \<Rightarrow> u64) \<Rightarrow> lstate \<Rightarrow> (so_id \<times> u32) option \<Rightarrow> link_error + u64" where
  "dlsym_result ifunc s found =
     (case found of
        None \<Rightarrow> Inl LinkError
      | Some (si, n) \<Rightarrow>
          try_then (deref s si) (\<lambda>x.
            let sym_entry = so_symtab (si_tables x) n;
                bind = ELF_ST_BIND (st_info sym_entry)
            in if (bind = 1 \<or> bind = 2) \<and> st_shndx sym_entry \<noteq> 0
               then if ELF_ST_TYPE (st_info sym_entry) = STT_TLS then Inl LinkError
                    else Inr (resolve_symbol_address ifunc (si_tables x) sym_entry)
               else Inl LinkError))"

definition do_dlsym ::
    "(u64 \<Rightarrow> u64) \<Rightarrow> (u64 \<Rightarrow> so_id option) \<Rightarrow> lstate \<Rightarrow> u64 \<Rightarrow> cstring option \<Rightarrow> cstring option \<Rightarrow> u64 \<Rightarrow> (link_error + u64) option" where
  "do_dlsym ifunc object_at s handle sym_name sym_ver caller_addr =
     (case try_then (find_containing_library s caller_addr) (\<lambda>caller.
             try_then (get_caller_namespace s caller) (\<lambda>ns. Inr (caller, ns))) of
        Inl e \<Rightarrow> Some (Inl e)
      | Inr (caller, ns) \<Rightarrow>
          (case sym_name of
             None \<Rightarrow> Some (Inl LinkError)
           | Some name \<Rightarrow>
               let vi = map_option (\<lambda>v. \<lparr>vi_elf_hash = calculate_elf_hash v, vi_name = v\<rparr>) sym_ver
               in map_option (\<lambda>r. try_then r (dlsym_result ifunc s))
                    (if handle = RTLD_DEFAULT \<or> handle = RTLD_NEXT
                     then dlsym_linear_lookup s ns name vi caller handle
                     else (case soinfo_from_handle s object_at handle of
                             None \<Rightarrow> Some (Inl LinkError)
                           | Some si \<Rightarrow> dlsym_handle_lookup s si name vi))))"

record dl_info =
  dli_fname :: string
  dli_fbase :: u64
  dli_sname :: "cstring option"
  dli_saddr :: u64

definition do_dladdr :: "(u64 \<Rightarrow> u64) \<Rightarrow> lstate \<Rightarrow> u64 \<Rightarrow> (link_error + dl_info option) option" where
  "do_dladdr ifunc s addr =
     (case try_then (find_containing_library s addr) (\<lambda>r.
             case r of None \<Rightarrow> Inr None | Some si \<Rightarrow> try_then (deref s si) (\<lambda>x. Inr (Some x))) of
        Inl e \<Rightarrow> Some (Inl e)
      | Inr None \<Rightarrow> Some (Inr None)
      | Inr (Some x) \<Rightarrow>
          let info = \<lparr>dli_fname = si_realpath x, dli_fbase = si_base x, dli_sname = None, dli_saddr = 0\<rparr>
          in map_option (\<lambda>sym_index.
               case sym_index of
                 None \<Rightarrow> Inr (Some info)
               | Some n \<Rightarrow>
                   (case get_string (si_tables x) (st_name (so_symtab (si_tables x) n)) of
                      Inl e \<Rightarrow> Inl Fatal
                    | Inr str \<Rightarrow> Inr (Some (info\<lparr>dli_sname := Some str,
                        dli_saddr := resolve_symbol_address ifunc (si_tables x) (so_symtab (si_tables x) n)\<rparr>))))
             (find_symbol_by_address (si_tables x) addr))"

text \<open>The counters of destructors of thread-local variables, by the address that names the object.\<close>

definition increment_dso_handle_reference_counter :: "u64 \<Rightarrow> lstate \<Rightarrow> link_error + lstate" where
  "increment_dso_handle_reference_counter dso_handle s =
     (if dso_handle = 0 then Inr s
      else case ls_dso_counters s dso_handle of
        Some n \<Rightarrow> if n + 1 = 0 then Inl Fatal else Inr (s\<lparr>ls_dso_counters := (ls_dso_counters s)(dso_handle \<mapsto> n + 1)\<rparr>)
      | None \<Rightarrow>
          try_then (find_containing_library s dso_handle) (\<lambda>r.
            case r of
              None \<Rightarrow> Inl Fatal
            | Some si \<Rightarrow> try_then (increment_ref_count si s) (\<lambda>(n, s1).
                Inr (s1\<lparr>ls_dso_counters := (ls_dso_counters s1)(dso_handle \<mapsto> 1)\<rparr>))))"

definition decrement_dso_handle_reference_counter :: "u64 \<Rightarrow> lstate \<Rightarrow> (link_error + lstate) option" where
  "decrement_dso_handle_reference_counter dso_handle s =
     (if dso_handle = 0 then Some (Inr s)
      else case ls_dso_counters s dso_handle of
        None \<Rightarrow> Some (Inl Fatal)
      | Some n \<Rightarrow>
          if n = 0 then Some (Inl Fatal)
          else if n - 1 \<noteq> 0 then Some (Inr (s\<lparr>ls_dso_counters := (ls_dso_counters s)(dso_handle \<mapsto> n - 1)\<rparr>))
          else case find_containing_library s dso_handle of
            Inl e \<Rightarrow> Some (Inl e)
          | Inr None \<Rightarrow> Some (Inl Fatal)
          | Inr (Some si) \<Rightarrow>
              map_option (\<lambda>r. try_then r (\<lambda>s1. Inr (s1\<lparr>ls_dso_counters := (ls_dso_counters s1)(dso_handle := None)\<rparr>)))
                (soinfo_unload si (s\<lparr>ls_dso_counters := (ls_dso_counters s)(dso_handle \<mapsto> 0)\<rparr>)))"

section \<open>Breadth-first order\<close>

text \<open>The edges a walk follows: those of the objects that it does not skip.\<close>

definition followed :: "lstate \<Rightarrow> (so_id \<Rightarrow> bool) \<Rightarrow> so_id rel" where
  "followed s acc = {(p, c). acc p \<and> c \<in> set (kids s p)}"

definition distance :: "so_id rel \<Rightarrow> so_id \<Rightarrow> so_id \<Rightarrow> nat" where
  "distance E root x = (LEAST n. (root, x) \<in> E ^^ n)"

definition bfs_order :: "so_id rel \<Rightarrow> so_id \<Rightarrow> so_id list \<Rightarrow> bool" where
  "bfs_order E root V \<longleftrightarrow> distinct V \<and> set V = E\<^sup>* `` {root} \<and> sorted (map (distance E root) V)"

lemma bfs_order_root:
  assumes "bfs_order E root V"
  shows "\<exists>rest. V = root # rest"
proof (cases V)
  case Nil
  then show ?thesis using assms by (auto simp: bfs_order_def)
next
  case (Cons v vs)
  have "v = root"
  proof (rule ccontr)
    assume ne: "v \<noteq> root"
    have "root \<in> set V" using assms by (simp add: bfs_order_def)
    then have "distance E root v \<le> distance E root root" using assms ne Cons by (auto simp: bfs_order_def)
    moreover have "distance E root root = 0" by (simp add: distance_def)
    moreover have "(root, v) \<in> E\<^sup>*" using assms Cons by (auto simp: bfs_order_def)
    then have "(root, v) \<in> E ^^ distance E root v" unfolding distance_def by (metis LeastI_ex rtrancl_imp_relpow)
    ultimately show False using ne by simp
  qed
  with Cons show ?thesis by blast
qed

definition within :: "so_id rel \<Rightarrow> so_id \<Rightarrow> nat \<Rightarrow> so_id set" where
  "within E root n = {x. \<exists>m < n. (root, x) \<in> E ^^ m}"

lemma within_Suc: "within E root (Suc n) = within E root n \<union> (E ^^ n) `` {root}"
  by (auto simp: within_def less_Suc_eq)

lemma distance_eq: "(root, x) \<in> E ^^ n \<Longrightarrow> x \<notin> within E root n \<Longrightarrow> distance E root x = n"
  unfolding distance_def within_def by (rule Least_equality) (auto simp: not_less[symmetric])

lemma distance_less: "x \<in> within E root n \<Longrightarrow> distance E root x < n"
  unfolding distance_def within_def by (auto intro: le_less_trans[OF Least_le])

text \<open>The layer after the last one that has new objects is empty, and so are all that follow.\<close>

lemma within_complete:
  assumes "(E ^^ n) `` {root} \<subseteq> within E root n"
  shows "E\<^sup>* `` {root} = within E root n"
proof
  show "within E root n \<subseteq> E\<^sup>* `` {root}" by (auto simp: within_def dest: relpow_imp_rtrancl)
  have "x \<in> within E root n" if "(root, x) \<in> E\<^sup>*" for x using that
  proof (induction rule: rtrancl_induct)
    case base
    show ?case
    proof (cases n)
      case 0
      then have "root \<in> within E root n" using assms by auto
      then show ?thesis .
    qed (auto simp: within_def intro!: exI[of _ 0])
  next
    case (step y z)
    then obtain m where m: "m < n" "(root, y) \<in> E ^^ m" by (auto simp: within_def)
    with step.hyps(2) have z: "(root, z) \<in> E ^^ Suc m" by auto
    show ?case
    proof (cases "Suc m = n")
      case True
      with z assms show ?thesis by blast
    next
      case False
      with m(1) have "Suc m < n" by simp
      with z show ?thesis unfolding within_def by blast
    qed
  qed
  then show "E\<^sup>* `` {root} \<subseteq> within E root n" by blast
qed

text \<open>Calling the action along a list of objects.\<close>

fun visit_all :: "'a walk_action \<Rightarrow> so_id list \<Rightarrow> 'a \<Rightarrow> (link_error + bool \<times> 'a) option" where
  "visit_all action [] a = Some (Inr (True, a))"
| "visit_all action (si # sis) a =
     (case action si a of
        None \<Rightarrow> None
      | Some (Inl e) \<Rightarrow> Some (Inl e)
      | Some (Inr q) \<Rightarrow> if fst q = kWalkStop then Some (Inr (False, snd q)) else visit_all action sis (snd q))"

text \<open>
  An action that does not stop goes on below the objects of \<open>acc\<close> and skips the others, from every
  state of its own that satisfies \<open>J\<close>, and keeps \<open>J\<close>.
\<close>

definition agrees :: "('a \<Rightarrow> bool) \<Rightarrow> (so_id \<Rightarrow> bool) \<Rightarrow> 'a walk_action \<Rightarrow> bool" where
  "agrees J acc action \<longleftrightarrow>
     (\<forall>si a q. J a \<longrightarrow> action si a = Some (Inr q) \<longrightarrow>
        fst q = kWalkStop \<or> J (snd q) \<and> fst q = (if acc si then kWalkContinue else kWalkSkip))"

definition pushes :: "lstate \<Rightarrow> (so_id \<Rightarrow> bool) \<Rightarrow> so_id \<Rightarrow> so_id list" where
  "pushes s acc p = (if acc p then kids s p else [])"

lemma walk_pushes_eq:
  assumes "si \<in> dom (ls_objs s)" "res = (if acc si then kWalkContinue else kWalkSkip)"
  shows "walk_pushes s res si = Inr (pushes s acc si)"
  using assms by (auto simp: walk_pushes_def pushes_def children_of_def deref_def kids_def)

text \<open>
  The state of the loop inside a layer: the objects of lower layers are visited, \<open>N\<close> are the visited
  ones of this layer, \<open>Q\<close> what is left of it in the list, and the children of \<open>N\<close> follow.
\<close>

definition walk_inv :: "lstate \<Rightarrow> (so_id \<Rightarrow> bool) \<Rightarrow> so_id \<Rightarrow> nat \<Rightarrow> so_id list \<Rightarrow> so_id list \<Rightarrow> so_id list \<Rightarrow> bool" where
  "walk_inv s acc root n prev N Q \<longleftrightarrow>
     (let E = followed s acc in
      distinct (prev @ N) \<and> set prev = within E root n \<and> set N \<subseteq> (E ^^ n) `` {root} \<and> set Q \<subseteq> (E ^^ n) `` {root} \<and>
      (E ^^ n) `` {root} \<subseteq> set prev \<union> set N \<union> set Q \<and> sorted (map (distance E root) prev))"

lemma walk_inv_start: "walk_inv s acc root 0 [] [] [root]"
  by (simp add: walk_inv_def within_def Let_def)

lemma walk_inv_skip: "walk_inv s acc root n prev N (x # Q) \<Longrightarrow> x \<in> set (prev @ N) \<Longrightarrow> walk_inv s acc root n prev N Q"
  by (auto simp: walk_inv_def Let_def)

lemma walk_inv_visit: "walk_inv s acc root n prev N (x # Q) \<Longrightarrow> x \<notin> set (prev @ N) \<Longrightarrow> walk_inv s acc root n prev (N @ [x]) Q"
  by (auto simp: walk_inv_def Let_def)

lemma walk_inv_sorted:
  assumes "walk_inv s acc root n prev N Q"
  shows "sorted (map (distance (followed s acc) root) (prev @ N))"
proof -
  let ?E = "followed s acc"
  have "distance ?E root x = n" if "x \<in> set N" for x
    using that assms by (intro distance_eq) (auto simp: walk_inv_def Let_def)
  moreover have "distance ?E root x < n" if "x \<in> set prev" for x
    using that assms by (intro distance_less) (simp add: walk_inv_def Let_def)
  moreover have "sorted (map f N)" if "\<And>x. x \<in> set N \<Longrightarrow> f x = n" for f :: "so_id \<Rightarrow> nat" and N
    using that by (induction N) auto
  ultimately show ?thesis using assms by (auto simp: walk_inv_def Let_def sorted_append less_imp_le)
qed

lemma walk_inv_layer:
  assumes inv: "walk_inv s acc root n prev N []"
  shows "walk_inv s acc root (Suc n) (prev @ N) [] (concat (map (pushes s acc) N))"
proof -
  let ?E = "followed s acc"
  have layer: "(?E ^^ n) `` {root} \<subseteq> within ?E root n \<union> set N" and N: "set N \<subseteq> (?E ^^ n) `` {root}" and prev: "set prev = within ?E root n"
    using inv by (auto simp: walk_inv_def Let_def)
  have next_layer: "z \<in> within ?E root (Suc n) \<or> z \<in> set (concat (map (pushes s acc) N))" if path: "(root, z) \<in> ?E ^^ Suc n" for z
  proof -
    obtain y where y: "(root, y) \<in> ?E ^^ n" "(y, z) \<in> ?E" using path by (rule relpow_Suc_E)
    show ?thesis
    proof (cases "y \<in> set N")
      case True
      with y(2) show ?thesis by (auto simp: followed_def pushes_def)
    next
      case False
      with y layer obtain m where "m < n" "(root, y) \<in> ?E ^^ m" by (auto simp: within_def)
      with y(2) have "(root, z) \<in> ?E ^^ Suc m" "Suc m < Suc n" by auto
      then show ?thesis unfolding within_def by blast
    qed
  qed
  have from_layer: "(root, z) \<in> ?E ^^ Suc n" if "z \<in> set (concat (map (pushes s acc) N))" for z
    using that N by (auto simp: pushes_def followed_def split: if_splits)
  have visited: "set (prev @ N) = within ?E root (Suc n)" using layer N prev by (auto simp: within_Suc)
  show ?thesis unfolding walk_inv_def Let_def
  proof (intro conjI)
    show "(?E ^^ Suc n) `` {root} \<subseteq> set (prev @ N) \<union> set [] \<union> set (concat (map (pushes s acc) N))"
      using next_layer unfolding visited by blast
    show "set (concat (map (pushes s acc) N)) \<subseteq> (?E ^^ Suc n) `` {root}" using from_layer by blast
    show "distinct ((prev @ N) @ [])" using inv unfolding walk_inv_def Let_def append_Nil2 by blast
  qed (use visited walk_inv_sorted[OF inv] in simp_all)
qed

lemma walk_inv_end:
  assumes inv: "walk_inv s acc root n prev N []" and "concat (map (pushes s acc) N) = []"
  shows "bfs_order (followed s acc) root (prev @ N)"
proof -
  have "walk_inv s acc root (Suc n) (prev @ N) [] []" using walk_inv_layer[OF inv] assms(2) by simp
  then have "set (prev @ N) = within (followed s acc) root (Suc n)" "(followed s acc ^^ Suc n) `` {root} \<subseteq> within (followed s acc) root (Suc n)"
    by (auto simp: walk_inv_def Let_def simp del: relpow.simps)
  then have "set (prev @ N) = (followed s acc)\<^sup>* `` {root}" using within_complete by blast
  then show ?thesis using walk_inv_sorted[OF inv] inv unfolding bfs_order_def walk_inv_def Let_def by blast
qed

text \<open>
  From a state inside a layer the loop calls the action on a list of objects \<open>W\<close> that completes the
  visited ones to a breadth-first order, whatever the action does.
\<close>

definition completes :: "'a itself \<Rightarrow> lstate \<Rightarrow> (so_id \<Rightarrow> bool) \<Rightarrow> so_id \<Rightarrow> so_id list \<Rightarrow> so_id list \<Rightarrow> so_id list \<Rightarrow> bool" where
  "completes T s acc root V Q W \<longleftrightarrow> bfs_order (followed s acc) root (V @ W) \<and>
     (\<forall>J (action :: 'a walk_action) a. agrees J acc action \<longrightarrow> J a \<longrightarrow> walk_loop s action Q V a = visit_all action W a)"

lemma completes_skip: "x \<in> set V \<Longrightarrow> completes T s acc root V Q W \<Longrightarrow> completes T s acc root V (x # Q) W"
  unfolding completes_def by (subst walk_loop.simps) simp

lemma completes_visit:
  assumes "x \<notin> set V" "x \<in> dom (ls_objs s)" "completes T s acc root (V @ [x]) (Q @ pushes s acc x) W"
  shows "completes T s acc root V (x # Q) (x # W)"
  unfolding completes_def
proof (intro conjI allI impI)
  show "bfs_order (followed s acc) root (V @ x # W)" using assms(3) by (simp add: completes_def)
  fix J and action :: "'a walk_action" and a assume ag: "agrees J acc action" and a: "J a"
  have res: "walk_pushes s (fst q) x = Inr (pushes s acc x)" if "action x a = Some (Inr q)" "fst q \<noteq> kWalkStop" for q
  proof (rule walk_pushes_eq[OF assms(2)])
    show "fst q = (if acc x then kWalkContinue else kWalkSkip)" using that ag a unfolding agrees_def by blast
  qed
  have rest: "walk_loop s action (Q @ pushes s acc x) (V @ [x]) b = visit_all action W b" if "J b" for b
    using assms(3) ag that by (simp add: completes_def)
  show "walk_loop s action (x # Q) V a = visit_all action (x # W) a"
  proof (cases "\<exists>q. action x a = Some (Inr q) \<and> fst q \<noteq> kWalkStop")
    case True
    then obtain q where q: "action x a = Some (Inr q)" "fst q \<noteq> kWalkStop" by blast
    then have "J (snd q)" using ag a unfolding agrees_def by blast
    with q res[OF q] rest assms(1) show ?thesis by (subst walk_loop.simps) simp
  next
    case False
    with assms(1) show ?thesis by (subst walk_loop.simps) (auto split: option.splits sum.splits)
  qed
qed

lemma completes_done:
  "walk_inv s acc root n prev N [] \<Longrightarrow> concat (map (pushes s acc) N) = [] \<Longrightarrow> completes T s acc root (prev @ N) [] []"
  using walk_inv_end unfolding completes_def by (subst walk_loop.simps) simp

lemma walk_layer:
  assumes deeper: "\<And>m prev' N' Q'. card (dom (ls_objs s) - set (prev' @ N')) < card (dom (ls_objs s) - set (prev @ N)) \<Longrightarrow>
      walk_inv s acc root m prev' N' Q' \<Longrightarrow> \<exists>W. completes T s acc root (prev' @ N') (Q' @ concat (map (pushes s acc) N')) W"
    and last: "walk_inv s acc root n prev N [] \<Longrightarrow> \<exists>W. completes T s acc root (prev @ N) (concat (map (pushes s acc) N)) W"
    and fin: "finite (dom (ls_objs s))" and loaded: "(followed s acc)\<^sup>* `` {root} \<subseteq> dom (ls_objs s)"
  shows "walk_inv s acc root n prev N Q \<Longrightarrow> \<exists>W. completes T s acc root (prev @ N) (Q @ concat (map (pushes s acc) N)) W"
proof (induction Q)
  case Nil
  then show ?case using last by simp
next
  case (Cons x Q)
  show ?case
  proof (cases "x \<in> set (prev @ N)")
    case True
    with Cons walk_inv_skip have "\<exists>W. completes T s acc root (prev @ N) (Q @ concat (map (pushes s acc) N)) W" by blast
    with True completes_skip show ?thesis by (metis append_Cons)
  next
    case False
    have "(root, x) \<in> (followed s acc)\<^sup>*" using Cons.prems by (auto simp: walk_inv_def Let_def dest: relpow_imp_rtrancl)
    then have x: "x \<in> dom (ls_objs s)" using loaded by blast
    have "card (dom (ls_objs s) - set (prev @ N @ [x])) < card (dom (ls_objs s) - set (prev @ N))"
      using x False fin by (intro psubset_card_mono) auto
    from deeper[OF this walk_inv_visit[OF Cons.prems False]] obtain W where
      "completes T s acc root ((prev @ N) @ [x]) ((Q @ concat (map (pushes s acc) N)) @ pushes s acc x) W" by auto
    from completes_visit[OF False x this] show ?thesis by auto
  qed
qed

lemma walk_completes:
  assumes fin: "finite (dom (ls_objs s))" and loaded: "(followed s acc)\<^sup>* `` {root} \<subseteq> dom (ls_objs s)"
  shows "walk_inv s acc root n prev N Q \<Longrightarrow> \<exists>W. completes T s acc root (prev @ N) (Q @ concat (map (pushes s acc) N)) W"
proof (induction "card (dom (ls_objs s) - set (prev @ N))" arbitrary: n prev N Q rule: less_induct)
  case less
  show ?case
  proof (rule walk_layer[OF less.hyps _ fin loaded less.prems])
    assume inv: "walk_inv s acc root n prev N []"
    have "\<exists>W. completes T s acc root ((prev @ N) @ []) (concat (map (pushes s acc) N) @ concat (map (pushes s acc) [])) W"
    proof (rule walk_layer[OF less.hyps _ fin loaded walk_inv_layer[OF inv]])
      assume "walk_inv s acc root (Suc n) (prev @ N) [] []"
      from completes_done[OF this] show "\<exists>W. completes T s acc root ((prev @ N) @ []) (concat (map (pushes s acc) [])) W" by auto
    qed auto
    then show "\<exists>W. completes T s acc root (prev @ N) (concat (map (pushes s acc) N)) W" by simp
  qed
qed

lemma walk_bfs:
  assumes "links_ok s" and "root \<in> dom (ls_objs s)"
  shows "\<exists>V. bfs_order (followed s acc) root V \<and> (\<forall>J (action :: 'a walk_action) a. agrees J acc action \<longrightarrow> J a \<longrightarrow>
    walk_dependencies_tree s root action a = visit_all action V a)"
proof -
  have "x \<in> dom (ls_objs s)" if "(root, x) \<in> (followed s acc)\<^sup>*" for x using that
    by (induction rule: rtrancl_induct) (use assms kids_dom in \<open>auto simp: followed_def\<close>)
  then have loaded: "(followed s acc)\<^sup>* `` {root} \<subseteq> dom (ls_objs s)" by blast
  have fin: "finite (dom (ls_objs s))" using assms(1) by (simp add: links_ok_def)
  from walk_completes[OF fin loaded walk_inv_start, where T = "TYPE('a)"] show ?thesis
    by (auto simp: completes_def walk_dependencies_tree_def)
qed

section \<open>Lookup through a handle\<close>

text \<open>Over the objects of a list, the first one that answers with a symbol or not at all.\<close>

fun first_answer :: "lstate \<Rightarrow> ns_id \<Rightarrow> cstring \<Rightarrow> version_info option \<Rightarrow> so_id list \<Rightarrow> (link_error + (so_id \<times> u32) option) option" where
  "first_answer s ns name vi [] = Some (Inr None)"
| "first_answer s ns name vi (si # sis) =
     (if is_accessible s ns si \<noteq> Inr True then first_answer s ns name vi sis
      else case find_in s name vi si of
        None \<Rightarrow> None
      | Some (Inl e) \<Rightarrow> Some (Inl e)
      | Some (Inr (ok, sym_index)) \<Rightarrow>
          if \<not> ok then Some (Inr None)
          else (case sym_index of Some n \<Rightarrow> Some (Inr (Some (si, n))) | None \<Rightarrow> first_answer s ns name vi sis))"

lemma any_in_namespace_loaded: "set ps \<subseteq> dom (ls_objs s) \<Longrightarrow> \<exists>b. any_in_namespace s ns ps = Inr b"
  by (induction ps) (auto simp: deref_def)

lemma is_accessible_loaded: "links_ok s \<Longrightarrow> si \<in> dom (ls_objs s) \<Longrightarrow> \<exists>b. is_accessible s ns si = Inr b"
  using any_in_namespace_loaded links_obj(4) by (fastforce simp: is_accessible_def deref_def)

lemma dlsym_action_answer:
  assumes "is_accessible s ns si = Inr b"
  shows "dlsym_action s ns None name vi si (False, r) =
    (if \<not> b then Some (Inr (kWalkSkip, (False, r)))
     else case find_in s name vi si of
       None \<Rightarrow> None
     | Some (Inl e) \<Rightarrow> Some (Inl e)
     | Some (Inr (ok, sym_index)) \<Rightarrow>
         Some (Inr (if \<not> ok then (kWalkStop, (False, None))
           else case sym_index of Some n \<Rightarrow> (kWalkStop, (False, Some (si, n))) | None \<Rightarrow> (kWalkContinue, (False, r)))))"
  using assms by (auto simp: dlsym_action_def split: option.splits sum.splits)

lemma dlsym_action_agrees:
  "agrees (\<lambda>st. st = (False, None)) (\<lambda>si. is_accessible s ns si = Inr True) (dlsym_action s ns None name vi)"
  unfolding agrees_def
proof (intro allI impI)
  fix si st q assume st: "st = (False, None)" and q: "dlsym_action s ns None name vi si st = Some (Inr q)"
  obtain b where b: "is_accessible s ns si = Inr b"
    using q st by (cases "is_accessible s ns si") (auto simp: dlsym_action_def)
  show "fst q = kWalkStop \<or> snd q = (False, None) \<and> fst q = (if is_accessible s ns si = Inr True then kWalkContinue else kWalkSkip)"
    using q unfolding st dlsym_action_answer[OF b] b by (auto split: option.splits sum.splits if_splits)
qed

lemma visit_all_dlsym:
  "(\<And>si. si \<in> set V \<Longrightarrow> \<exists>b. is_accessible s ns si = Inr b) \<Longrightarrow>
   map_option (\<lambda>r. try_then r (\<lambda>(completed, st). Inr (snd st))) (visit_all (dlsym_action s ns None name vi) V (False, None)) =
     first_answer s ns name vi V"
proof (induction V)
  case (Cons si V)
  then obtain b where b: "is_accessible s ns si = Inr b" by force
  have rest: "map_option (\<lambda>r. try_then r (\<lambda>(completed, st). Inr (snd st))) (visit_all (dlsym_action s ns None name vi) V (False, None)) =
      first_answer s ns name vi V" using Cons by simp
  show ?case
  proof (cases "b \<and> (\<exists>ok i. find_in s name vi si = Some (Inr (ok, i)))")
    case True
    then obtain ok i where "b" "find_in s name vi si = Some (Inr (ok, i))" by blast
    then show ?thesis using rest by (cases i) (simp_all add: dlsym_action_answer[OF b] b)
  next
    case False
    then show ?thesis using rest
      by (cases "find_in s name vi si") (auto simp: dlsym_action_answer[OF b] b split: sum.splits)
  qed
qed simp

section \<open>Properties\<close>

text \<open>
  C11: The walk over the dependencies of a loaded object always returns if its action does, and calls
  the action on each object once, in breadth-first order: all objects reachable through objects that
  are not skipped, by growing distance from the root, until the action stops it.
\<close>

theorem walk_is_breadth_first:
  assumes "links_ok s" and "root \<in> dom (ls_objs s)"
  shows "\<exists>V. distinct V \<and> set V = (followed s acc)\<^sup>* `` {root} \<and> sorted (map (distance (followed s acc) root) V) \<and>
    (\<forall>J (action :: 'a walk_action) a. agrees J acc action \<longrightarrow> J a \<longrightarrow>
       walk_dependencies_tree s root action a = visit_all action V a)"
  using walk_bfs[OF assms, of acc] unfolding bfs_order_def conj_assoc .

theorem walk_is_breadth_first_witness:
  "\<exists>V. distinct V \<and> set V = {1, 2, 3} \<and>
    walk_dependencies_tree two_groups 1 (\<lambda>si a. Some (Inr (kWalkContinue, a @ [si]))) [] = Some (Inr (True, V))"
proof -
  let ?f = "followed two_groups (\<lambda>i. True)" and ?collect = "\<lambda>si a. Some (Inr (kWalkContinue, a @ [si]))"
  have ok: "links_ok two_groups" "1 \<in> dom (ls_objs two_groups)" using two_groups_ok by (simp_all add: linker_ok_def two_groups_graph)
  from walk_is_breadth_first[OF ok, of "\<lambda>i. True"] obtain V where V: "distinct V \<and> set V = ?f\<^sup>* `` {1} \<and> sorted (map (distance ?f 1) V) \<and>
    (\<forall>J action (a :: so_id list). agrees J (\<lambda>i. True) action \<longrightarrow> J a \<longrightarrow> walk_dependencies_tree two_groups 1 action a = visit_all action V a)"
    by (rule exE)
  have ag: "agrees (\<lambda>a. True) (\<lambda>i. True) ?collect" by (simp add: agrees_def)
  have visit: "visit_all ?collect V a = Some (Inr (True, a @ V))" for V a by (induction V arbitrary: a) simp_all
  have f: "?f = {(1, 2), (1, 3), (2, 3)}" using two_groups_needs by (simp add: followed_def needs_def)
  have "?f\<^sup>* `` {1} = {1, 2, 3}"
  proof
    have "x \<in> {1, 2, 3}" if "(1, x) \<in> ?f\<^sup>*" for x using that by (induction rule: rtrancl_induct) (auto simp: f)
    then show "?f\<^sup>* `` {1} \<subseteq> {1, 2, 3}" by blast
    show "{1, 2, 3} \<subseteq> ?f\<^sup>* `` {1}" by (auto simp: f)
  qed
  moreover have "walk_dependencies_tree two_groups 1 ?collect [] = visit_all ?collect V []"
    using V[THEN conjunct2, THEN conjunct2, THEN conjunct2, rule_format, OF ag] by simp
  ultimately show ?thesis using V visit[of V "[]"] by auto
qed

text \<open>
  C20: A symbol is looked up through a handle in the objects that are accessible from the namespace
  of the handle's object, in breadth-first order of its dependencies: the first that has the symbol
  gives the answer, and an object that cannot be accessed hides what only it needs.
\<close>

theorem dlsym_handle_breadth_first:
  assumes "links_ok s" and "ls_objs s si = Some x" and "si_primary_namespace x = Some ns" and "si \<noteq> solist_get_somain"
  shows "\<exists>V. bfs_order (followed s (\<lambda>i. is_accessible s ns i = Inr True)) si V \<and>
    dlsym_handle_lookup s si name vi = first_answer s ns name vi V"
proof -
  let ?acc = "\<lambda>i. is_accessible s ns i = Inr True"
  have "si \<in> dom (ls_objs s)" using assms(2) by (rule domI)
  from walk_bfs[OF assms(1) this, of ?acc] obtain V where walk: "bfs_order (followed s ?acc) si V \<and>
    (\<forall>J action (a :: bool \<times> (so_id \<times> u32) option). agrees J ?acc action \<longrightarrow> J a \<longrightarrow> walk_dependencies_tree s si action a = visit_all action V a)"
    by (rule exE)
  have V: "bfs_order (followed s ?acc) si V"
    "walk_dependencies_tree s si (dlsym_action s ns None name vi) (False, None) = visit_all (dlsym_action s ns None name vi) V (False, None)"
    using walk[THEN conjunct1] walk[THEN conjunct2, rule_format, OF dlsym_action_agrees] by simp_all
  have "i \<in> dom (ls_objs s)" if "(si, i) \<in> (followed s ?acc)\<^sup>*" for i using that
    by (induction rule: rtrancl_induct) (use assms kids_dom in \<open>auto simp: followed_def\<close>)
  then have "\<exists>b. is_accessible s ns i = Inr b" if "i \<in> set V" for i
    using that V(1) is_accessible_loaded[OF assms(1)] by (auto simp: bfs_order_def)
  from visit_all_dlsym[OF this] V have "dlsym_handle_lookup_ns s ns si None name vi = first_answer s ns name vi V"
    by (simp add: dlsym_handle_lookup_ns_def)
  then show ?thesis using V(1) assms by (auto simp: dlsym_handle_lookup_def deref_Some)
qed

theorem dlsym_handle_breadth_first_witness:
  "dlsym_handle_lookup two_groups 1 sym_g None = Some (Inr (Some (1, 2)))"
proof -
  let ?E = "followed two_groups (\<lambda>i. is_accessible two_groups 0 i = Inr True)"
  have ok: "links_ok two_groups" using two_groups_ok by (simp add: linker_ok_def)
  have x: "ls_objs two_groups 1 = Some (lib_obj 1 [2, 3] [] 1 11)" by (simp add: two_groups_objs)
  have ns: "si_primary_namespace (lib_obj 1 [2, 3] [] 1 11) = Some 0" "in_namespace 0 (lib_obj 1 [2, 3] [] 1 11)" by (simp_all add: lib_obj_sel)
  have "(1::so_id) \<noteq> solist_get_somain" by (simp add: solist_get_somain_def)
  from dlsym_handle_breadth_first[OF ok x ns(1) this, of sym_g None] obtain V where V: "bfs_order ?E 1 V"
    "dlsym_handle_lookup two_groups 1 sym_g None = first_answer two_groups 0 sym_g None V" by blast
  obtain rest where "V = 1 # rest" using bfs_order_root[OF V(1)] by blast
  moreover have "is_accessible two_groups 0 1 = Inr True" using x ns by (simp add: is_accessible_def deref_Some)
  moreover have "find_in two_groups sym_g None 1 = Some (Inr (True, Some 2))"
    using x demo_lookup_g by (simp add: find_in_def deref_Some lib_obj_def)
  ultimately show ?thesis using V(2) by simp
qed

end
