(* ===== verification/Linker_Init.thy ===== *)
theory Linker_Init
  imports Linker_Unload
begin

text \<open>
  The constructors of loaded objects (\<open>soinfo::call_constructors\<close> in \<open>q/linker_soinfo.cpp\<close>).  The depth of
  the recursion is bounded by fuel, and one more than the number of objects whose constructors have not
  been called is enough; the constructors themselves are recorded, not run.
\<close>

section \<open>Definitions\<close>

definition ctor_calls :: "soinfo \<Rightarrow> u64 list" where
  "ctor_calls x = call_function (si_init_func x) @ call_array (si_init_array x) False"

definition is_libc :: "soinfo \<Rightarrow> bool" where
  "is_libc x \<longleftrightarrow> si_soname x = Some ''libc.so''"

definition call_pre_init_constructors :: "so_id \<Rightarrow> lstate \<Rightarrow> link_error + lstate" where
  "call_pre_init_constructors si s =
     try_then (deref s si) (\<lambda>x. Inr (emit (map (CallCtor si) (call_array (si_preinit_array x) False)) s))"

text \<open>
  \<open>properties_init\<close> is the address that \<open>android_dlsym\<close> gives for \<open>__system_properties_init\<close> in an object, zero
  if it has none.
\<close>

fun call_constructors :: "(so_id \<Rightarrow> u64) \<Rightarrow> nat \<Rightarrow> so_id \<Rightarrow> lstate \<Rightarrow> (link_error + lstate) option"
  and call_children :: "(so_id \<Rightarrow> u64) \<Rightarrow> nat \<Rightarrow> so_id list \<Rightarrow> lstate \<Rightarrow> (link_error + lstate) option" where
  "call_constructors properties_init 0 si s = None"
| "call_constructors properties_init (Suc n) si s =
     (case deref s si of
        Inl e \<Rightarrow> Some (Inl e)
      | Inr x \<Rightarrow>
          if si_constructors_called x then Some (Inr s)
          else
            let s1 = s\<lparr>ls_objs := (ls_objs s)(si \<mapsto> x\<lparr>si_constructors_called := True\<rparr>)\<rparr>
            in if is_libc x
               then Some (if properties_init si = 0 then Inl Fatal else Inr (emit [PropertiesInit] s1))
               else (case call_children properties_init n (si_children x) s1 of
                       None \<Rightarrow> None
                     | Some r \<Rightarrow> Some (try_then r (\<lambda>s2. Inr (emit (map (CallCtor si) (ctor_calls x)) s2)))))"
| "call_children properties_init n [] s = Some (Inr s)"
| "call_children properties_init n (c # cs) s =
     (case call_constructors properties_init n c s of
        None \<Rightarrow> None
      | Some (Inl e) \<Rightarrow> Some (Inl e)
      | Some (Inr s1) \<Rightarrow> call_children properties_init n cs s1)"

section \<open>The order of the calls\<close>

definition called :: "lstate \<Rightarrow> so_id set" where
  "called s = {i. \<exists>x. ls_objs s i = Some x \<and> si_constructors_called x}"

definition libc_objs :: "lstate \<Rightarrow> so_id set" where
  "libc_objs s = {i. \<exists>x. ls_objs s i = Some x \<and> is_libc x}"

definition marked :: "lstate \<Rightarrow> so_id set \<Rightarrow> lstate" where
  "marked s M = s\<lparr>ls_objs := \<lambda>i. if i \<in> M then map_option (\<lambda>x. x\<lparr>si_constructors_called := True\<rparr>) (ls_objs s i) else ls_objs s i\<rparr>"

definition ctor_block :: "lstate \<Rightarrow> so_id \<Rightarrow> link_event list" where
  "ctor_block s i =
     (case ls_objs s i of
        None \<Rightarrow> []
      | Some x \<Rightarrow> if is_libc x then [PropertiesInit] else map (CallCtor i) (ctor_calls x))"

text \<open>The dependencies that are followed: those of objects that are not initialised yet, except of \<open>libc\<close>.\<close>

definition init_edges :: "lstate \<Rightarrow> so_id rel" where
  "init_edges s = {(p, c). p \<notin> called s \<and> p \<notin> libc_objs s \<and> c \<in> set (kids s p)}"

text \<open>
  \<open>L\<close> is an order in which the objects that \<open>R\<close> leads to can be initialised: each child of an object comes
  before it, unless it had been initialised or leads back to the object.
\<close>

definition init_order :: "lstate \<Rightarrow> so_id set \<Rightarrow> so_id list \<Rightarrow> bool" where
  "init_order s R L \<longleftrightarrow> distinct L \<and> set L \<subseteq> dom (ls_objs s) - called s \<and> R \<subseteq> called s \<union> set L \<and>
     (\<forall>x \<in> set L. \<exists>r \<in> R. (r, x) \<in> (init_edges s)\<^sup>*) \<and>
     (\<forall>x c. x \<in> set L \<longrightarrow> (x, c) \<in> init_edges s \<longrightarrow> c \<in> called s \<union> set L) \<and>
     (\<forall>j < length L. \<forall>c. (L ! j, c) \<in> init_edges s \<longrightarrow> c \<in> called s \<union> set (take j L) \<or> (c, L ! j) \<in> (init_edges s)\<^sup>*)"

lemma marked_obj: "ls_objs (marked s M) i = (if i \<in> M then map_option (\<lambda>x. x\<lparr>si_constructors_called := True\<rparr>) (ls_objs s i) else ls_objs s i)"
  by (simp add: marked_def)

lemma marked_kids: "kids (marked s M) = kids s"
  by (auto simp: kids_def marked_obj fun_eq_iff split: option.splits)

lemma marked_dom: "dom (ls_objs (marked s M)) = dom (ls_objs s)"
  by (auto simp: marked_obj split: if_splits)

lemma marked_called: "M \<subseteq> dom (ls_objs s) \<Longrightarrow> called (marked s M) = called s \<union> M"
  by (auto simp: called_def marked_obj split: if_splits)

lemma marked_libc: "libc_objs (marked s M) = libc_objs s"
  by (auto simp: libc_objs_def marked_obj is_libc_def split: if_splits)

lemma marked_block: "ctor_block (marked s M) = ctor_block s"
  by (auto simp: ctor_block_def marked_obj is_libc_def ctor_calls_def fun_eq_iff split: option.splits)

lemma marked_marked: "marked (marked s M) N = marked s (M \<union> N)"
proof -
  have "ls_objs (marked (marked s M) N) i = ls_objs (marked s (M \<union> N)) i" for i
    by (cases "ls_objs s i") (simp_all add: marked_obj)
  then show ?thesis by (simp add: marked_def fun_eq_iff)
qed

lemma marked_none: "marked s {} = s"
  by (simp add: marked_def)

lemma emit_marked: "marked (emit es s) M = emit es (marked s M)"
  by (intro lstate.equality) (simp_all add: marked_def emit_def fun_eq_iff)

lemma emit_init [simp]: "called (emit es s) = called s" "libc_objs (emit es s) = libc_objs s" "ctor_block (emit es s) = ctor_block s"
  by (simp_all add: called_def libc_objs_def ctor_block_def fun_eq_iff)

lemma init_edges_marked: "M \<subseteq> dom (ls_objs s) \<Longrightarrow> init_edges (marked s M) = init_edges s \<inter> {(p, c). p \<notin> M}"
  by (auto simp: init_edges_def marked_called marked_libc marked_kids)

lemma init_orderI:
  assumes "distinct L" "set L \<subseteq> dom (ls_objs s) - called s" "R \<subseteq> called s \<union> set L"
    and "\<And>x. x \<in> set L \<Longrightarrow> \<exists>r \<in> R. (r, x) \<in> (init_edges s)\<^sup>*"
    and "\<And>x c. x \<in> set L \<Longrightarrow> (x, c) \<in> init_edges s \<Longrightarrow> c \<in> called s \<union> set L"
    and "\<And>j c. j < length L \<Longrightarrow> (L ! j, c) \<in> init_edges s \<Longrightarrow> c \<in> called s \<union> set (take j L) \<or> (c, L ! j) \<in> (init_edges s)\<^sup>*"
  shows "init_order s R L"
  using assms unfolding init_order_def by blast

lemma init_order_new: "init_order s R L \<Longrightarrow> distinct L \<and> set L \<subseteq> dom (ls_objs s) - called s \<and> R \<subseteq> called s \<union> set L"
  by (simp add: init_order_def)

lemma init_order_reach:
  assumes "init_order s R L" "x \<in> set L"
  obtains r where "r \<in> R" "(r, x) \<in> (init_edges s)\<^sup>*"
  using assms unfolding init_order_def by blast

lemma init_order_closed: "init_order s R L \<Longrightarrow> x \<in> set L \<Longrightarrow> (x, c) \<in> init_edges s \<Longrightarrow> c \<in> called s \<union> set L"
  unfolding init_order_def by blast

lemma init_order_before:
  "init_order s R L \<Longrightarrow> j < length L \<Longrightarrow> (L ! j, c) \<in> init_edges s \<Longrightarrow> c \<in> called s \<union> set (take j L) \<or> (c, L ! j) \<in> (init_edges s)\<^sup>*"
  unfolding init_order_def by blast

lemma init_order_emit [simp]: "init_order (emit es s) R L = init_order s R L"
  by (simp add: init_order_def init_edges_def)

lemma init_order_called: "si \<in> called s \<Longrightarrow> init_order s {si} []"
  by (simp add: init_order_def)

lemma init_order_libc: "si \<in> dom (ls_objs s) - called s \<Longrightarrow> si \<in> libc_objs s \<Longrightarrow> init_order s {si} [si]"
  by (auto simp: init_order_def init_edges_def)

lemma init_order_append:
  assumes L1: "init_order s R1 L1" and L2: "init_order (marked s (set L1)) R2 L2"
  shows "init_order s (R1 \<union> R2) (L1 @ L2)"
proof -
  let ?E = "init_edges s" and ?s1 = "marked s (set L1)"
  have dom: "set L1 \<subseteq> dom (ls_objs s)" using init_order_new[OF L1] by blast
  have E1: "init_edges ?s1 = ?E \<inter> {(p, c). p \<notin> set L1}" by (rule init_edges_marked[OF dom])
  then have sub: "(init_edges ?s1)\<^sup>* \<subseteq> ?E\<^sup>*" by (intro rtrancl_mono) blast
  have called: "called ?s1 = called s \<union> set L1" by (rule marked_called[OF dom])
  have new: "distinct L2" "set L2 \<subseteq> dom (ls_objs s) - called s - set L1" "R2 \<subseteq> called s \<union> set L1 \<union> set L2"
    using init_order_new[OF L2] unfolding called marked_dom by blast+
  have reach: "\<exists>r \<in> R1 \<union> R2. (r, x) \<in> ?E\<^sup>*" if x: "x \<in> set (L1 @ L2)" for x
  proof (cases "x \<in> set L1")
    case True
    then show ?thesis by (rule init_order_reach[OF L1]) blast
  next
    case False
    then have "x \<in> set L2" using x by simp
    then obtain r where "r \<in> R2" "(r, x) \<in> (init_edges ?s1)\<^sup>*" by (rule init_order_reach[OF L2])
    then show ?thesis using sub by blast
  qed
  have closed: "c \<in> called s \<union> set (L1 @ L2)" if x: "x \<in> set (L1 @ L2)" "(x, c) \<in> ?E" for x c
  proof (cases "x \<in> set L1")
    case True
    then show ?thesis using init_order_closed[OF L1 True x(2)] by auto
  next
    case False
    then have "x \<in> set L2" "(x, c) \<in> init_edges ?s1" using x E1 by auto
    then show ?thesis using init_order_closed[OF L2] unfolding called by fastforce
  qed
  have order: "c \<in> called s \<union> set (take j (L1 @ L2)) \<or> (c, (L1 @ L2) ! j) \<in> ?E\<^sup>*"
    if j: "j < length (L1 @ L2)" "((L1 @ L2) ! j, c) \<in> ?E" for j c
  proof (cases "j < length L1")
    case True
    then show ?thesis using j(2) init_order_before[OF L1 True] by (simp add: nth_append)
  next
    case False
    define k where "k = j - length L1"
    have k: "k < length L2" "(L1 @ L2) ! j = L2 ! k" "take j (L1 @ L2) = L1 @ take k L2" using j False by (auto simp: k_def nth_append)
    then have "L2 ! k \<notin> set L1" using new nth_mem[OF k(1)] by blast
    then have "(L2 ! k, c) \<in> init_edges ?s1" using j(2) k(2) E1 by auto
    from init_order_before[OF L2 k(1) this] show ?thesis using sub unfolding called k(2,3) by auto
  qed
  have "distinct (L1 @ L2)" "set (L1 @ L2) \<subseteq> dom (ls_objs s) - called s" "R1 \<union> R2 \<subseteq> called s \<union> set (L1 @ L2)"
    using init_order_new[OF L1] new by auto
  then show ?thesis by (rule init_orderI) (use reach closed order in blast)+
qed

lemma init_order_node:
  assumes si: "si \<in> dom (ls_objs s) - called s" "si \<notin> libc_objs s" and L: "init_order (marked s {si}) (set (kids s si)) L"
  shows "init_order s {si} (L @ [si])"
proof -
  let ?E = "init_edges s" and ?s1 = "marked s {si}"
  have E1: "init_edges ?s1 = ?E \<inter> {(p, c). p \<noteq> si}" using init_edges_marked[of "{si}" s] si by auto
  then have sub: "(init_edges ?s1)\<^sup>* \<subseteq> ?E\<^sup>*" by (intro rtrancl_mono) blast
  have called: "called ?s1 = insert si (called s)" using marked_called[of "{si}" s] si by auto
  have new: "distinct L" "set L \<subseteq> dom (ls_objs s) - called s" "si \<notin> set L" "set (kids s si) \<subseteq> insert si (called s) \<union> set L"
    using init_order_new[OF L] unfolding called marked_dom by blast+
  have edge: "(si, c) \<in> ?E \<longleftrightarrow> c \<in> set (kids s si)" for c using si by (simp add: init_edges_def)
  have reach: "(si, x) \<in> ?E\<^sup>*" if "x \<in> set (L @ [si])" for x
  proof (cases "x = si")
    case False
    then have "x \<in> set L" using that by simp
    then obtain k where "k \<in> set (kids s si)" "(k, x) \<in> (init_edges ?s1)\<^sup>*" by (rule init_order_reach[OF L])
    then show ?thesis using sub edge by (meson converse_rtrancl_into_rtrancl subsetD)
  qed simp
  have closed: "c \<in> called s \<union> set (L @ [si])" if x: "x \<in> set (L @ [si])" "(x, c) \<in> ?E" for x c
  proof (cases "x = si")
    case True
    then show ?thesis using x(2) edge new(4) by auto
  next
    case False
    then have "x \<in> set L" "(x, c) \<in> init_edges ?s1" using x E1 by auto
    then show ?thesis using init_order_closed[OF L] unfolding called by fastforce
  qed
  have order: "c \<in> called s \<union> set (take j (L @ [si])) \<or> (c, (L @ [si]) ! j) \<in> ?E\<^sup>*"
    if j: "j < length (L @ [si])" "((L @ [si]) ! j, c) \<in> ?E" for j c
  proof (cases "j < length L")
    case True
    then have eq: "(L @ [si]) ! j = L ! j" "take j (L @ [si]) = take j L" by (simp_all add: nth_append)
    have mem: "L ! j \<in> set L" using True by simp
    then have "(L ! j, c) \<in> init_edges ?s1" using j(2) eq E1 new(3) by auto
    from init_order_before[OF L True this] show ?thesis using sub reach[of "L ! j"] mem unfolding called eq by auto
  next
    case False
    then have "(L @ [si]) ! j = si" "take j (L @ [si]) = L" using j(1) by (auto simp: nth_append less_Suc_eq)
    then show ?thesis using j(2) edge new(4) by auto
  qed
  have "distinct (L @ [si])" "set (L @ [si]) \<subseteq> dom (ls_objs s) - called s" "{si} \<subseteq> called s \<union> set (L @ [si])"
    using si new by auto
  then show ?thesis by (rule init_orderI) (use reach closed order in blast)+
qed

section \<open>Every object is initialised once\<close>

text \<open>The answer of a call that initialises what \<open>R\<close> leads to.\<close>

definition initialises :: "lstate \<Rightarrow> so_id set \<Rightarrow> (link_error + lstate) option \<Rightarrow> bool" where
  "initialises s R r \<longleftrightarrow>
     (\<exists>L. r = Some (Inr (emit (concat (map (ctor_block s) L)) (marked s (set L)))) \<and> init_order s R L)"

text \<open>The states in which constructors can run: all children are loaded, and \<open>libc\<close> has its initialiser.\<close>

definition init_ready :: "(so_id \<Rightarrow> u64) \<Rightarrow> lstate \<Rightarrow> bool" where
  "init_ready p s \<longleftrightarrow> finite (dom (ls_objs s)) \<and> (\<forall>i. set (kids s i) \<subseteq> dom (ls_objs s)) \<and> (\<forall>i \<in> libc_objs s. p i \<noteq> 0)"

definition uncalled :: "lstate \<Rightarrow> nat" where
  "uncalled s = card (dom (ls_objs s) - called s)"

lemma init_ready_marked: "init_ready p (emit es (marked s M)) = init_ready p s"
  by (simp add: init_ready_def marked_dom marked_kids marked_libc)

lemma uncalled_marked:
  assumes "finite (dom (ls_objs s))" "M \<subseteq> dom (ls_objs s)"
  shows "uncalled (emit es (marked s M)) \<le> uncalled s"
  unfolding uncalled_def using assms by (auto simp: marked_dom marked_called intro!: card_mono)

lemma uncalled_marked_new:
  assumes "finite (dom (ls_objs s))" "si \<in> dom (ls_objs s) - called s"
  shows "uncalled (marked s {si}) < uncalled s"
proof -
  have "dom (ls_objs s) - called (marked s {si}) = dom (ls_objs s) - called s - {si}"
    using assms(2) by (auto simp: marked_called)
  then show ?thesis unfolding uncalled_def marked_dom using card_Diff1_less[of "dom (ls_objs s) - called s" si] assms by simp
qed

lemma initialises_append:
  assumes L1: "init_order s R1 L1"
    and L2: "initialises (emit (concat (map (ctor_block s) L1)) (marked s (set L1))) R2 r"
  shows "initialises s (R1 \<union> R2) r"
proof -
  obtain L2 where L2': "r = Some (Inr (emit (concat (map (ctor_block s) L2)) (emit (concat (map (ctor_block s) L1)) (marked s (set L1 \<union> set L2)))))"
    and ord: "init_order (marked s (set L1)) R2 L2"
    using L2 unfolding initialises_def by (auto simp: marked_block emit_marked marked_marked)
  then have "r = Some (Inr (emit (concat (map (ctor_block s) (L1 @ L2))) (marked s (set (L1 @ L2)))))"
    by (simp add: emit_emit)
  then show ?thesis unfolding initialises_def using init_order_append[OF L1 ord] by blast
qed

lemma call_children_initialises:
  assumes IH: "\<And>si s. init_ready p s \<Longrightarrow> uncalled s < n \<Longrightarrow> si \<in> dom (ls_objs s) \<Longrightarrow> initialises s {si} (call_constructors p n si s)"
  shows "init_ready p s \<Longrightarrow> uncalled s < n \<Longrightarrow> set cs \<subseteq> dom (ls_objs s) \<Longrightarrow> initialises s (set cs) (call_children p n cs s)"
proof (induction cs arbitrary: s)
  case Nil
  have "emit [] s = s" by (simp add: emit_def)
  then show ?case unfolding initialises_def by (intro exI[of _ "[]"]) (simp add: marked_none init_order_def)
next
  case (Cons c cs)
  obtain L where L: "call_constructors p n c s = Some (Inr (emit (concat (map (ctor_block s) L)) (marked s (set L))))" "init_order s {c} L"
    using IH[of s c] Cons.prems unfolding initialises_def by auto
  let ?s1 = "emit (concat (map (ctor_block s) L)) (marked s (set L))"
  have dom: "set L \<subseteq> dom (ls_objs s)" "finite (dom (ls_objs s))"
    using init_order_new[OF L(2)] Cons.prems(1) by (auto simp: init_ready_def)
  have "initialises ?s1 (set cs) (call_children p n cs ?s1)"
  proof (rule Cons.IH)
    show "init_ready p ?s1" using Cons.prems(1) by (simp add: init_ready_marked)
    show "uncalled ?s1 < n" using uncalled_marked[OF dom(2,1)] Cons.prems(2) by (rule le_less_trans)
    show "set cs \<subseteq> dom (ls_objs ?s1)" using Cons.prems(3) by (simp add: marked_dom)
  qed
  from initialises_append[OF L(2) this] show ?case using L(1) by simp
qed

lemma initialises_node:
  assumes si: "ls_objs s si = Some x" "si \<notin> called s" "\<not> is_libc x"
    and r: "initialises (marked s {si}) (set (si_children x)) r"
  shows "initialises s {si}
    (case r of None \<Rightarrow> None | Some r \<Rightarrow> Some (try_then r (\<lambda>s2. Inr (emit (map (CallCtor si) (ctor_calls x)) s2))))"
proof -
  obtain L where L: "r = Some (Inr (emit (concat (map (ctor_block s) L)) (marked s (insert si (set L)))))"
    "init_order (marked s {si}) (set (si_children x)) L"
    using r unfolding initialises_def by (auto simp: marked_block marked_marked)
  have "ctor_block s si = map (CallCtor si) (ctor_calls x)" using si by (simp add: ctor_block_def)
  moreover have "init_order s {si} (L @ [si])"
  proof (rule init_order_node)
    show "si \<in> dom (ls_objs s) - called s" "si \<notin> libc_objs s" using si by (auto simp: libc_objs_def)
    show "init_order (marked s {si}) (set (kids s si)) L" using L(2) si(1) by (simp add: kids_def)
  qed
  ultimately show ?thesis unfolding initialises_def using L(1) by (intro exI[of _ "L @ [si]"]) (simp add: emit_emit)
qed

lemma marked_single: "ls_objs s si = Some x \<Longrightarrow> s\<lparr>ls_objs := (ls_objs s)(si \<mapsto> x\<lparr>si_constructors_called := True\<rparr>)\<rparr> = marked s {si}"
  unfolding marked_def by (rule objs_cong) simp

lemma call_constructors_initialises:
  "init_ready p s \<Longrightarrow> uncalled s < n \<Longrightarrow> si \<in> dom (ls_objs s) \<Longrightarrow> initialises s {si} (call_constructors p n si s)"
proof (induction n arbitrary: si s)
  case (Suc n)
  then obtain x where x: "ls_objs s si = Some x" by blast
  note run = deref_Some[OF x] marked_single[OF x] Let_def
  show ?case
  proof (cases "si_constructors_called x")
    case True
    then have "si \<in> called s" using x by (auto simp: called_def)
    moreover have "emit [] s = s" by (simp add: emit_def)
    ultimately show ?thesis unfolding initialises_def
      by (intro exI[of _ "[]"]) (simp add: run True marked_none init_order_called)
  next
    case new: False
    then have si: "si \<in> dom (ls_objs s) - called s" using x by (auto simp: called_def)
    show ?thesis
    proof (cases "is_libc x")
      case True
      then have libc: "si \<in> libc_objs s" using x by (auto simp: libc_objs_def)
      then have "p si \<noteq> 0" using Suc.prems(1) by (simp add: init_ready_def)
      then show ?thesis unfolding initialises_def
        by (intro exI[of _ "[si]"]) (simp add: run new True ctor_block_def x init_order_libc[OF si libc])
    next
      case False
      have "init_ready p (marked s {si})" using Suc.prems(1) init_ready_marked[of p "[]" s "{si}"] by (simp add: init_ready_def)
      moreover have "uncalled (marked s {si}) < n"
        using uncalled_marked_new[OF _ si] Suc.prems(1,2) by (auto simp: init_ready_def)
      moreover have "set (kids s si) \<subseteq> dom (ls_objs s)" using Suc.prems(1) unfolding init_ready_def by blast
      then have "set (si_children x) \<subseteq> dom (ls_objs (marked s {si}))" using x by (simp add: kids_def marked_dom)
      ultimately have "initialises (marked s {si}) (set (si_children x)) (call_children p n (si_children x) (marked s {si}))"
        using call_children_initialises[of p n "marked s {si}" "si_children x"] Suc.IH by blast
      from initialises_node[OF x _ False this] show ?thesis using si by (simp add: run new False)
    qed
  qed
qed simp

text \<open>What an order contains.\<close>

lemma init_order_set:
  assumes L: "init_order s {si} L"
  shows "set L = (init_edges s)\<^sup>* `` {si} - called s"
proof
  show "set L \<subseteq> (init_edges s)\<^sup>* `` {si} - called s"
    using init_order_new[OF L] init_order_reach[OF L] by blast
  have "x \<in> called s \<union> set L" if "(si, x) \<in> (init_edges s)\<^sup>*" for x
    using that
  proof (induction rule: rtrancl_induct)
    case base
    then show ?case using init_order_new[OF L] by blast
  next
    case (step y z)
    have "y \<notin> called s" using step.hyps(2) by (simp add: init_edges_def)
    then show ?case using step init_order_closed[OF L] by blast
  qed
  then show "(init_edges s)\<^sup>* `` {si} - called s \<subseteq> set L" by blast
qed

text \<open>
  C10: The constructors of an object and of all objects it depends on are called: \<open>call_constructors\<close> returns
  with recursion depth one more than the number of objects that are not initialised, it initialises exactly
  the objects reachable through objects that are not initialised and are not \<open>libc\<close>, each of them once and
  with all its constructors in one run, and the children of an object come before it unless they had been
  initialised or lead back to it.
\<close>
theorem constructors_once_children_first:
  assumes "links_ok s" "si \<in> dom (ls_objs s)" "\<forall>i \<in> libc_objs s. properties_init i \<noteq> 0"
  shows "\<exists>L. call_constructors properties_init (Suc (card (dom (ls_objs s) - called s))) si s =
        Some (Inr (emit (concat (map (ctor_block s) L)) (marked s (set L)))) \<and>
      distinct L \<and> set L = (init_edges s)\<^sup>* `` {si} - called s \<and>
      (\<forall>j < length L. \<forall>c. (L ! j, c) \<in> init_edges s \<longrightarrow> c \<in> called s \<union> set (take j L) \<or> (c, L ! j) \<in> (init_edges s)\<^sup>*)"
proof -
  have "set (kids s i) \<subseteq> dom (ls_objs s)" for i
    using links_obj(3)[OF assms(1)] by (cases "ls_objs s i") (simp_all add: kids_def)
  moreover have "finite (dom (ls_objs s))" using assms(1) by (simp add: links_ok_def)
  ultimately have "init_ready properties_init s" using assms(3) by (simp add: init_ready_def)
  moreover have "uncalled s < Suc (card (dom (ls_objs s) - called s))" by (simp add: uncalled_def)
  ultimately obtain L where L: "call_constructors properties_init (Suc (card (dom (ls_objs s) - called s))) si s =
        Some (Inr (emit (concat (map (ctor_block s) L)) (marked s (set L))))" "init_order s {si} L"
    using call_constructors_initialises[of properties_init s _ si] assms(2) unfolding initialises_def by metis
  have "distinct L" using init_order_new[OF L(2)] by blast
  then show ?thesis using L(1) init_order_set[OF L(2)] init_order_before[OF L(2)] by blast
qed

text \<open>The three libraries of \<^const>\<open>two_groups\<close> before their constructors have run.\<close>

definition fresh_libs :: lstate where
  "fresh_libs = two_groups\<lparr>ls_objs := \<lambda>i. map_option (\<lambda>x. x\<lparr>si_constructors_called := False, si_init_func := si_fini_func x\<rparr>) (ls_objs two_groups i)\<rparr>"

lemma fresh_libs_graph: "dom (ls_objs fresh_libs) = {1, 2, 3}" "kids fresh_libs = kids two_groups" "needs fresh_libs = needs two_groups"
  "pars fresh_libs = pars two_groups" "group_root fresh_libs = group_root two_groups" "called fresh_libs = {}" "libc_objs fresh_libs = {}"
proof -
  show kids: "kids fresh_libs = kids two_groups" and "pars fresh_libs = pars two_groups" and "group_root fresh_libs = group_root two_groups"
    by (auto simp: fun_eq_iff fresh_libs_def kids_def pars_def group_root_def split: option.splits)
  then show "needs fresh_libs = needs two_groups" by (simp add: needs_def)
  show "dom (ls_objs fresh_libs) = {1, 2, 3}" unfolding two_groups_graph(1)[symmetric] by (auto simp: fresh_libs_def)
  show "called fresh_libs = {}" by (auto simp: called_def fresh_libs_def)
  have "si_soname (lib_obj r cs ps n h) = None" for r cs ps n h by (simp add: lib_obj_def new_soinfo_def)
  then show "libc_objs fresh_libs = {}" by (auto simp: libc_objs_def fresh_libs_def two_groups_objs is_libc_def)
qed

lemma fresh_libs_links: "links_ok fresh_libs"
proof -
  have "links_ok two_groups" using two_groups_ok by (simp add: linker_ok_def)
  moreover have "\<exists>y. ls_objs two_groups i = Some y \<and> x = y\<lparr>si_constructors_called := False, si_init_func := si_fini_func y\<rparr>"
    if "ls_objs fresh_libs i = Some x" for i x
    using that by (auto simp: fresh_libs_def)
  ultimately show ?thesis
    unfolding links_ok_def fresh_libs_graph two_groups_graph(1) by (fastforce simp: is_linked_def)
qed

theorem constructors_once_children_first_witness:
  "\<exists>L. call_constructors (\<lambda>i. 0) 4 1 fresh_libs = Some (Inr (emit (concat (map (ctor_block fresh_libs) L)) (marked fresh_libs (set L)))) \<and>
    distinct L \<and> set L = {1, 2, 3}"
proof -
  have edges: "init_edges fresh_libs = {(1, 2), (1, 3), (2, 3)}"
    using two_groups_needs by (simp add: init_edges_def fresh_libs_graph needs_def)
  then have "(init_edges fresh_libs)\<^sup>* `` {1} = {1, 2, 3}" by (auto elim: rtranclE)
  then show ?thesis
    using constructors_once_children_first[OF fresh_libs_links, of 1 "\<lambda>i. 0"] by (auto simp: fresh_libs_graph eval_nat_numeral)
qed

end
