(* ===== verification/Hooks_Shm.thy ===== *)
theory Hooks_Shm
  imports Bump_Allocator
begin

text \<open>
  The pool of process-shared synchronisation objects: \<open>hybris/common/hooks_shm.c\<close>.  The shared
  memory objects of the system are a list, of which at most one has the name \<open>HYBRIS_SHM_PATH\<close>; a
  process has its descriptor, its mapping and the mapped size.  The answers of the host's calls
  are in \<open>shm_host\<close>.  Faults of the process are values of \<open>shm_fault\<close>.
\<close>

section \<open>Definitions\<close>

definition HYBRIS_DATA_SIZE :: u32 where "HYBRIS_DATA_SIZE = 4000"
definition HYBRIS_SHM_MASK :: u64 where "HYBRIS_SHM_MASK = 0xFFFFFFFFFF000000"
definition HYBRIS_SHM_MASK_TOP :: u64 where "HYBRIS_SHM_MASK_TOP = 0xFFFFFFFFFFFFFFF0"
definition MAP_FAILED :: u64 where "MAP_FAILED = 0xFFFFFFFFFFFFFFFF"

text \<open>
  The layout of the header on 64-bit Arm: a mutex of 48 bytes and two integers before the data at
  56; the structure is padded to 64 bytes.
\<close>

definition offsetof_data :: u64 where "offsetof_data = 56"
definition HYBRIS_SHM_DATA_HEADER_SIZE :: u32 where "HYBRIS_SHM_DATA_HEADER_SIZE = 64 - 1"

lemmas shm_consts = HYBRIS_DATA_SIZE_def HYBRIS_SHM_MASK_def HYBRIS_SHM_MASK_TOP_def MAP_FAILED_def
  offsetof_data_def HYBRIS_SHM_DATA_HEADER_SIZE_def

datatype shm_fault = SegFault | BusError | Blocked

record hybris_shm_data_t =
  access_locked :: bool
  current_offset :: u32
  max_offset :: u32
  object_size :: nat

record shm_fs =
  fs_objects :: "hybris_shm_data_t list"
  fs_path :: "nat option"

record shm_process =
  shm_fd :: int
  shm_object :: nat
  shm_data :: u64
  current_mapped_size :: u32
  shm_atexit :: bool

record shm_host =
  sh_open :: int
  sh_create :: int
  sh_mmap :: u64
  sh_mremap :: u64
  sh_ftruncate :: bool

text \<open>A read of the header through the mapping; an object without any byte has no page to read.\<close>

definition shm_header :: "shm_fs \<Rightarrow> shm_process \<Rightarrow> shm_fault + hybris_shm_data_t" where
  "shm_header fs p =
     (if shm_data p = 0 \<or> shm_data p = MAP_FAILED then Inl SegFault
      else let d = fs_objects fs ! shm_object p in if object_size d = 0 then Inl BusError else Inr d)"

definition put_header :: "shm_fs \<Rightarrow> shm_process \<Rightarrow> hybris_shm_data_t \<Rightarrow> shm_fs" where
  "put_header fs p d = fs\<lparr>fs_objects := (fs_objects fs)[shm_object p := d]\<rparr>"

definition shm_ftruncate :: "shm_host \<Rightarrow> u32 \<Rightarrow> shm_fs \<Rightarrow> shm_process \<Rightarrow> shm_fs" where
  "shm_ftruncate h n fs p =
     (if sh_ftruncate h then put_header fs p ((fs_objects fs ! shm_object p)\<lparr>object_size := unat n\<rparr>) else fs)"

definition access_lock :: "shm_fs \<Rightarrow> shm_process \<Rightarrow> shm_fault + shm_fs" where
  "access_lock fs p =
     (case shm_header fs p of
        Inl e \<Rightarrow> Inl e
      | Inr d \<Rightarrow> if access_locked d then Inl Blocked else Inr (put_header fs p (d\<lparr>access_locked := True\<rparr>)))"

definition access_unlock :: "shm_fs \<Rightarrow> shm_process \<Rightarrow> shm_fault + shm_fs" where
  "access_unlock fs p =
     (case shm_header fs p of Inl e \<Rightarrow> Inl e | Inr d \<Rightarrow> Inr (put_header fs p (d\<lparr>access_locked := False\<rparr>)))"

definition release_shm :: "shm_fs \<Rightarrow> shm_process \<Rightarrow> shm_fs \<times> shm_process" where
  "release_shm fs p =
     (fs\<lparr>fs_path := None\<rparr>,
      p\<lparr>shm_data := 0, shm_fd := if shm_fd p \<ge> 0 then -1 else shm_fd p\<rparr>)"

definition sync_mmap_with_shm :: "shm_host \<Rightarrow> shm_fs \<Rightarrow> shm_process \<Rightarrow> shm_fault + shm_process" where
  "sync_mmap_with_shm h fs p =
     (if shm_fd p \<ge> 0 \<and> shm_data p \<noteq> 0 then
        case shm_header fs p of
          Inl e \<Rightarrow> Inl e
        | Inr d \<Rightarrow>
            if sint (current_mapped_size p) < sint (max_offset d + HYBRIS_SHM_DATA_HEADER_SIZE) then
              let p1 = p\<lparr>shm_data := sh_mremap h\<rparr> in
              (case shm_header fs p1 of
                 Inl e \<Rightarrow> Inl e
               | Inr d1 \<Rightarrow> Inr (p1\<lparr>current_mapped_size := max_offset d1 + HYBRIS_SHM_DATA_HEADER_SIZE\<rparr>))
            else Inr p
      else Inr p)"

text \<open>
  \<open>O_CREAT\<close> without \<open>O_EXCL\<close>: the object of the name, or a new one without any byte.
\<close>

definition shm_creat :: "shm_fs \<Rightarrow> nat \<times> shm_fs" where
  "shm_creat fs =
     (case fs_path fs of
        Some k \<Rightarrow> (k, fs)
      | None \<Rightarrow> (length (fs_objects fs),
          \<lparr>fs_objects = fs_objects fs @ [\<lparr>access_locked = False, current_offset = 0, max_offset = 0, object_size = 0\<rparr>],
           fs_path = Some (length (fs_objects fs))\<rparr>))"

definition shm_create_region :: "shm_host \<Rightarrow> u32 \<Rightarrow> shm_fs \<Rightarrow> shm_process \<Rightarrow> shm_fault + shm_fs \<times> shm_process" where
  "shm_create_region h size_to_map fs p =
     (if sh_create h \<ge> 0 then
        let (k, fs1) = shm_creat fs;
            p1 = p\<lparr>shm_fd := sh_create h, shm_object := k\<rparr>;
            fs2 = shm_ftruncate h size_to_map fs1 p1;
            p2 = p1\<lparr>shm_data := sh_mmap h\<rparr>
        in if shm_data p2 = MAP_FAILED then Inr (release_shm fs2 p2)
           else (case shm_header fs2 p2 of
              Inl e \<Rightarrow> Inl e
            | Inr d \<Rightarrow> Inr (put_header fs2 p2 (d\<lparr>access_locked := False, current_offset := 0, max_offset := HYBRIS_DATA_SIZE\<rparr>),
                           p2\<lparr>current_mapped_size := size_to_map, shm_atexit := True\<rparr>))
      else Inr (fs, p\<lparr>shm_fd := sh_create h\<rparr>))"

definition hybris_shm_init :: "shm_host \<Rightarrow> shm_fs \<Rightarrow> shm_process \<Rightarrow> shm_fault + shm_fs \<times> shm_process" where
  "hybris_shm_init h fs p =
     (if shm_fd p < 0 then
        let size_to_map = HYBRIS_SHM_DATA_HEADER_SIZE + HYBRIS_DATA_SIZE;
            fd = (if fs_path fs = None then -1 else sh_open h)
        in if fd \<ge> 0 then
             (case sync_mmap_with_shm h fs (p\<lparr>shm_fd := fd, shm_object := the (fs_path fs), shm_data := sh_mmap h,
                                             current_mapped_size := size_to_map\<rparr>) of
                Inl e \<Rightarrow> Inl e
              | Inr p1 \<Rightarrow> Inr (fs, p1))
           else shm_create_region h size_to_map fs p
      else Inr (fs, p))"

definition hybris_shm_extend_region :: "shm_host \<Rightarrow> shm_fs \<Rightarrow> shm_process \<Rightarrow> shm_fault + shm_fs \<times> shm_process" where
  "hybris_shm_extend_region h fs p =
     (let fs1 = shm_ftruncate h (current_mapped_size p + HYBRIS_DATA_SIZE) fs p in
      case shm_header fs1 p of
        Inl e \<Rightarrow> Inl e
      | Inr d \<Rightarrow>
          let fs2 = put_header fs1 p (d\<lparr>max_offset := max_offset d + HYBRIS_DATA_SIZE\<rparr>) in
          (case sync_mmap_with_shm h fs2 p of Inl e \<Rightarrow> Inl e | Inr p1 \<Rightarrow> Inr (fs2, p1)))"

definition hybris_is_pointer_in_shm :: "u64 \<Rightarrow> bool" where
  "hybris_is_pointer_in_shm ptr \<longleftrightarrow> ptr \<ge> HYBRIS_SHM_MASK \<and> ptr \<le> HYBRIS_SHM_MASK_TOP"

text \<open>Both public functions attach the process first if it has no descriptor.\<close>

definition shm_attach :: "shm_host \<Rightarrow> shm_fs \<Rightarrow> shm_process \<Rightarrow> shm_fault + shm_fs \<times> shm_process" where
  "shm_attach h fs p = (if shm_fd p < 0 then hybris_shm_init h fs p else Inr (fs, p))"

definition hybris_get_shmpointer ::
    "shm_host \<Rightarrow> u64 \<Rightarrow> shm_fs \<Rightarrow> shm_process \<Rightarrow> shm_fault + u64 \<times> shm_fs \<times> shm_process" where
  "hybris_get_shmpointer h handle fs p =
     (if \<not> hybris_is_pointer_in_shm handle then Inr (0, fs, p)
      else case shm_attach h fs p of
        Inl e \<Rightarrow> Inl e
      | Inr (fs1, p1) \<Rightarrow>
          if shm_fd p1 < 0 \<or> shm_data p1 = 0 then Inr (0, fs1, p1)
          else (case access_lock fs1 p1 of
             Inl e \<Rightarrow> Inl e
           | Inr fs2 \<Rightarrow>
               (case sync_mmap_with_shm h fs2 p1 of
                  Inl e \<Rightarrow> Inl e
                | Inr p2 \<Rightarrow>
                    let realpointer = (if shm_data p2 \<noteq> 0 then shm_data p2 + offsetof_data + (handle AND NOT HYBRIS_SHM_MASK) else 0)
                    in (case access_unlock fs2 p2 of Inl e \<Rightarrow> Inl e | Inr fs3 \<Rightarrow> Inr (realpointer, fs3, p2)))))"

text \<open>
  The offsets are signed: the comparison and the disjunction extend their sign, the addition is
  truncated.
\<close>

definition shm_make_room ::
    "shm_host \<Rightarrow> u64 \<Rightarrow> hybris_shm_data_t \<Rightarrow> shm_fs \<Rightarrow> shm_process \<Rightarrow> shm_fault + shm_fs \<times> shm_process" where
  "shm_make_room h sz d fs p =
     (if scast (current_offset d) + sz \<ge> (scast (max_offset d) :: u64)
      then (case hybris_shm_extend_region h fs p of
              Inl e \<Rightarrow> Inl e
            | Inr (fs1, p1) \<Rightarrow>
                (case sync_mmap_with_shm h fs1 p1 of Inl e \<Rightarrow> Inl e | Inr p2 \<Rightarrow> Inr (fs1, p2)))
      else Inr (fs, p))"

definition hybris_shm_alloc ::
    "shm_host \<Rightarrow> u64 \<Rightarrow> shm_fs \<Rightarrow> shm_process \<Rightarrow> shm_fault + u64 \<times> shm_fs \<times> shm_process" where
  "hybris_shm_alloc h sz fs p =
     (case shm_attach h fs p of
        Inl e \<Rightarrow> Inl e
      | Inr (fs1, p1) \<Rightarrow>
          if shm_fd p1 < 0 \<or> shm_data p1 = 0 then Inr (0, fs1, p1)
          else (case access_lock fs1 p1 of
             Inl e \<Rightarrow> Inl e
           | Inr fs2 \<Rightarrow>
               (case sync_mmap_with_shm h fs2 p1 of
                  Inl e \<Rightarrow> Inl e
                | Inr p2 \<Rightarrow>
                    if shm_data p2 = 0 \<or> shm_fd p2 < 0 then Inr (0, fs2, p2)
                    else (case shm_header fs2 p2 of
                       Inl e \<Rightarrow> Inl e
                     | Inr d \<Rightarrow>
                         (case shm_make_room h sz d fs2 p2 of
                            Inl e \<Rightarrow> Inl e
                          | Inr (fs4, p4) \<Rightarrow>
                              (case shm_header fs4 p4 of
                                 Inl e \<Rightarrow> Inl e
                               | Inr d4 \<Rightarrow>
                                   let location = scast (current_offset d4) OR HYBRIS_SHM_MASK;
                                       fs5 = put_header fs4 p4 (d4\<lparr>current_offset := ucast (scast (current_offset d4) + sz :: u64)\<rparr>)
                                   in (case access_unlock fs5 p4 of
                                         Inl e \<Rightarrow> Inl e
                                       | Inr fs6 \<Rightarrow> Inr (location, fs6, p4))))))))"

section \<open>Offsets and handles\<close>

lemma unat_add32: "unat (a :: u32) + unat b < 2 ^ 32 \<Longrightarrow> unat (a + b) = unat a + unat b"
  using unat_add_lem [of a b] by simp

definition handle_of :: "nat \<Rightarrow> u64" where "handle_of off = HYBRIS_SHM_MASK + of_nat off"

definition place_of :: "u64 \<Rightarrow> nat" where "place_of handle = unat (handle AND NOT HYBRIS_SHM_MASK)"

lemma shm_mask: "HYBRIS_SHM_MASK = NOT (mask 24)"
  by (simp add: HYBRIS_SHM_MASK_def mask_eq_exp_minus_1)

lemma small_and_shm_mask:
  assumes "off < 2 ^ 24"
  shows "of_nat off AND HYBRIS_SHM_MASK = 0"
proof -
  have "unat (of_nat off :: u64) = off" using assms by (intro unat_of_nat64) simp
  then have "unat ((of_nat off :: u64) AND NOT (mask 24)) = off div 2 ^ 24 * 2 ^ 24"
    by (simp only: unat_and_not_mask64)
  also have "\<dots> = 0" using assms by simp
  finally show ?thesis by (simp only: shm_mask unat_eq_zero)
qed

lemma or_shm_mask:
  assumes "off < 2 ^ 24"
  shows "of_nat off OR HYBRIS_SHM_MASK = handle_of off"
proof -
  have "(of_nat off AND HYBRIS_SHM_MASK) + (of_nat off OR HYBRIS_SHM_MASK) = of_nat off + HYBRIS_SHM_MASK"
    by (rule word_plus_and_or)
  then show ?thesis by (simp only: small_and_shm_mask[OF assms] add_0_left handle_of_def add.commute)
qed

lemma or_shm_mask_wraps: "of_nat (2 ^ 24) OR HYBRIS_SHM_MASK = handle_of 0"
  by (simp add: HYBRIS_SHM_MASK_def handle_of_def)

lemma place_of_handle: "off < 2 ^ 24 \<Longrightarrow> place_of (handle_of off) = off"
proof -
  assume off: "off < 2 ^ 24"
  have "(of_nat off OR HYBRIS_SHM_MASK) AND NOT HYBRIS_SHM_MASK = of_nat off AND mask 24"
    by (simp add: shm_mask bit.conj_disj_distrib2)
  then have "place_of (handle_of off) = unat ((of_nat off :: u64) AND mask 24)"
    using or_shm_mask[OF off] by (simp add: place_of_def)
  also have "\<dots> = off" using off by (subst unat_and_mask64) (simp add: unat_of_nat64)
  finally show ?thesis .
qed

lemma handle_low: "off < 2 ^ 24 \<Longrightarrow> handle_of off AND NOT HYBRIS_SHM_MASK = of_nat off"
  using arg_cong[OF place_of_handle[of off], of "of_nat :: nat \<Rightarrow> u64"] by (simp add: place_of_def)

lemma unat_handle: "off < 2 ^ 24 \<Longrightarrow> unat (handle_of off) = unat HYBRIS_SHM_MASK + off"
  unfolding handle_of_def by (intro unat_add_of_nat64) (simp add: HYBRIS_SHM_MASK_def)

lemma handle_in_shm:
  assumes "off \<le> 2 ^ 24 - 16"
  shows "hybris_is_pointer_in_shm (handle_of off)"
proof -
  have u: "unat (handle_of off) = unat HYBRIS_SHM_MASK + off" using assms by (intro unat_handle) simp
  have "unat HYBRIS_SHM_MASK = 18446744073692774400" "unat HYBRIS_SHM_MASK_TOP = 18446744073709551600"
    by (simp_all only: HYBRIS_SHM_MASK_def HYBRIS_SHM_MASK_TOP_def) simp_all
  with u assms show ?thesis unfolding hybris_is_pointer_in_shm_def word_le_nat_alt by simp
qed

section \<open>States of the pool\<close>

definition user_addr :: "u64 \<Rightarrow> bool" where "user_addr a \<longleftrightarrow> a \<noteq> 0 \<and> unat a < 2 ^ 47"

text \<open>A host on which no call fails.\<close>

definition host_ok :: "shm_host \<Rightarrow> bool" where
  "host_ok h \<longleftrightarrow> sh_open h \<ge> 0 \<and> sh_create h \<ge> 0 \<and> user_addr (sh_mmap h) \<and> user_addr (sh_mremap h) \<and> sh_ftruncate h"

definition pool_sizes :: "hybris_shm_data_t \<Rightarrow> bool" where
  "pool_sizes d \<longleftrightarrow> unat (current_offset d) < unat (max_offset d) \<and> unat (current_offset d) \<le> 2 ^ 25 \<and>
     4000 \<le> unat (max_offset d) \<and> unat (max_offset d) \<le> 2 ^ 25 + 4000 \<and> object_size d = unat (max_offset d) + 63"

definition fs_ok :: "shm_fs \<Rightarrow> bool" where
  "fs_ok fs \<longleftrightarrow> (\<forall>k. fs_path fs = Some k \<longrightarrow>
     k < length (fs_objects fs) \<and> pool_sizes (fs_objects fs ! k) \<and> \<not> access_locked (fs_objects fs ! k))"

text \<open>An attached process has mapped a prefix of the object that has the name.\<close>

definition proc_ok :: "shm_fs \<Rightarrow> shm_process \<Rightarrow> bool" where
  "proc_ok fs p \<longleftrightarrow> (shm_fd p \<ge> 0 \<longrightarrow> fs_path fs = Some (shm_object p) \<and> user_addr (shm_data p) \<and>
     unat (current_mapped_size p) \<le> unat (max_offset (fs_objects fs ! shm_object p)) + 63)"

definition pool_top :: "shm_fs \<Rightarrow> nat" where
  "pool_top fs = (case fs_path fs of None \<Rightarrow> 0 | Some k \<Rightarrow> unat (current_offset (fs_objects fs ! k)))"

lemma user_addr_valid: "user_addr a \<Longrightarrow> a \<noteq> 0 \<and> a \<noteq> MAP_FAILED"
  by (auto simp: user_addr_def MAP_FAILED_def)

lemma header_read [simp]:
  "user_addr (shm_data p) \<Longrightarrow> object_size (fs_objects fs ! shm_object p) > 0 \<Longrightarrow>
   shm_header fs p = Inr (fs_objects fs ! shm_object p)"
  by (auto simp: shm_header_def Let_def dest: user_addr_valid)

lemma put_header_simps [simp]:
  "length (fs_objects (put_header fs p d)) = length (fs_objects fs)"
  "fs_path (put_header fs p d) = fs_path fs"
  "shm_object q = shm_object p \<Longrightarrow> put_header (put_header fs p d) q e = put_header fs p e"
  "shm_object p < length (fs_objects fs) \<Longrightarrow> fs_objects (put_header fs p d) ! shm_object p = d"
  by (auto simp: put_header_def)

lemma put_header_same_object: "shm_object q = shm_object p \<Longrightarrow> put_header fs q d = put_header fs p d"
  by (simp add: put_header_def)

lemma mapped_limit:
  assumes "unat (max_offset d) \<le> 2 ^ 25 + 8000"
  shows "unat (max_offset d + HYBRIS_SHM_DATA_HEADER_SIZE) = unat (max_offset d) + 63"
  using assms by (subst unat_add32) (simp_all add: HYBRIS_SHM_DATA_HEADER_SIZE_def)

lemma sync_ok:
  assumes "host_ok h" and "shm_fd p \<ge> 0" and "user_addr (shm_data p)" and "d = fs_objects fs ! shm_object p"
    and "object_size d > 0" and "unat (max_offset d) \<le> 2 ^ 25 + 8000"
    and "unat (current_mapped_size p) \<le> unat (max_offset d) + 63"
  shows "\<exists>a. user_addr a \<and> sync_mmap_with_shm h fs p =
    Inr (p\<lparr>shm_data := a, current_mapped_size := max_offset d + HYBRIS_SHM_DATA_HEADER_SIZE\<rparr>)"
proof -
  let ?new = "max_offset d + HYBRIS_SHM_DATA_HEADER_SIZE"
  have new: "unat ?new = unat (max_offset d) + 63" by (rule mapped_limit[OF assms(6)])
  have s: "sint ?new = int (unat ?new)" "sint (current_mapped_size p) = int (unat (current_mapped_size p))"
    by (rule sint_nonneg, use assms(6,7) new in simp)+
  show ?thesis
  proof (cases "current_mapped_size p = ?new")
    case True
    then have "sync_mmap_with_shm h fs p = Inr p" using assms by (auto simp: sync_mmap_with_shm_def dest: user_addr_valid)
    moreover have "p = p\<lparr>shm_data := shm_data p, current_mapped_size := ?new\<rparr>" using True by simp
    ultimately show ?thesis using assms(3) by metis
  next
    case False
    then have "unat (current_mapped_size p) \<noteq> unat ?new" by (simp only: word_unat_eq_iff not_False_eq_True)
    then have "sint (current_mapped_size p) < sint ?new" unfolding s of_nat_less_iff using assms(7) new by linarith
    then have "sync_mmap_with_shm h fs p = Inr (p\<lparr>shm_data := sh_mremap h, current_mapped_size := ?new\<rparr>)"
      using assms by (auto simp: sync_mmap_with_shm_def Let_def host_ok_def dest: user_addr_valid)
    then show ?thesis using assms(1) by (auto simp: host_ok_def)
  qed
qed

text \<open>Attaching keeps the pool and the other processes, and creates the pool where there is none.\<close>

lemma attach_ok:
  assumes h: "host_ok h" and fs: "fs_ok fs" and p: "proc_ok fs p"
  shows "\<exists>fs1 p1. shm_attach h fs p = Inr (fs1, p1) \<and> shm_fd p1 \<ge> 0 \<and> fs_ok fs1 \<and> proc_ok fs1 p1 \<and>
    pool_top fs1 = pool_top fs \<and> (\<forall>q. proc_ok fs q \<longrightarrow> proc_ok fs1 q)"
proof (cases "shm_fd p \<ge> 0")
  case True
  then show ?thesis using fs p by (auto simp: shm_attach_def)
next
  case False
  let ?n = "HYBRIS_SHM_DATA_HEADER_SIZE + HYBRIS_DATA_SIZE"
  have n: "unat ?n = 4063" by (simp add: shm_consts)
  show ?thesis
  proof (cases "fs_path fs")
    case None
    let ?fs = "\<lparr>fs_objects = fs_objects fs @ [\<lparr>access_locked = False, current_offset = 0, max_offset = HYBRIS_DATA_SIZE,
        object_size = 4063\<rparr>], fs_path = Some (length (fs_objects fs))\<rparr>"
    let ?p = "p\<lparr>shm_fd := sh_create h, shm_object := length (fs_objects fs), shm_data := sh_mmap h,
        current_mapped_size := ?n, shm_atexit := True\<rparr>"
    have "shm_attach h fs p = Inr (?fs, ?p)"
      using False None h n
      by (auto simp: shm_attach_def hybris_shm_init_def Let_def shm_create_region_def host_ok_def shm_creat_def
          shm_ftruncate_def put_header_def shm_header_def dest: user_addr_valid)
    moreover have "fs_ok ?fs" "proc_ok ?fs ?p"
      using h n by (auto simp: fs_ok_def proc_ok_def pool_sizes_def host_ok_def HYBRIS_DATA_SIZE_def)
    moreover have "pool_top ?fs = pool_top fs" using None by (simp add: pool_top_def)
    moreover have "proc_ok ?fs q" if "proc_ok fs q" for q using that None by (auto simp: proc_ok_def)
    ultimately show ?thesis using h by (intro exI[of _ ?fs] exI[of _ ?p]) (simp add: host_ok_def)
  next
    case (Some k)
    let ?p = "p\<lparr>shm_fd := sh_open h, shm_object := k, shm_data := sh_mmap h, current_mapped_size := ?n\<rparr>"
    let ?d = "fs_objects fs ! k"
    let ?q = "\<lambda>a. ?p\<lparr>shm_data := a, current_mapped_size := max_offset ?d + HYBRIS_SHM_DATA_HEADER_SIZE\<rparr>"
    have d: "pool_sizes ?d" using fs Some by (simp add: fs_ok_def)
    have "\<exists>a. user_addr a \<and> sync_mmap_with_shm h fs ?p =
      Inr (?q a)"
      using h d n by (intro sync_ok) (auto simp: host_ok_def pool_sizes_def)
    then obtain a where a: "user_addr a" and s: "sync_mmap_with_shm h fs ?p =
      Inr (?q a)" by blast
    have "shm_attach h fs p = Inr (fs, ?q a)"
      using False Some h s by (simp add: shm_attach_def hybris_shm_init_def host_ok_def)
    moreover have "proc_ok fs (?q a)"
      using Some a d mapped_limit[of ?d] by (auto simp: proc_ok_def pool_sizes_def)
    ultimately show ?thesis using h fs by (intro exI[of _ fs] exI[of _ "?q a"]) (simp add: host_ok_def)
  qed
qed

text \<open>The two places that make room: the object and the mapping grow together.\<close>

lemma make_room_ok:
  assumes h: "host_ok h" and p: "shm_fd p \<ge> 0" "user_addr (shm_data p)" "shm_object p < length (fs_objects fs)"
    and d: "d = fs_objects fs ! shm_object p" "pool_sizes d"
    and size: "current_mapped_size p = max_offset d + HYBRIS_SHM_DATA_HEADER_SIZE"
    and n: "n \<le> 4000" "unat (current_offset d) + n \<le> 2 ^ 25"
  shows "\<exists>a m. user_addr a \<and> shm_make_room h (of_nat n) d fs p =
      Inr (put_header fs p (d\<lparr>object_size := unat m + 63, max_offset := m\<rparr>),
           p\<lparr>shm_data := a, current_mapped_size := m + HYBRIS_SHM_DATA_HEADER_SIZE\<rparr>) \<and>
    unat (current_offset d) + n < unat m \<and> unat (max_offset d) \<le> unat m \<and> unat m \<le> 2 ^ 25 + 4000"
proof -
  have cur: "unat (current_offset d) \<le> 2 ^ 25" and mx: "unat (max_offset d) \<le> 2 ^ 25 + 4000" "unat (current_offset d) < unat (max_offset d)"
    and obj: "object_size d = unat (max_offset d) + 63"
    using d(2) by (auto simp: pool_sizes_def)
  have "unat (scast (current_offset d) + of_nat n :: u64) = unat (current_offset d) + n"
    using cur n(1) by (subst unat_add_of_nat64) (simp_all add: unat_scast_nonneg)
  moreover have "unat (scast (max_offset d) :: u64) = unat (max_offset d)" using mx by (intro unat_scast_nonneg) simp
  ultimately have full: "scast (current_offset d) + of_nat n \<ge> (scast (max_offset d) :: u64) \<longleftrightarrow>
      unat (max_offset d) \<le> unat (current_offset d) + n" by (simp add: word_le_nat_alt)
  show ?thesis
  proof (cases "unat (max_offset d) \<le> unat (current_offset d) + n")
    case False
    have "d\<lparr>object_size := unat (max_offset d) + 63, max_offset := max_offset d\<rparr> = d"
      unfolding obj[symmetric] by simp
    then have "put_header fs p (d\<lparr>object_size := unat (max_offset d) + 63, max_offset := max_offset d\<rparr>) = fs"
      unfolding put_header_def using d(1) by simp
    moreover have "p\<lparr>shm_data := shm_data p, current_mapped_size := max_offset d + HYBRIS_SHM_DATA_HEADER_SIZE\<rparr> = p"
      using size by simp
    ultimately show ?thesis using False full p(2) mx
      by (intro exI[of _ "shm_data p"] exI[of _ "max_offset d"]) (simp add: shm_make_room_def)
  next
    case True
    let ?m = "max_offset d + HYBRIS_DATA_SIZE"
    let ?d = "d\<lparr>object_size := unat ?m + 63, max_offset := ?m\<rparr>"
    let ?fs = "put_header fs p ?d"
    have m: "unat ?m = unat (max_offset d) + 4000" using mx by (subst unat_add32) (simp_all add: HYBRIS_DATA_SIZE_def)
    have ml: "unat ?m \<le> 2 ^ 25 + 4000" using m True n(2) by linarith
    have grown: "unat (current_mapped_size p + HYBRIS_DATA_SIZE) = unat ?m + 63"
      using mx m mapped_limit[of d] by (subst unat_add32) (simp_all add: size HYBRIS_DATA_SIZE_def)
    have sync: "\<exists>a. user_addr a \<and> sync_mmap_with_shm h ?fs q = Inr (q\<lparr>shm_data := a, current_mapped_size := ?m + HYBRIS_SHM_DATA_HEADER_SIZE\<rparr>)"
      if "shm_fd q = shm_fd p" "user_addr (shm_data q)" "shm_object q = shm_object p" "unat (current_mapped_size q) \<le> unat ?m + 63" for q
      using sync_ok[OF h, of q ?d ?fs] that p m ml by simp
    obtain a where a: "user_addr a"
      and s1: "sync_mmap_with_shm h ?fs p = Inr (p\<lparr>shm_data := a, current_mapped_size := ?m + HYBRIS_SHM_DATA_HEADER_SIZE\<rparr>)"
      using sync[of p] p m mapped_limit[of d] mx by (auto simp: size)
    obtain b where b: "user_addr b" and s2: "sync_mmap_with_shm h ?fs (p\<lparr>shm_data := a, current_mapped_size := ?m + HYBRIS_SHM_DATA_HEADER_SIZE\<rparr>) =
        Inr (p\<lparr>shm_data := b, current_mapped_size := ?m + HYBRIS_SHM_DATA_HEADER_SIZE\<rparr>)"
      using sync[of "p\<lparr>shm_data := a, current_mapped_size := ?m + HYBRIS_SHM_DATA_HEADER_SIZE\<rparr>"] a ml mapped_limit[of ?d] by auto
    have "hybris_shm_extend_region h fs p = Inr (?fs, p\<lparr>shm_data := a, current_mapped_size := ?m + HYBRIS_SHM_DATA_HEADER_SIZE\<rparr>)"
      using h p d(1) s1 grown
      by (simp add: hybris_shm_extend_region_def Let_def shm_ftruncate_def host_ok_def)
    then have "shm_make_room h (of_nat n) d fs p = Inr (?fs, p\<lparr>shm_data := b, current_mapped_size := ?m + HYBRIS_SHM_DATA_HEADER_SIZE\<rparr>)"
      using full True s2 by (simp add: shm_make_room_def)
    then show ?thesis using b m ml mx n(1) by (intro exI[of _ b] exI[of _ ?m]) simp
  qed
qed

lemma lock_sync_ok:
  assumes h: "host_ok h" and fs: "fs_ok fs" and p: "proc_ok fs p" "shm_fd p \<ge> 0" and d: "d = fs_objects fs ! shm_object p"
  shows "fs_path fs = Some (shm_object p)" "shm_object p < length (fs_objects fs)" "pool_sizes d" "\<not> access_locked d"
    "\<exists>a. user_addr a \<and> access_lock fs p = Inr (put_header fs p (d\<lparr>access_locked := True\<rparr>)) \<and>
      sync_mmap_with_shm h (put_header fs p (d\<lparr>access_locked := True\<rparr>)) p =
        Inr (p\<lparr>shm_data := a, current_mapped_size := max_offset d + HYBRIS_SHM_DATA_HEADER_SIZE\<rparr>)"
proof -
  let ?fs = "put_header fs p (d\<lparr>access_locked := True\<rparr>)"
  show path: "fs_path fs = Some (shm_object p)" using p by (simp add: proc_ok_def)
  then show k: "shm_object p < length (fs_objects fs)" and sizes: "pool_sizes d" and free: "\<not> access_locked d"
    using fs by (auto simp: fs_ok_def d)
  have addr: "user_addr (shm_data p)" and ms: "unat (current_mapped_size p) \<le> unat (max_offset d) + 63"
    using p by (auto simp: proc_ok_def d)
  have "access_lock fs p = Inr ?fs" using addr free sizes by (simp add: access_lock_def d pool_sizes_def)
  moreover have "\<exists>a. user_addr a \<and> sync_mmap_with_shm h ?fs p =
      Inr (p\<lparr>shm_data := a, current_mapped_size := max_offset (d\<lparr>access_locked := True\<rparr>) + HYBRIS_SHM_DATA_HEADER_SIZE\<rparr>)"
    using k sizes ms by (intro sync_ok[OF h p(2) addr]) (auto simp: pool_sizes_def)
  ultimately show "\<exists>a. user_addr a \<and> access_lock fs p = Inr ?fs \<and>
      sync_mmap_with_shm h ?fs p = Inr (p\<lparr>shm_data := a, current_mapped_size := max_offset d + HYBRIS_SHM_DATA_HEADER_SIZE\<rparr>)"
    by auto
qed

lemma pool_update_ok:
  assumes "fs_ok fs" "fs_path fs = Some (shm_object p)" "shm_object p < length (fs_objects fs)" "pool_sizes d" "\<not> access_locked d"
    and "unat (max_offset (fs_objects fs ! shm_object p)) \<le> unat (max_offset d)"
  shows "fs_ok (put_header fs p d)" "proc_ok fs q \<Longrightarrow> proc_ok (put_header fs p d) q"
    "pool_top (put_header fs p d) = unat (current_offset d)"
  using assms by (auto simp: fs_ok_def proc_ok_def pool_top_def put_header_def)

text \<open>
  An allocation of at most 4000 bytes: it succeeds, releases the
  mutex and keeps every process's mapping good.
\<close>

lemma alloc_attached:
  assumes h: "host_ok h" and fs: "fs_ok fs" and p: "proc_ok fs p" "shm_fd p \<ge> 0"
    and n: "n \<le> 4000" "pool_top fs + n \<le> 2 ^ 25"
  shows "\<exists>fs' p'. hybris_shm_alloc h (of_nat n) fs p = Inr (of_nat (pool_top fs) OR HYBRIS_SHM_MASK, fs', p') \<and>
    shm_fd p' \<ge> 0 \<and> fs_ok fs' \<and> proc_ok fs' p' \<and> pool_top fs' = pool_top fs + n \<and> (\<forall>q. proc_ok fs q \<longrightarrow> proc_ok fs' q)"
proof -
  define d where "d = fs_objects fs ! shm_object p"
  note ls = lock_sync_ok[OF h fs p d_def]
  let ?dl = "d\<lparr>access_locked := True\<rparr>"
  let ?fs2 = "put_header fs p ?dl"
  obtain a where a: "user_addr a" and lock: "access_lock fs p = Inr ?fs2"
    and sync: "sync_mmap_with_shm h ?fs2 p = Inr (p\<lparr>shm_data := a, current_mapped_size := max_offset d + HYBRIS_SHM_DATA_HEADER_SIZE\<rparr>)"
    using ls(5) by blast
  let ?p2 = "p\<lparr>shm_data := a, current_mapped_size := max_offset d + HYBRIS_SHM_DATA_HEADER_SIZE\<rparr>"
  have cur: "unat (current_offset d) = pool_top fs" using ls(1) by (simp add: pool_top_def d_def)
  have pos: "object_size d > 0" using ls(3) by (simp add: pool_sizes_def)
  have "pool_sizes ?dl" using ls(3) by (simp add: pool_sizes_def)
  then obtain b m where b: "user_addr b" and room: "shm_make_room h (of_nat n) ?dl ?fs2 ?p2 =
      Inr (put_header ?fs2 ?p2 (?dl\<lparr>object_size := unat m + 63, max_offset := m\<rparr>),
           ?p2\<lparr>shm_data := b, current_mapped_size := m + HYBRIS_SHM_DATA_HEADER_SIZE\<rparr>)"
    and m: "pool_top fs + n < unat m" "unat (max_offset d) \<le> unat m" "unat m \<le> 2 ^ 25 + 4000"
    using make_room_ok[OF h, of ?p2 ?fs2 ?dl n] p(2) a ls(2) n cur by auto
  let ?p4 = "p\<lparr>shm_data := b, current_mapped_size := m + HYBRIS_SHM_DATA_HEADER_SIZE\<rparr>"
  let ?new = "ucast (scast (current_offset d) + of_nat n :: u64) :: u32"
  let ?d = "d\<lparr>object_size := unat m + 63, max_offset := m, current_offset := ?new, access_locked := False\<rparr>"
  have sc: "unat (scast (current_offset d) :: u64) = pool_top fs"
    using n(2) cur by (simp add: unat_scast_nonneg)
  have "unat (scast (current_offset d) + of_nat n :: u64) = pool_top fs + n"
    using sc n by (subst unat_add_of_nat64) simp_all
  then have new: "unat ?new = pool_top fs + n"
    using n(2) by (simp add: unsigned_ucast_eq take_bit_nat_eq_self)
  have loc: "scast (current_offset d) OR HYBRIS_SHM_MASK = of_nat (pool_top fs) OR HYBRIS_SHM_MASK"
    by (simp flip: sc)
  have run: "hybris_shm_alloc h (of_nat n) fs p = Inr (of_nat (pool_top fs) OR HYBRIS_SHM_MASK, put_header fs p ?d, ?p4)"
    using p(2) ls(2) lock sync room a b pos loc user_addr_valid[of "shm_data p"] user_addr_valid[of a] p(1)
    by (simp add: hybris_shm_alloc_def shm_attach_def Let_def access_unlock_def proc_ok_def put_header_same_object[of ?p2 p])
  have d': "pool_sizes ?d" using m n ls(3) new by (simp add: pool_sizes_def)
  note upd = pool_update_ok[OF fs ls(1,2) d' , simplified, folded d_def]
  have "proc_ok (put_header fs p ?d) ?p4" using b ls(1,2) m mapped_limit[of ?d] by (simp add: proc_ok_def)
  with upd m run new p(2) show ?thesis by (intro exI[of _ "put_header fs p ?d"] exI[of _ ?p4]) simp
qed

lemma alloc_after_attach:
  "shm_attach h fs p = Inr (fs1, p1) \<Longrightarrow> shm_fd p1 \<ge> 0 \<Longrightarrow> hybris_shm_alloc h sz fs p = hybris_shm_alloc h sz fs1 p1"
  by (simp add: hybris_shm_alloc_def shm_attach_def)

lemma alloc_ok:
  assumes h: "host_ok h" and fs: "fs_ok fs" and p: "proc_ok fs p"
    and n: "n \<le> 4000" "pool_top fs + n \<le> 2 ^ 25"
  shows "\<exists>fs' p'. hybris_shm_alloc h (of_nat n) fs p = Inr (of_nat (pool_top fs) OR HYBRIS_SHM_MASK, fs', p') \<and>
    shm_fd p' \<ge> 0 \<and> fs_ok fs' \<and> proc_ok fs' p' \<and> pool_top fs' = pool_top fs + n \<and> (\<forall>q. proc_ok fs q \<longrightarrow> proc_ok fs' q)"
proof -
  obtain fs1 p1 where at: "shm_attach h fs p = Inr (fs1, p1)" and p1: "proc_ok fs1 p1" "shm_fd p1 \<ge> 0" and fs1: "fs_ok fs1"
    and top: "pool_top fs1 = pool_top fs" and others: "\<And>q. proc_ok fs q \<Longrightarrow> proc_ok fs1 q"
    using attach_ok[OF h fs p] by blast
  from alloc_attached[OF h fs1 p1, of n] n obtain fs' p' where
    "hybris_shm_alloc h (of_nat n) fs1 p1 = Inr (of_nat (pool_top fs) OR HYBRIS_SHM_MASK, fs', p')" "shm_fd p' \<ge> 0" "fs_ok fs'"
    "proc_ok fs' p'" "pool_top fs' = pool_top fs + n" "\<forall>q. proc_ok fs1 q \<longrightarrow> proc_ok fs' q"
    unfolding top by blast
  then show ?thesis using alloc_after_attach[OF at p1(2)] others by auto
qed

text \<open>A handle resolves to its offset in the resolving process's own mapping.\<close>

lemma resolve_ok:
  assumes h: "host_ok h" and fs: "fs_ok fs" and p: "proc_ok fs p" and off: "off \<le> 2 ^ 24 - 16" and n: "off + n \<le> pool_top fs"
  shows "\<exists>ptr fs' p'. hybris_get_shmpointer h (handle_of off) fs p = Inr (ptr, fs', p') \<and>
    unat ptr = unat (shm_data p') + 56 + off \<and> user_addr (shm_data p') \<and>
    unat ptr + n \<le> unat (shm_data p') + unat (current_mapped_size p') \<and>
    unat (current_mapped_size p') \<le> object_size (fs_objects fs' ! shm_object p') \<and>
    fs_ok fs' \<and> proc_ok fs' p' \<and> shm_fd p' \<ge> 0 \<and> pool_top fs' = pool_top fs \<and> (\<forall>q. proc_ok fs q \<longrightarrow> proc_ok fs' q)"
proof -
  obtain fs1 p1 where at: "shm_attach h fs p = Inr (fs1, p1)" and p1: "proc_ok fs1 p1" "shm_fd p1 \<ge> 0" and fs1: "fs_ok fs1"
    and top: "pool_top fs1 = pool_top fs" and others: "\<And>q. proc_ok fs q \<Longrightarrow> proc_ok fs1 q"
    using attach_ok[OF h fs p] by blast
  define d where "d = fs_objects fs1 ! shm_object p1"
  note ls = lock_sync_ok[OF h fs1 p1 d_def]
  let ?fs2 = "put_header fs1 p1 (d\<lparr>access_locked := True\<rparr>)"
  obtain a where a: "user_addr a" and lock: "access_lock fs1 p1 = Inr ?fs2" and sync: "sync_mmap_with_shm h ?fs2 p1 =
      Inr (p1\<lparr>shm_data := a, current_mapped_size := max_offset d + HYBRIS_SHM_DATA_HEADER_SIZE\<rparr>)"
    using ls(5) by blast
  let ?p2 = "p1\<lparr>shm_data := a, current_mapped_size := max_offset d + HYBRIS_SHM_DATA_HEADER_SIZE\<rparr>"
  let ?ptr = "a + offsetof_data + (handle_of off AND NOT HYBRIS_SHM_MASK)"
  have same: "d\<lparr>access_locked := False\<rparr> = d" using ls(4) by simp
  have same_fs: "put_header fs1 p1 d = fs1" by (simp add: put_header_def d_def)
  have pos: "object_size d > 0" using ls(3) by (simp add: pool_sizes_def)
  have run: "hybris_get_shmpointer h (handle_of off) fs p = Inr (?ptr, fs1, ?p2)"
    using handle_in_shm[OF off] at p1 lock sync a pos ls(2) user_addr_valid[of a] user_addr_valid[of "shm_data p1"] same same_fs
    by (simp add: hybris_get_shmpointer_def Let_def access_unlock_def proc_ok_def put_header_same_object[of ?p2 p1])
  have "unat (handle_of off AND NOT HYBRIS_SHM_MASK) = off"
    using place_of_handle[of off] off by (simp add: place_of_def)
  moreover have lt: "unat a + 56 < 2 ^ 47 + 56" using a by (simp add: user_addr_def)
  moreover have "unat (a + offsetof_data) = unat a + 56"
    using lt by (subst unat_add64) (simp_all add: offsetof_data_def)
  ultimately have ptr: "unat ?ptr = unat a + 56 + off" using off by (subst unat_add64) simp_all
  have "unat (max_offset d + HYBRIS_SHM_DATA_HEADER_SIZE) = unat (max_offset d) + 63"
    using ls(3) by (intro mapped_limit) (simp add: pool_sizes_def)
  moreover have "off + n \<le> unat (max_offset d)" using n top ls(1,3) by (simp add: pool_top_def d_def pool_sizes_def)
  ultimately show ?thesis using run ptr a ls(1,3) fs1 top others p1(2)
    by (intro exI[of _ ?ptr] exI[of _ fs1] exI[of _ ?p2]) (auto simp: proc_ok_def d_def pool_sizes_def)
qed

text \<open>Where the address of a mapping comes from, whether or not the host behaves.\<close>

definition from_host :: "shm_host \<Rightarrow> shm_process \<Rightarrow> u64 \<Rightarrow> bool" where
  "from_host h p a \<longleftrightarrow> a = sh_mmap h \<or> a = sh_mremap h \<or> shm_fd p \<ge> 0 \<and> a = shm_data p"

lemma from_host_trans: "from_host h p (shm_data q) \<Longrightarrow> from_host h q a \<Longrightarrow> from_host h p a"
  by (auto simp: from_host_def)

lemma sync_data: "sync_mmap_with_shm h fs p = Inr p' \<Longrightarrow> shm_fd p' = shm_fd p \<and> (shm_fd p \<ge> 0 \<longrightarrow> from_host h p (shm_data p'))"
  by (auto simp: sync_mmap_with_shm_def from_host_def Let_def split: if_splits sum.splits)

lemma attach_data: "shm_attach h fs p = Inr (fs1, p1) \<Longrightarrow> shm_fd p1 \<ge> 0 \<Longrightarrow> from_host h p (shm_data p1)"
  by (auto simp: shm_attach_def hybris_shm_init_def shm_create_region_def release_shm_def from_host_def Let_def
      split: if_splits sum.splits prod.splits dest!: sync_data)

lemma make_room_data:
  "shm_make_room h sz d fs p = Inr (fs', p') \<Longrightarrow> shm_fd p \<ge> 0 \<Longrightarrow> shm_fd p' = shm_fd p \<and> from_host h p (shm_data p')"
  by (auto simp: shm_make_room_def hybris_shm_extend_region_def Let_def from_host_def
      split: if_splits sum.splits dest!: sync_data)

lemma alloc_data:
  "hybris_shm_alloc h sz fs p = Inr (location, fs', p') \<Longrightarrow> location \<noteq> 0 \<Longrightarrow> from_host h p (shm_data p')"
  by (auto simp: hybris_shm_alloc_def Let_def split: if_splits sum.splits dest!: sync_data make_room_data attach_data)
     (blast intro: from_host_trans)

lemma resolve_data:
  "hybris_get_shmpointer h handle fs p = Inr (ptr, fs', p') \<Longrightarrow> ptr \<noteq> 0 \<Longrightarrow> from_host h p (shm_data p')"
  by (auto simp: hybris_get_shmpointer_def Let_def split: if_splits sum.splits dest!: sync_data attach_data
      intro: from_host_trans)

section \<open>Several processes\<close>

record shm_world =
  sw_fs :: shm_fs
  sw_proc :: "nat \<Rightarrow> shm_process"

type_synonym shm_op = "nat \<times> shm_host \<times> nat"

text \<open>A process's request for a number of bytes, and whether it got a handle.\<close>

fun shm_request :: "shm_op \<Rightarrow> shm_world \<Rightarrow> (u64 \<times> shm_world) option" where
  "shm_request (i, h, n) w =
     (case hybris_shm_alloc h (of_nat n) (sw_fs w) (sw_proc w i) of
        Inl e \<Rightarrow> None
      | Inr (location, fs, p) \<Rightarrow>
          if location = 0 then None else Some (location, w\<lparr>sw_fs := fs, sw_proc := (sw_proc w)(i := p)\<rparr>))"

definition shm_world_ok :: "shm_world \<Rightarrow> bool" where
  "shm_world_ok w \<longleftrightarrow> fs_ok (sw_fs w) \<and> (\<forall>i. proc_ok (sw_fs w) (sw_proc w i))"

definition world_top :: "shm_world \<Rightarrow> nat" where "world_top w = pool_top (sw_fs w)"

fun shm_need :: "shm_op \<Rightarrow> nat" where "shm_need (i, h, n) = n"

fun shm_admissible :: "shm_op \<Rightarrow> bool" where "shm_admissible (i, h, n) \<longleftrightarrow> host_ok h \<and> 1 \<le> n \<and> n \<le> 4000"

lemma handle_of_nonzero: "off < 2 ^ 24 \<Longrightarrow> handle_of off \<noteq> 0"
  using unat_handle[of off] by (auto simp: HYBRIS_SHM_MASK_def)

lemma shm_request_ok:
  assumes w: "shm_world_ok w" and op: "shm_admissible op" and fits: "world_top w + shm_need op \<le> 2 ^ 24"
  shows "\<exists>w'. shm_request op w = Some (handle_of (world_top w), w') \<and> shm_world_ok w' \<and>
    world_top w' = world_top w + shm_need op"
proof -
  obtain i h n where op_eq: "op = (i, h, n)" by (cases op)
  have n: "1 \<le> n" "n \<le> 4000" and h: "host_ok h" using op by (simp_all add: op_eq)
  have lt: "pool_top (sw_fs w) < 2 ^ 24" and le: "pool_top (sw_fs w) + n \<le> 2 ^ 24"
    using fits n by (simp_all add: op_eq world_top_def)
  from le have "pool_top (sw_fs w) + n \<le> 2 ^ 25" by simp
  from alloc_ok[OF h _ _ n(2) this, of "sw_proc w i"] w or_shm_mask[OF lt]
  obtain fs' p' where run: "hybris_shm_alloc h (of_nat n) (sw_fs w) (sw_proc w i) = Inr (handle_of (pool_top (sw_fs w)), fs', p')"
    and ok: "fs_ok fs'" "proc_ok fs' p'" "pool_top fs' = pool_top (sw_fs w) + n" "\<And>q. proc_ok (sw_fs w) q \<Longrightarrow> proc_ok fs' q"
    unfolding shm_world_ok_def by auto
  then show ?thesis using w lt handle_of_nonzero[OF lt] by (auto simp: op_eq shm_world_ok_def world_top_def)
qed

interpretation shm_pool: total_bump_allocator shm_request shm_world_ok world_top place_of shm_need shm_admissible "2 ^ 24"
proof
  fix w op h w'
  assume w: "shm_world_ok w" and op: "shm_admissible op" and fits: "world_top w + shm_need op \<le> 2 ^ 24"
  note r = shm_request_ok[OF w op fits]
  then show "shm_request op w \<noteq> None" by auto
  have "world_top w < 2 ^ 24" using op fits by (cases op) auto
  then have "place_of (handle_of (world_top w)) = world_top w" by (rule place_of_handle)
  moreover assume "shm_request op w = Some (h, w')"
  ultimately show "shm_world_ok w' \<and> place_of h = world_top w \<and> world_top w' = world_top w + shm_need op" using r by auto
qed

text \<open>Whatever a request returns has the bits of the mask, so that its offset determines it.\<close>

lemma shm_request_mask: "shm_request op w = Some (handle, w') \<Longrightarrow> handle AND HYBRIS_SHM_MASK = HYBRIS_SHM_MASK"
proof -
  assume "shm_request op w = Some (handle, w')"
  then obtain x where "handle = x OR HYBRIS_SHM_MASK"
    by (cases op) (auto simp: hybris_shm_alloc_def Let_def split: sum.splits if_splits)
  then show ?thesis by (simp add: bit.conj_disj_distrib2 or.commute)
qed

lemma shm_handles_mask:
  "alloc_all shm_request ops w = Some (hs, w') \<Longrightarrow> handle \<in> set hs \<Longrightarrow> handle AND HYBRIS_SHM_MASK = HYBRIS_SHM_MASK"
  using alloc_all_set[where P = "\<lambda>handle. handle AND HYBRIS_SHM_MASK = HYBRIS_SHM_MASK"] shm_request_mask by metis

lemma handle_of_place:
  assumes "handle AND HYBRIS_SHM_MASK = HYBRIS_SHM_MASK"
  shows "handle = handle_of (place_of handle)" and "place_of handle < 2 ^ 24"
proof -
  let ?low = "handle AND NOT HYBRIS_SHM_MASK"
  have low: "?low = handle AND mask 24" by (simp add: shm_mask)
  then have "place_of handle = unat handle mod 2 ^ 24" by (simp only: place_of_def unat_and_mask64)
  then show lt: "place_of handle < 2 ^ 24" by simp
  have "handle = (handle AND HYBRIS_SHM_MASK) OR ?low" by (simp add: bit.conj_disj_distrib[symmetric])
  also have "\<dots> = ?low OR HYBRIS_SHM_MASK" using assms by (simp add: or.commute)
  also have "\<dots> = of_nat (place_of handle) OR HYBRIS_SHM_MASK" by (simp add: place_of_def)
  finally show "handle = handle_of (place_of handle)" by (simp only: or_shm_mask[OF lt])
qed

section \<open>Properties\<close>

text \<open>
  C13: Whatever processes request blocks, in whatever order, each of at most 4000 bytes and all
  together below the limit of the handles: every request is served, the blocks are disjoint, and
  every process resolves every handle to the block's offset in its own mapping, with the whole
  block inside the mapping and inside the shared object.  No request leaves the pool's mutex held.
\<close>

theorem shm_blocks_shared:
  assumes "shm_world_ok w" and "\<forall>op \<in> set ops. shm_admissible op"
    and "world_top w + sum_list (map shm_need ops) \<le> 2 ^ 24 - 16"
  shows "\<exists>hs w'. alloc_all shm_request ops w = Some (hs, w') \<and> shm_world_ok w' \<and> length hs = length ops \<and>
    (\<forall>j < length ops. \<forall>i < j. place_of (hs ! i) + shm_need (ops ! i) \<le> place_of (hs ! j)) \<and>
    (\<forall>i < length ops. \<forall>q h. host_ok h \<longrightarrow>
       (\<exists>ptr fs' p'. hybris_get_shmpointer h (hs ! i) (sw_fs w') (sw_proc w' q) = Inr (ptr, fs', p') \<and>
          unat ptr = unat (shm_data p') + 56 + place_of (hs ! i) \<and>
          unat ptr + shm_need (ops ! i) \<le> unat (shm_data p') + unat (current_mapped_size p') \<and>
          unat (current_mapped_size p') \<le> object_size (fs_objects fs' ! shm_object p') \<and>
          \<not> access_locked (fs_objects fs' ! shm_object p')))"
proof -
  have lim: "world_top w + sum_list (map shm_need ops) \<le> 2 ^ 24" using assms(3) by simp
  from shm_pool.alloc_all_succeeds[OF assms(1,2) lim] obtain hs w' where
    run: "alloc_all shm_request ops w = Some (hs, w')" and ok: "shm_world_ok w'" "length hs = length ops"
    and top: "world_top w' = world_top w + sum_list (map shm_need ops)" by blast
  have con: "consecutive (world_top w) (zip (map place_of hs) (map shm_need ops)) (world_top w')"
    using shm_pool.alloc_all_consecutive[OF run assms(1,2) lim] by blast
  have resolve: "\<exists>ptr fs' p'. hybris_get_shmpointer h (hs ! i) (sw_fs w') (sw_proc w' q) = Inr (ptr, fs', p') \<and>
      unat ptr = unat (shm_data p') + 56 + place_of (hs ! i) \<and>
      unat ptr + shm_need (ops ! i) \<le> unat (shm_data p') + unat (current_mapped_size p') \<and>
      unat (current_mapped_size p') \<le> object_size (fs_objects fs' ! shm_object p') \<and>
      \<not> access_locked (fs_objects fs' ! shm_object p')" if i: "i < length ops" and h: "host_ok h" for i q h
  proof -
    have mask: "hs ! i AND HYBRIS_SHM_MASK = HYBRIS_SHM_MASK"
      using i ok(2) by (intro shm_handles_mask[OF run] nth_mem) simp
    have le: "place_of (hs ! i) + shm_need (ops ! i) \<le> pool_top (sw_fs w')"
      using consecutive_nth[OF con, of i] i ok(2) by (simp add: world_top_def)
    with assms(3) top have "place_of (hs ! i) \<le> 2 ^ 24 - 16" by (simp add: world_top_def)
    from resolve_ok[OF h _ _ this le, of "sw_proc w' q"] ok(1) handle_of_place(1)[OF mask]
    obtain ptr fs' p' where "hybris_get_shmpointer h (hs ! i) (sw_fs w') (sw_proc w' q) = Inr (ptr, fs', p')"
      "unat ptr = unat (shm_data p') + 56 + place_of (hs ! i)"
      "unat ptr + shm_need (ops ! i) \<le> unat (shm_data p') + unat (current_mapped_size p')"
      "unat (current_mapped_size p') \<le> object_size (fs_objects fs' ! shm_object p')" "fs_ok fs'" "proc_ok fs' p'" "shm_fd p' \<ge> 0"
      unfolding shm_world_ok_def by auto
    then show ?thesis by (auto simp: fs_ok_def proc_ok_def)
  qed
  have "place_of (hs ! i) + shm_need (ops ! i) \<le> place_of (hs ! j)" if "i < j" "j < length ops" for i j
    using shm_pool.blocks_disjoint[OF run assms(1,2) lim that] by simp
  with run ok resolve show ?thesis by (intro exI[of _ hs] exI[of _ w']) simp
qed

definition demo_shm_host :: shm_host where
  "demo_shm_host = \<lparr>sh_open = 5, sh_create = 6, sh_mmap = 0x7000000000, sh_mremap = 0x7100000000, sh_ftruncate = True\<rparr>"

definition fresh_shm_world :: shm_world where
  "fresh_shm_world = \<lparr>sw_fs = \<lparr>fs_objects = [], fs_path = None\<rparr>,
     sw_proc = (\<lambda>i. \<lparr>shm_fd = -1, shm_object = 0, shm_data = 0, current_mapped_size = 0, shm_atexit = False\<rparr>)\<rparr>"

lemma demo_shm_host_ok: "host_ok demo_shm_host"
  by (simp add: host_ok_def demo_shm_host_def user_addr_def)

lemma fresh_shm_world_ok: "shm_world_ok fresh_shm_world" and fresh_shm_world_top: "world_top fresh_shm_world = 0"
  by (auto simp: shm_world_ok_def fresh_shm_world_def fs_ok_def proc_ok_def world_top_def pool_top_def)

definition demo_ops :: "shm_op list" where
  "demo_ops = [(0, demo_shm_host, 48), (1, demo_shm_host, 56)]"

lemma demo_ops_facts: "\<forall>op \<in> set demo_ops. shm_admissible op" "sum_list (map shm_need demo_ops) = 104" "length demo_ops = 2"
  "shm_need (demo_ops ! 0) = 48"
  by (simp_all add: demo_ops_def demo_shm_host_ok)

theorem shm_blocks_shared_witness:
  "\<exists>hs w'. alloc_all shm_request demo_ops fresh_shm_world = Some (hs, w') \<and> length hs = 2 \<and>
     place_of (hs ! 0) + 48 \<le> place_of (hs ! 1)"
proof -
  have "world_top fresh_shm_world + sum_list (map shm_need demo_ops) \<le> 2 ^ 24 - 16"
    unfolding demo_ops_facts fresh_shm_world_top by simp
  from shm_blocks_shared[OF fresh_shm_world_ok demo_ops_facts(1) this] obtain hs w' where
    "alloc_all shm_request demo_ops fresh_shm_world = Some (hs, w')" "length hs = 2"
    and lt: "\<forall>j < 2. \<forall>i < j. place_of (hs ! i) + shm_need (demo_ops ! i) \<le> place_of (hs ! j)"
    unfolding demo_ops_facts(3) by blast
  moreover from lt[rule_format, of 1 0] have "place_of (hs ! 0) + 48 \<le> place_of (hs ! 1)" by (simp add: demo_ops_facts)
  ultimately show ?thesis by blast
qed

text \<open>Once the served requests fill the range of the offsets, the next handle is the first one.\<close>

lemma shm_offsets_wrap:
  assumes adm: "\<forall>op \<in> set (op # ops). shm_admissible op" and need: "sum_list (map shm_need (op # ops)) = 2 ^ 24"
  shows "\<exists>hs w' w''. alloc_all shm_request (op # ops) fresh_shm_world = Some (hs, w') \<and>
     shm_request (0, demo_shm_host, 48) w' = Some (hd hs, w'')"
proof -
  have lim: "world_top fresh_shm_world + sum_list (map shm_need (op # ops)) \<le> 2 ^ 24"
    unfolding need fresh_shm_world_top by simp
  from shm_pool.alloc_all_succeeds[OF fresh_shm_world_ok adm lim] obtain hs w' where
    run: "alloc_all shm_request (op # ops) fresh_shm_world = Some (hs, w')" and ok: "shm_world_ok w'" "length hs = length (op # ops)"
    and top: "world_top w' = 2 ^ 24" unfolding need fresh_shm_world_top by auto
  obtain k ks where hs: "hs = k # ks" using ok(2) by (cases hs) auto
  have "consecutive 0 (zip (map place_of hs) (map shm_need (op # ops))) (world_top w')"
    using shm_pool.alloc_all_consecutive[OF run fresh_shm_world_ok adm lim] unfolding fresh_shm_world_top by blast
  then have "place_of k = 0" by (simp add: hs)
  then have first: "hd hs = handle_of 0" using handle_of_place(1)[OF shm_handles_mask[OF run, of k]] by (simp add: hs)
  have "pool_top (sw_fs w') + 48 \<le> 2 ^ 25" using top by (simp add: world_top_def)
  with alloc_ok[OF demo_shm_host_ok, of "sw_fs w'" "sw_proc w' 0" 48] ok(1) top or_shm_mask_wraps
  have "\<exists>fs p. hybris_shm_alloc demo_shm_host (of_nat 48) (sw_fs w') (sw_proc w' 0) = Inr (handle_of 0, fs, p)"
    unfolding shm_world_ok_def world_top_def by auto
  then have "\<exists>w''. shm_request (0, demo_shm_host, 48) w' = Some (hd hs, w'')"
    using handle_of_nonzero[of 0] by (auto simp: first)
  with run show ?thesis by blast
qed

text \<open>
  C29: The pool never takes a block back, and handles have 24 bits of offset.  After 349523 mutexes
  and two read-write locks, every request served, the next handle is the one of the very first
  object, which is thereby shared by two owners.
\<close>

theorem shm_handle_reused:
  "\<exists>hs w' w''. alloc_all shm_request (replicate 349523 (0, demo_shm_host, 48) @ replicate 2 (0, demo_shm_host, 56)) fresh_shm_world = Some (hs, w') \<and>
     shm_request (0, demo_shm_host, 48) w' = Some (hd hs, w'')"
proof -
  define n :: nat where "n = 349522"
  have split: "replicate 349523 (0, demo_shm_host, 48) @ replicate 2 (0, demo_shm_host, 56) =
      (0, demo_shm_host, 48) # (replicate n (0, demo_shm_host, 48) @ replicate 2 (0, demo_shm_host, 56) :: shm_op list)"
    using replicate_Suc[of n "(0, demo_shm_host, 48) :: shm_op"] by (simp only: append_Cons[symmetric]) (simp add: n_def)
  have need: "sum_list (map shm_need ((0, demo_shm_host, 48) # (replicate n (0, demo_shm_host, 48) @ replicate 2 (0, demo_shm_host, 56)))) = 2 ^ 24"
    by (simp add: sum_list_replicate) (simp add: n_def)
  show ?thesis unfolding split by (rule shm_offsets_wrap[OF _ need]) (auto simp: demo_shm_host_ok)
qed

end
