(* ===== verification/Bionic_Sync.thy ===== *)
theory Bionic_Sync
  imports Hooks_Shm
begin

text \<open>
  The synchronisation hooks for mutexes and read-write locks: \<open>hybris/common/bionic_sync.c\<close> and
  \<open>bionic_sync.h\<close>.  An Android object is a storage word: a small integer of Android's own, the
  address of a host object, or a handle of the shared pool.  The model keeps the storage words, the
  host objects that are alive on the heap and in the pool, the state of the pool, and the futex wake-ups
  that were asked for.  A call of
  the host on a pointer without a live object of the right kind is the failure \<open>BadObject\<close>; what a
  call returns is an answer of \<open>sync_host\<close>.
\<close>

section \<open>Host objects\<close>

definition EBUSY :: int where "EBUSY = 16"
definition EINVAL :: int where "EINVAL = 22"
definition ENOMEM :: int where "ENOMEM = 12"
definition ETIMEDOUT :: int where "ETIMEDOUT = 110"
definition CLOCK_REALTIME :: int where "CLOCK_REALTIME = 0"
definition CLOCK_MONOTONIC :: int where "CLOCK_MONOTONIC = 1"

lemmas errno_defs = EBUSY_def EINVAL_def ENOMEM_def ETIMEDOUT_def

datatype mutex_kind = PTHREAD_MUTEX_NORMAL | PTHREAD_MUTEX_RECURSIVE | PTHREAD_MUTEX_ERRORCHECK

datatype mutex_attr = KindAttr mutex_kind | HostAttr u64

text \<open>The host objects; \<open>Raw\<close> is memory that is not initialised yet.\<close>

datatype host_object = Raw | HMutex mutex_attr | HCond u64 | HRwlock u64 | HRwlockAttr int int

record timespec =
  tv_sec :: int
  tv_nsec :: int

datatype host_call =
    MutexInit u64 mutex_attr | MutexDestroy u64 | MutexLock u64 | MutexTrylock u64 | MutexUnlock u64
  | MutexClocklock u64 int timespec
  | CondInit u64 u64 | CondDestroy u64 | CondSignal u64 | CondBroadcast u64 | CondWait u64 u64
  | CondTimedwait u64 u64 timespec | CondClockwait u64 u64 int timespec
  | RwlockInit u64 u64 | RwlockDestroy u64 | RwlockRdlock u64 | RwlockTryrdlock u64 | RwlockTimedrdlock u64 "timespec option"
  | RwlockWrlock u64 | RwlockTrywrlock u64 | RwlockTimedwrlock u64 "timespec option"
  | RwlockClockrdlock u64 int timespec | RwlockClockwrlock u64 int timespec | RwlockUnlock u64
  | RwlockattrInit u64 | RwlockattrDestroy u64 | RwlockattrSetpshared u64 int | RwlockattrGetpshared u64
  | RwlockattrSetkind u64 int | RwlockattrGetkind u64

datatype sync_fault = NullStorage | StaticNoMemory | StaticInitFailed int | BadObject host_call | BadFree u64 | ShmFault shm_fault

record sync_host =
  sy_malloc :: u64
  sy_ret :: "host_call \<Rightarrow> int"
  sy_mutexattr_pshared :: "u64 \<Rightarrow> bool"
  sy_condattr_pshared :: "u64 \<Rightarrow> bool"
  sy_clock :: "int + timespec"
  sy_shm :: shm_host

record sync_state =
  ss_mem :: "u64 \<Rightarrow> u64"
  ss_heap :: "u64 \<Rightarrow> host_object option"
  ss_shared :: "u64 \<Rightarrow> host_object option"
  ss_fs :: shm_fs
  ss_proc :: shm_process
  ss_wakes :: "(u64 \<times> bool \<times> int) list"

text \<open>The object behind a pointer: on the heap, or at an offset of this process's mapping of the pool.\<close>

definition pool_offset :: "sync_state \<Rightarrow> u64 \<Rightarrow> u64" where
  "pool_offset s ptr = ptr - shm_data (ss_proc s) - offsetof_data"

definition object_at :: "sync_state \<Rightarrow> u64 \<Rightarrow> host_object option" where
  "object_at s ptr =
     (if ptr = 0 then None
      else case ss_heap s ptr of Some ob \<Rightarrow> Some ob | None \<Rightarrow> ss_shared s (pool_offset s ptr))"

definition put_object :: "u64 \<Rightarrow> host_object \<Rightarrow> sync_state \<Rightarrow> sync_state" where
  "put_object ptr ob s =
     (if ss_heap s ptr \<noteq> None then s\<lparr>ss_heap := (ss_heap s)(ptr \<mapsto> ob)\<rparr>
      else s\<lparr>ss_shared := (ss_shared s)(pool_offset s ptr \<mapsto> ob)\<rparr>)"

fun is_HMutex :: "host_object option \<Rightarrow> bool" where "is_HMutex (Some (HMutex k)) = True" | "is_HMutex ob = False"
fun is_HCond :: "host_object option \<Rightarrow> bool" where "is_HCond (Some (HCond k)) = True" | "is_HCond ob = False"
fun is_HRwlock :: "host_object option \<Rightarrow> bool" where "is_HRwlock (Some (HRwlock k)) = True" | "is_HRwlock ob = False"
fun is_HRwlockAttr :: "host_object option \<Rightarrow> bool" where
  "is_HRwlockAttr (Some (HRwlockAttr p k)) = True" | "is_HRwlockAttr ob = False"

definition call_ok :: "sync_state \<Rightarrow> host_call \<Rightarrow> bool" where
  "call_ok s c = (case c of
      MutexInit m a \<Rightarrow> object_at s m \<noteq> None
    | CondInit c a \<Rightarrow> object_at s c \<noteq> None
    | RwlockInit l a \<Rightarrow> object_at s l \<noteq> None \<and> (a = 0 \<or> is_HRwlockAttr (object_at s a))
    | RwlockattrInit a \<Rightarrow> object_at s a \<noteq> None
    | MutexDestroy m \<Rightarrow> is_HMutex (object_at s m)
    | MutexLock m \<Rightarrow> is_HMutex (object_at s m)
    | MutexTrylock m \<Rightarrow> is_HMutex (object_at s m)
    | MutexUnlock m \<Rightarrow> is_HMutex (object_at s m)
    | MutexClocklock m c t \<Rightarrow> is_HMutex (object_at s m)
    | CondDestroy c \<Rightarrow> is_HCond (object_at s c)
    | CondSignal c \<Rightarrow> is_HCond (object_at s c)
    | CondBroadcast c \<Rightarrow> is_HCond (object_at s c)
    | CondWait c m \<Rightarrow> is_HCond (object_at s c) \<and> is_HMutex (object_at s m)
    | CondTimedwait c m t \<Rightarrow> is_HCond (object_at s c) \<and> is_HMutex (object_at s m)
    | CondClockwait c m k t \<Rightarrow> is_HCond (object_at s c) \<and> is_HMutex (object_at s m)
    | RwlockDestroy l \<Rightarrow> is_HRwlock (object_at s l)
    | RwlockRdlock l \<Rightarrow> is_HRwlock (object_at s l)
    | RwlockTryrdlock l \<Rightarrow> is_HRwlock (object_at s l)
    | RwlockTimedrdlock l t \<Rightarrow> is_HRwlock (object_at s l)
    | RwlockWrlock l \<Rightarrow> is_HRwlock (object_at s l)
    | RwlockTrywrlock l \<Rightarrow> is_HRwlock (object_at s l)
    | RwlockTimedwrlock l t \<Rightarrow> is_HRwlock (object_at s l)
    | RwlockClockrdlock l k t \<Rightarrow> is_HRwlock (object_at s l)
    | RwlockClockwrlock l k t \<Rightarrow> is_HRwlock (object_at s l)
    | RwlockUnlock l \<Rightarrow> is_HRwlock (object_at s l)
    | RwlockattrDestroy a \<Rightarrow> is_HRwlockAttr (object_at s a)
    | RwlockattrSetpshared a p \<Rightarrow> is_HRwlockAttr (object_at s a)
    | RwlockattrGetpshared a \<Rightarrow> is_HRwlockAttr (object_at s a)
    | RwlockattrSetkind a k \<Rightarrow> is_HRwlockAttr (object_at s a)
    | RwlockattrGetkind a \<Rightarrow> is_HRwlockAttr (object_at s a))"

type_synonym 'a sync_run = "sync_fault + 'a \<times> sync_state"

definition host_op :: "sync_host \<Rightarrow> host_call \<Rightarrow> sync_state \<Rightarrow> int sync_run" where
  "host_op h c s = (if call_ok s c then Inr (sy_ret h c, s) else Inl (BadObject c))"

definition host_init :: "sync_host \<Rightarrow> host_call \<Rightarrow> u64 \<Rightarrow> host_object \<Rightarrow> sync_state \<Rightarrow> int sync_run" where
  "host_init h c ptr ob s =
     try_then (host_op h c s) (\<lambda>(ret, s1). Inr (ret, if ret = 0 then put_object ptr ob s1 else s1))"

definition host_malloc :: "sync_host \<Rightarrow> sync_state \<Rightarrow> u64 \<times> sync_state" where
  "host_malloc h s = (sy_malloc h, if sy_malloc h = 0 then s else s\<lparr>ss_heap := (ss_heap s)(sy_malloc h \<mapsto> Raw)\<rparr>)"

definition host_free :: "u64 \<Rightarrow> sync_state \<Rightarrow> sync_fault + sync_state" where
  "host_free ptr s = (if ptr = 0 then Inr s else if ss_heap s ptr = None then Inl (BadFree ptr)
     else Inr (s\<lparr>ss_heap := (ss_heap s)(ptr := None)\<rparr>))"

section \<open>Definitions\<close>

definition ANDROID_TOP_ADDR_VALUE_MUTEX :: u64 where "ANDROID_TOP_ADDR_VALUE_MUTEX = 0xFFFF"
definition ANDROID_TOP_ADDR_VALUE_COND :: u64 where "ANDROID_TOP_ADDR_VALUE_COND = 0xFFFF"
definition ANDROID_TOP_ADDR_VALUE_RWLOCK :: u64 where "ANDROID_TOP_ADDR_VALUE_RWLOCK = 0xFFFF"
definition ANDROID_PTHREAD_RECURSIVE_MUTEX_INITIALIZER :: u32 where "ANDROID_PTHREAD_RECURSIVE_MUTEX_INITIALIZER = 0x4000"
definition ANDROID_PTHREAD_ERRORCHECK_MUTEX_INITIALIZER :: u32 where "ANDROID_PTHREAD_ERRORCHECK_MUTEX_INITIALIZER = 0x8000"
definition ANDROID_MUTEX_SHARED_MASK :: u64 where "ANDROID_MUTEX_SHARED_MASK = 0x2000"

lemmas android_consts = ANDROID_TOP_ADDR_VALUE_MUTEX_def ANDROID_TOP_ADDR_VALUE_COND_def ANDROID_TOP_ADDR_VALUE_RWLOCK_def
  ANDROID_PTHREAD_RECURSIVE_MUTEX_INITIALIZER_def ANDROID_PTHREAD_ERRORCHECK_MUTEX_INITIALIZER_def ANDROID_MUTEX_SHARED_MASK_def

definition hybris_check_android_shared_mutex :: "u64 \<Rightarrow> bool" where
  "hybris_check_android_shared_mutex mutex_addr \<longleftrightarrow>
     mutex_addr \<le> ANDROID_TOP_ADDR_VALUE_MUTEX \<and> mutex_addr AND ANDROID_MUTEX_SHARED_MASK \<noteq> 0"

definition hybris_set_mutex_attr :: "u32 \<Rightarrow> mutex_kind" where
  "hybris_set_mutex_attr android_value =
     (if android_value AND ANDROID_PTHREAD_RECURSIVE_MUTEX_INITIALIZER \<noteq> 0 then PTHREAD_MUTEX_RECURSIVE
      else if android_value AND ANDROID_PTHREAD_ERRORCHECK_MUTEX_INITIALIZER \<noteq> 0 then PTHREAD_MUTEX_ERRORCHECK
      else PTHREAD_MUTEX_NORMAL)"

text \<open>The copies of the word happen under \<open>static_sync_guard\<close>, so that each is one atomic step.\<close>

definition hybris_read_sync_value :: "u64 \<Rightarrow> sync_state \<Rightarrow> sync_fault + u64" where
  "hybris_read_sync_value storage s = (if storage = 0 then Inl NullStorage else Inr (ss_mem s storage))"

definition write_storage :: "u64 \<Rightarrow> u64 \<Rightarrow> sync_state \<Rightarrow> sync_fault + sync_state" where
  "write_storage storage v s = (if storage = 0 then Inl NullStorage else Inr (s\<lparr>ss_mem := (ss_mem s)(storage := v)\<rparr>))"

definition hybris_get_static_mutex :: "sync_host \<Rightarrow> u64 \<Rightarrow> sync_state \<Rightarrow> u64 sync_run" where
  "hybris_get_static_mutex h storage s =
     try_then (hybris_read_sync_value storage s) (\<lambda>value.
       if value \<le> ANDROID_TOP_ADDR_VALUE_MUTEX then
         let (candidate, s1) = host_malloc h s in
         if candidate = 0 then Inl StaticNoMemory
         else let attr = KindAttr (hybris_set_mutex_attr (ucast value)) in
           try_then (host_init h (MutexInit candidate attr) candidate (HMutex attr) s1) (\<lambda>(error, s2).
             if error \<noteq> 0 then Inl (StaticInitFailed error)
             else try_then (write_storage storage candidate s2) (\<lambda>s3. Inr (candidate, s3)))
       else Inr (value, s))"

definition hybris_get_static_cond :: "sync_host \<Rightarrow> u64 \<Rightarrow> sync_state \<Rightarrow> u64 sync_run" where
  "hybris_get_static_cond h storage s =
     try_then (hybris_read_sync_value storage s) (\<lambda>value.
       if value \<le> ANDROID_TOP_ADDR_VALUE_COND then
         let (candidate, s1) = host_malloc h s in
         if candidate = 0 then Inl StaticNoMemory
         else
           try_then (host_init h (CondInit candidate 0) candidate (HCond 0) s1) (\<lambda>(error, s2).
             if error \<noteq> 0 then Inl (StaticInitFailed error)
             else try_then (write_storage storage candidate s2) (\<lambda>s3. Inr (candidate, s3)))
       else Inr (value, s))"

definition hybris_alloc_init_rwlock :: "sync_host \<Rightarrow> sync_state \<Rightarrow> u64 sync_run" where
  "hybris_alloc_init_rwlock h s =
     (let (realrwlock, s1) = host_malloc h s in
      if realrwlock = 0 then Inl StaticNoMemory
      else try_then (host_init h (RwlockInit realrwlock 0) realrwlock (HRwlock 0) s1) (\<lambda>(error, s2).
        if error \<noteq> 0 then Inl (StaticInitFailed error) else Inr (realrwlock, s2)))"

definition hybris_get_static_rwlock_value :: "sync_host \<Rightarrow> u64 \<Rightarrow> sync_state \<Rightarrow> u64 sync_run" where
  "hybris_get_static_rwlock_value h storage s =
     try_then (hybris_read_sync_value storage s) (\<lambda>value.
       if value \<le> ANDROID_TOP_ADDR_VALUE_RWLOCK then
         try_then (hybris_alloc_init_rwlock h s) (\<lambda>(value, s1).
           try_then (write_storage storage value s1) (\<lambda>s2. Inr (value, s2)))
       else Inr (value, s))"

section \<open>Mutex hooks\<close>

definition SIZEOF_PTHREAD_MUTEX_T :: u64 where "SIZEOF_PTHREAD_MUTEX_T = 48"
definition SIZEOF_PTHREAD_COND_T :: u64 where "SIZEOF_PTHREAD_COND_T = 48"
definition SIZEOF_PTHREAD_RWLOCK_T :: u64 where "SIZEOF_PTHREAD_RWLOCK_T = 56"

text \<open>Calls into the pool; a new block of the pool holds no object yet.\<close>

definition sync_shm_alloc :: "sync_host \<Rightarrow> u64 \<Rightarrow> sync_state \<Rightarrow> u64 sync_run" where
  "sync_shm_alloc h sz s =
     (case hybris_shm_alloc (sy_shm h) sz (ss_fs s) (ss_proc s) of
        Inl f \<Rightarrow> Inl (ShmFault f)
      | Inr (handle, fs, p) \<Rightarrow>
          Inr (handle, s\<lparr>ss_fs := fs, ss_proc := p,
            ss_shared := if handle = 0 then ss_shared s else (ss_shared s)(handle AND NOT HYBRIS_SHM_MASK \<mapsto> Raw)\<rparr>))"

definition sync_shmpointer :: "sync_host \<Rightarrow> u64 \<Rightarrow> sync_state \<Rightarrow> u64 sync_run" where
  "sync_shmpointer h handle s =
     (case hybris_get_shmpointer (sy_shm h) handle (ss_fs s) (ss_proc s) of
        Inl f \<Rightarrow> Inl (ShmFault f)
      | Inr (ptr, fs, p) \<Rightarrow> Inr (ptr, s\<lparr>ss_fs := fs, ss_proc := p\<rparr>))"

text \<open>The pointer of a stored value: the value itself, or the place of its handle.\<close>

definition real_pointer :: "sync_host \<Rightarrow> u64 \<Rightarrow> sync_state \<Rightarrow> u64 sync_run" where
  "real_pointer h value s = (if hybris_is_pointer_in_shm value then sync_shmpointer h value s else Inr (value, s))"

text \<open>The two sources of memory of the three init functions.\<close>

definition new_object :: "sync_host \<Rightarrow> bool \<Rightarrow> u64 \<Rightarrow> u64 \<Rightarrow> sync_state \<Rightarrow> u64 sync_run" where
  "new_object h pshared sz storage s =
     (if \<not> pshared then
        let (real, s1) = host_malloc h s in
        try_then (write_storage storage real s1) (\<lambda>s2. Inr (real, s2))
      else
        try_then (sync_shm_alloc h sz s) (\<lambda>(handle, s1).
        try_then (write_storage storage handle s1) (\<lambda>s2.
          if handle \<noteq> 0 then sync_shmpointer h handle s2 else Inr (0, s2))))"

definition hybris_hook_pthread_mutex_init :: "sync_host \<Rightarrow> u64 \<Rightarrow> u64 \<Rightarrow> sync_state \<Rightarrow> int sync_run" where
  "hybris_hook_pthread_mutex_init h mutex mutexattr s =
     (let pshared = (mutexattr \<noteq> 0 \<and> sy_mutexattr_pshared h mutexattr) in
      try_then (new_object h pshared SIZEOF_PTHREAD_MUTEX_T mutex s) (\<lambda>(realmutex, s1).
        if realmutex = 0 then Inr (ENOMEM, s1)
        else host_init h (MutexInit realmutex (HostAttr mutexattr)) realmutex (HMutex (HostAttr mutexattr)) s1))"

definition hybris_hook_pthread_mutex_destroy :: "sync_host \<Rightarrow> u64 \<Rightarrow> sync_state \<Rightarrow> int sync_run" where
  "hybris_hook_pthread_mutex_destroy h mutex s =
     (if mutex = 0 then Inr (EINVAL, s)
      else try_then (hybris_read_sync_value mutex s) (\<lambda>value.
        if value \<le> ANDROID_TOP_ADDR_VALUE_MUTEX \<and> \<not> hybris_check_android_shared_mutex value
        then try_then (write_storage mutex 0 s) (\<lambda>s1. Inr (0, s1))
        else if value = 0 then Inr (EINVAL, s)
        else
          try_then
            (if \<not> hybris_is_pointer_in_shm value then
               try_then (host_op h (MutexDestroy value) s) (\<lambda>(ret, s1).
                 if ret = 0 then try_then (host_free value s1) (\<lambda>s2. Inr (ret, False, s2)) else Inr (ret, False, s1))
             else
               try_then (sync_shmpointer h value s) (\<lambda>(realmutex, s1).
                 if realmutex = 0 then Inr (EINVAL, True, s1)
                 else try_then (host_op h (MutexDestroy realmutex) s1) (\<lambda>(ret, s2). Inr (ret, False, s2))))
            (\<lambda>(ret, returned, s3).
               if returned then Inr (ret, s3)
               else if ret = 0 then try_then (write_storage mutex 0 s3) (\<lambda>s4. Inr (ret, s4)) else Inr (ret, s3))))"

definition hybris_hook_pthread_mutex_lock :: "sync_host \<Rightarrow> u64 \<Rightarrow> sync_state \<Rightarrow> int sync_run" where
  "hybris_hook_pthread_mutex_lock h mutex s =
     (if mutex = 0 then Inr (0, s)
      else try_then (hybris_read_sync_value mutex s) (\<lambda>value.
        if hybris_check_android_shared_mutex value then Inr (0, s)
        else
          try_then (real_pointer h value s) (\<lambda>(realmutex, s1).
          try_then (if value \<le> ANDROID_TOP_ADDR_VALUE_MUTEX then hybris_get_static_mutex h mutex s1 else Inr (realmutex, s1))
            (\<lambda>(realmutex, s2). host_op h (MutexLock realmutex) s2))))"

definition hybris_hook_pthread_mutex_trylock :: "sync_host \<Rightarrow> u64 \<Rightarrow> sync_state \<Rightarrow> int sync_run" where
  "hybris_hook_pthread_mutex_trylock h mutex s =
     try_then (hybris_read_sync_value mutex s) (\<lambda>value.
        if hybris_check_android_shared_mutex value then Inr (0, s)
        else
          try_then (real_pointer h value s) (\<lambda>(realmutex, s1).
          try_then (if value \<le> ANDROID_TOP_ADDR_VALUE_MUTEX then hybris_get_static_mutex h mutex s1 else Inr (realmutex, s1))
            (\<lambda>(realmutex, s2). host_op h (MutexTrylock realmutex) s2)))"

definition hybris_hook_pthread_mutex_unlock :: "sync_host \<Rightarrow> u64 \<Rightarrow> sync_state \<Rightarrow> int sync_run" where
  "hybris_hook_pthread_mutex_unlock h mutex s =
     (if mutex = 0 then Inr (0, s)
      else try_then (hybris_read_sync_value mutex s) (\<lambda>value.
        if hybris_check_android_shared_mutex value then Inr (0, s)
        else if value \<le> ANDROID_TOP_ADDR_VALUE_MUTEX then Inr (0, s)
        else try_then (real_pointer h value s) (\<lambda>(realmutex, s1). host_op h (MutexUnlock realmutex) s1)))"

text \<open>\<open>tv\<close> after a number of milliseconds; the product of the unsigned remainder stays below a second.\<close>

definition add_msecs :: "timespec \<Rightarrow> u32 \<Rightarrow> timespec" where
  "add_msecs tv msecs =
     (let sec = tv_sec tv + uint (msecs div 1000);
          nsec = tv_nsec tv + uint ((msecs mod 1000) * 1000000)
      in if nsec \<ge> 1000000000 then \<lparr>tv_sec = sec + 1, tv_nsec = nsec - 1000000000\<rparr> else \<lparr>tv_sec = sec, tv_nsec = nsec\<rparr>)"

text \<open>As in the functions above, but an unresolved handle is refused.\<close>

definition timed_mutex :: "sync_host \<Rightarrow> u64 \<Rightarrow> u64 \<Rightarrow> sync_state \<Rightarrow> sync_fault + u64 option \<times> sync_state" where
  "timed_mutex h mutex value s =
     try_then (real_pointer h value s) (\<lambda>(realmutex, s1).
       if hybris_is_pointer_in_shm value \<and> realmutex = 0 then Inr (None, s1)
       else try_then (if value \<le> ANDROID_TOP_ADDR_VALUE_MUTEX then hybris_get_static_mutex h mutex s1 else Inr (realmutex, s1))
         (\<lambda>(realmutex, s2). Inr (Some realmutex, s2)))"

definition hybris_hook_pthread_mutex_lock_timeout_np :: "sync_host \<Rightarrow> u64 \<Rightarrow> u32 \<Rightarrow> sync_state \<Rightarrow> int sync_run" where
  "hybris_hook_pthread_mutex_lock_timeout_np h mutex msecs s =
     try_then (hybris_read_sync_value mutex s) (\<lambda>value.
        if hybris_check_android_shared_mutex value then Inr (0, s)
        else try_then (timed_mutex h mutex value s) (\<lambda>(real, s1).
          case real of
            None \<Rightarrow> Inr (EINVAL, s1)
          | Some realmutex \<Rightarrow>
              (case sy_clock h of
                 Inl errno \<Rightarrow> Inr (errno, s1)
               | Inr tv \<Rightarrow>
                   try_then (host_op h (MutexClocklock realmutex CLOCK_MONOTONIC (add_msecs tv msecs)) s1) (\<lambda>(error, s2).
                     Inr (if error = ETIMEDOUT then EBUSY else error, s2)))))"

definition mutex_timedlock_clock :: "sync_host \<Rightarrow> u64 \<Rightarrow> timespec option \<Rightarrow> int \<Rightarrow> sync_state \<Rightarrow> int sync_run" where
  "mutex_timedlock_clock h mutex abs_timeout clock s =
     (if mutex = 0 then Inr (0, s)
      else try_then (hybris_read_sync_value mutex s) (\<lambda>value.
        if hybris_check_android_shared_mutex value then Inr (0, s)
        else try_then (timed_mutex h mutex value s) (\<lambda>(real, s1).
          case real of
            None \<Rightarrow> Inr (EINVAL, s1)
          | Some realmutex \<Rightarrow>
              (case abs_timeout of
                 None \<Rightarrow> host_op h (MutexLock realmutex) s1
               | Some deadline \<Rightarrow> host_op h (MutexClocklock realmutex clock deadline) s1))))"

definition hybris_hook_pthread_mutex_timedlock :: "sync_host \<Rightarrow> u64 \<Rightarrow> timespec option \<Rightarrow> sync_state \<Rightarrow> int sync_run" where
  "hybris_hook_pthread_mutex_timedlock h mutex deadline s = mutex_timedlock_clock h mutex deadline CLOCK_REALTIME s"

definition hybris_hook_pthread_mutex_timedlock_monotonic_np ::
    "sync_host \<Rightarrow> u64 \<Rightarrow> timespec option \<Rightarrow> sync_state \<Rightarrow> int sync_run" where
  "hybris_hook_pthread_mutex_timedlock_monotonic_np h mutex deadline s =
     mutex_timedlock_clock h mutex deadline CLOCK_MONOTONIC s"

section \<open>Read-write lock hooks\<close>

definition PTHREAD_RWLOCK_PREFER_READER_NP :: int where "PTHREAD_RWLOCK_PREFER_READER_NP = 0"
definition PTHREAD_RWLOCK_PREFER_WRITER_NP :: int where "PTHREAD_RWLOCK_PREFER_WRITER_NP = 1"
definition PTHREAD_RWLOCK_PREFER_WRITER_NONRECURSIVE_NP :: int where "PTHREAD_RWLOCK_PREFER_WRITER_NONRECURSIVE_NP = 2"

lemmas rwlock_kinds = PTHREAD_RWLOCK_PREFER_READER_NP_def PTHREAD_RWLOCK_PREFER_WRITER_NP_def
  PTHREAD_RWLOCK_PREFER_WRITER_NONRECURSIVE_NP_def

text \<open>The fields of a live attribute object.\<close>

fun attr_pshared :: "host_object option \<Rightarrow> int" where
  "attr_pshared (Some (HRwlockAttr p k)) = p" | "attr_pshared ob = 0"
fun attr_kind :: "host_object option \<Rightarrow> int" where
  "attr_kind (Some (HRwlockAttr p k)) = k" | "attr_kind ob = 0"

definition hybris_hook_pthread_rwlockattr_init :: "sync_host \<Rightarrow> u64 \<Rightarrow> sync_state \<Rightarrow> int sync_run" where
  "hybris_hook_pthread_rwlockattr_init h attr s =
     (let (realattr, s1) = host_malloc h s in
      try_then (write_storage attr realattr s1) (\<lambda>s2.
        host_init h (RwlockattrInit realattr) realattr (HRwlockAttr 0 PTHREAD_RWLOCK_PREFER_READER_NP) s2))"

definition hybris_hook_pthread_rwlockattr_destroy :: "sync_host \<Rightarrow> u64 \<Rightarrow> sync_state \<Rightarrow> int sync_run" where
  "hybris_hook_pthread_rwlockattr_destroy h attr s =
     try_then (hybris_read_sync_value attr s) (\<lambda>realattr.
     try_then (host_op h (RwlockattrDestroy realattr) s) (\<lambda>(ret, s1).
     try_then (host_free realattr s1) (\<lambda>s2. Inr (ret, s2))))"

definition hybris_hook_pthread_rwlockattr_setpshared :: "sync_host \<Rightarrow> u64 \<Rightarrow> int \<Rightarrow> sync_state \<Rightarrow> int sync_run" where
  "hybris_hook_pthread_rwlockattr_setpshared h attr pshared s =
     try_then (hybris_read_sync_value attr s) (\<lambda>realattr.
       host_init h (RwlockattrSetpshared realattr pshared) realattr (HRwlockAttr pshared (attr_kind (object_at s realattr))) s)"

text \<open>The second component is what \<open>*pshared\<close> holds afterwards, if it was written.\<close>

definition hybris_hook_pthread_rwlockattr_getpshared ::
    "sync_host \<Rightarrow> u64 \<Rightarrow> sync_state \<Rightarrow> (int \<times> int option) sync_run" where
  "hybris_hook_pthread_rwlockattr_getpshared h attr s =
     try_then (hybris_read_sync_value attr s) (\<lambda>realattr.
     try_then (host_op h (RwlockattrGetpshared realattr) s) (\<lambda>(ret, s1).
       Inr ((ret, if ret = 0 then Some (attr_pshared (object_at s1 realattr)) else None), s1)))"

definition hybris_hook_pthread_rwlockattr_setkind_np :: "sync_host \<Rightarrow> u64 \<Rightarrow> int \<Rightarrow> sync_state \<Rightarrow> int sync_run" where
  "hybris_hook_pthread_rwlockattr_setkind_np h attr pref s =
     try_then (hybris_read_sync_value attr s) (\<lambda>realattr.
       let set_kind = (\<lambda>kind. host_init h (RwlockattrSetkind realattr kind) realattr
             (HRwlockAttr (attr_pshared (object_at s realattr)) kind) s)
       in if pref = 0 then set_kind PTHREAD_RWLOCK_PREFER_READER_NP
          else if pref = 1 then set_kind PTHREAD_RWLOCK_PREFER_WRITER_NONRECURSIVE_NP
          else Inr (EINVAL, s))"

definition hybris_hook_pthread_rwlockattr_getkind_np ::
    "sync_host \<Rightarrow> u64 \<Rightarrow> sync_state \<Rightarrow> (int \<times> int option) sync_run" where
  "hybris_hook_pthread_rwlockattr_getkind_np h attr s =
     try_then (hybris_read_sync_value attr s) (\<lambda>realattr.
     try_then (host_op h (RwlockattrGetkind realattr) s) (\<lambda>(error, s1).
       let host_pref = attr_kind (object_at s1 realattr) in
       if error \<noteq> 0 then Inr ((error, None), s1)
       else if host_pref = PTHREAD_RWLOCK_PREFER_READER_NP then Inr ((0, Some 0), s1)
       else if host_pref = PTHREAD_RWLOCK_PREFER_WRITER_NONRECURSIVE_NP then Inr ((0, Some 1), s1)
       else Inr ((EINVAL, None), s1)))"

definition hybris_hook_pthread_rwlock_init :: "sync_host \<Rightarrow> u64 \<Rightarrow> u64 \<Rightarrow> sync_state \<Rightarrow> int sync_run" where
  "hybris_hook_pthread_rwlock_init h rwlock attr s =
     try_then (if attr \<noteq> 0 then hybris_read_sync_value attr s else Inr 0) (\<lambda>realattr.
     try_then (if realattr \<noteq> 0 then host_op h (RwlockattrGetpshared realattr) s else Inr (0, s)) (\<lambda>(ret, s1).
       let pshared = (if realattr \<noteq> 0 \<and> ret = 0 then attr_pshared (object_at s1 realattr) else 0) in
       try_then (new_object h (pshared \<noteq> 0) SIZEOF_PTHREAD_RWLOCK_T rwlock s1) (\<lambda>(realrwlock, s2).
         if realrwlock = 0 then Inr (ENOMEM, s2)
         else host_init h (RwlockInit realrwlock realattr) realrwlock (HRwlock realattr) s2)))"

definition hybris_hook_pthread_rwlock_destroy :: "sync_host \<Rightarrow> u64 \<Rightarrow> sync_state \<Rightarrow> int sync_run" where
  "hybris_hook_pthread_rwlock_destroy h rwlock s =
     try_then (hybris_read_sync_value rwlock s) (\<lambda>value.
       if value \<le> ANDROID_TOP_ADDR_VALUE_RWLOCK then try_then (write_storage rwlock 0 s) (\<lambda>s1. Inr (0, s1))
       else if \<not> hybris_is_pointer_in_shm value then
         try_then (host_op h (RwlockDestroy value) s) (\<lambda>(ret, s1).
         try_then (host_free value s1) (\<lambda>s2. Inr (ret, s2)))
       else
         try_then (sync_shmpointer h value s) (\<lambda>(realrwlock, s1).
           if realrwlock = 0 then Inr (EINVAL, s1) else host_op h (RwlockDestroy realrwlock) s1))"

definition hybris_set_realrwlock :: "sync_host \<Rightarrow> u64 \<Rightarrow> sync_state \<Rightarrow> u64 sync_run" where
  "hybris_set_realrwlock h rwlock s =
     try_then (hybris_get_static_rwlock_value h rwlock s) (\<lambda>(value, s1). real_pointer h value s1)"

definition hybris_hook_pthread_rwlock_rdlock :: "sync_host \<Rightarrow> u64 \<Rightarrow> sync_state \<Rightarrow> int sync_run" where
  "hybris_hook_pthread_rwlock_rdlock h rwlock s =
     try_then (hybris_set_realrwlock h rwlock s) (\<lambda>(real, s1). host_op h (RwlockRdlock real) s1)"

definition hybris_hook_pthread_rwlock_tryrdlock :: "sync_host \<Rightarrow> u64 \<Rightarrow> sync_state \<Rightarrow> int sync_run" where
  "hybris_hook_pthread_rwlock_tryrdlock h rwlock s =
     try_then (hybris_set_realrwlock h rwlock s) (\<lambda>(real, s1). host_op h (RwlockTryrdlock real) s1)"

definition hybris_hook_pthread_rwlock_timedrdlock :: "sync_host \<Rightarrow> u64 \<Rightarrow> timespec option \<Rightarrow> sync_state \<Rightarrow> int sync_run" where
  "hybris_hook_pthread_rwlock_timedrdlock h rwlock abs_timeout s =
     try_then (hybris_set_realrwlock h rwlock s) (\<lambda>(real, s1). host_op h (RwlockTimedrdlock real abs_timeout) s1)"

definition hybris_hook_pthread_rwlock_wrlock :: "sync_host \<Rightarrow> u64 \<Rightarrow> sync_state \<Rightarrow> int sync_run" where
  "hybris_hook_pthread_rwlock_wrlock h rwlock s =
     try_then (hybris_set_realrwlock h rwlock s) (\<lambda>(real, s1). host_op h (RwlockWrlock real) s1)"

definition hybris_hook_pthread_rwlock_trywrlock :: "sync_host \<Rightarrow> u64 \<Rightarrow> sync_state \<Rightarrow> int sync_run" where
  "hybris_hook_pthread_rwlock_trywrlock h rwlock s =
     try_then (hybris_set_realrwlock h rwlock s) (\<lambda>(real, s1). host_op h (RwlockTrywrlock real) s1)"

definition hybris_hook_pthread_rwlock_timedwrlock :: "sync_host \<Rightarrow> u64 \<Rightarrow> timespec option \<Rightarrow> sync_state \<Rightarrow> int sync_run" where
  "hybris_hook_pthread_rwlock_timedwrlock h rwlock abs_timeout s =
     try_then (hybris_set_realrwlock h rwlock s) (\<lambda>(real, s1). host_op h (RwlockTimedwrlock real abs_timeout) s1)"

definition hybris_hook_pthread_rwlock_timedrdlock_monotonic_np ::
    "sync_host \<Rightarrow> u64 \<Rightarrow> timespec option \<Rightarrow> sync_state \<Rightarrow> int sync_run" where
  "hybris_hook_pthread_rwlock_timedrdlock_monotonic_np h rwlock deadline s =
     try_then (hybris_set_realrwlock h rwlock s) (\<lambda>(real, s1).
       if real = 0 then Inr (EINVAL, s1)
       else case deadline of
         Some t \<Rightarrow> host_op h (RwlockClockrdlock real CLOCK_MONOTONIC t) s1
       | None \<Rightarrow> host_op h (RwlockRdlock real) s1)"

definition hybris_hook_pthread_rwlock_timedwrlock_monotonic_np ::
    "sync_host \<Rightarrow> u64 \<Rightarrow> timespec option \<Rightarrow> sync_state \<Rightarrow> int sync_run" where
  "hybris_hook_pthread_rwlock_timedwrlock_monotonic_np h rwlock deadline s =
     try_then (hybris_set_realrwlock h rwlock s) (\<lambda>(real, s1).
       if real = 0 then Inr (EINVAL, s1)
       else case deadline of
         Some t \<Rightarrow> host_op h (RwlockClockwrlock real CLOCK_MONOTONIC t) s1
       | None \<Rightarrow> host_op h (RwlockWrlock real) s1)"

definition hybris_hook_pthread_rwlock_unlock :: "sync_host \<Rightarrow> u64 \<Rightarrow> sync_state \<Rightarrow> int sync_run" where
  "hybris_hook_pthread_rwlock_unlock h rwlock s =
     try_then (hybris_read_sync_value rwlock s) (\<lambda>value.
       if value \<le> ANDROID_TOP_ADDR_VALUE_RWLOCK then Inr (0, s)
       else try_then (real_pointer h value s) (\<lambda>(real, s1). host_op h (RwlockUnlock real) s1))"

end
