(* ===== verification/Bionic_Cond.thy ===== *)
theory Bionic_Cond
  imports Bionic_Sync
begin

text \<open>
  The condition-variable hooks: \<open>hybris/common/bionic_cond.c\<close>, on the state of \<open>Bionic_Sync\<close>.  A
  condition variable that is shared with Android is woken by a futex on the first four bytes of its
  storage word.
\<close>

section \<open>Conditions shared with Android\<close>

definition ANDROID_COND_SHARED_MASK :: u32 where "ANDROID_COND_SHARED_MASK = 0x0001"
definition ANDROID_COND_COUNTER_INCREMENT :: u64 where "ANDROID_COND_COUNTER_INCREMENT = 0x0002"
definition ANDROID_COND_COUNTER_MASK :: u32 where "ANDROID_COND_COUNTER_MASK = NOT ANDROID_COND_SHARED_MASK"
definition INT_MAX :: int where "INT_MAX = 2147483647"

lemmas cond_consts = ANDROID_COND_SHARED_MASK_def ANDROID_COND_COUNTER_INCREMENT_def ANDROID_COND_COUNTER_MASK_def

definition hybris_check_android_shared_cond :: "u64 \<Rightarrow> bool" where
  "hybris_check_android_shared_cond cond_addr \<longleftrightarrow>
     cond_addr \<le> ANDROID_TOP_ADDR_VALUE_COND \<and> cond_addr AND ucast ANDROID_COND_SHARED_MASK \<noteq> 0 \<or>
     cond_addr > HYBRIS_SHM_MASK_TOP"

text \<open>The \<open>int\<close> at the start of the storage word.\<close>

definition android_cond_value :: "u64 \<Rightarrow> sync_state \<Rightarrow> u32" where
  "android_cond_value cond s = ucast (ss_mem s cond)"

definition set_android_cond_value :: "u64 \<Rightarrow> u32 \<Rightarrow> sync_state \<Rightarrow> sync_state" where
  "set_android_cond_value cond v s = s\<lparr>ss_mem := (ss_mem s)(cond := (ss_mem s cond AND NOT (mask 32)) OR ucast v)\<rparr>"

definition pulse_newval :: "u64 \<Rightarrow> u32 \<Rightarrow> u32" where
  "pulse_newval flags v =
     (let oldval = (scast v :: u64) in
      ucast (if sint oldval < -12
             then ((oldval + ANDROID_COND_COUNTER_INCREMENT) AND scast ANDROID_COND_COUNTER_MASK) OR flags
             else ((oldval - ANDROID_COND_COUNTER_INCREMENT) AND scast ANDROID_COND_COUNTER_MASK) OR flags))"

text \<open>
  The compare-and-swap loop; the list holds, for each attempt, the value that another thread may have
  stored between the load and the swap.
\<close>

fun pulse_loop :: "u64 \<Rightarrow> u32 list \<Rightarrow> u32 \<Rightarrow> u32" where
  "pulse_loop flags [] v = pulse_newval flags v"
| "pulse_loop flags (other # races) v =
     (if other = v then pulse_newval flags v else pulse_loop flags races other)"

definition android_pthread_cond_pulse :: "u32 list \<Rightarrow> u64 \<Rightarrow> int \<Rightarrow> sync_state \<Rightarrow> int \<times> sync_state" where
  "android_pthread_cond_pulse races cond counter s =
     (if cond = 0 then (EINVAL, s)
      else
        let flags = (scast (android_cond_value cond s AND NOT ANDROID_COND_COUNTER_MASK) :: u64);
            s1 = set_android_cond_value cond (pulse_loop flags races (android_cond_value cond s)) s;
            pshared = (android_cond_value cond s1 AND ANDROID_COND_SHARED_MASK \<noteq> 0)
        in (0, s1\<lparr>ss_wakes := ss_wakes s1 @ [(cond, pshared, counter)]\<rparr>))"

definition android_pthread_cond_broadcast :: "u32 list \<Rightarrow> u64 \<Rightarrow> sync_state \<Rightarrow> int \<times> sync_state" where
  "android_pthread_cond_broadcast races cond s = android_pthread_cond_pulse races cond INT_MAX s"

definition android_pthread_cond_signal :: "u32 list \<Rightarrow> u64 \<Rightarrow> sync_state \<Rightarrow> int \<times> sync_state" where
  "android_pthread_cond_signal races cond s = android_pthread_cond_pulse races cond 1 s"

section \<open>Hooks\<close>

definition hybris_hook_pthread_cond_init :: "sync_host \<Rightarrow> u64 \<Rightarrow> u64 \<Rightarrow> sync_state \<Rightarrow> int sync_run" where
  "hybris_hook_pthread_cond_init h cond attr s =
     (let pshared = (attr \<noteq> 0 \<and> sy_condattr_pshared h attr) in
      try_then (new_object h pshared SIZEOF_PTHREAD_COND_T cond s) (\<lambda>(realcond, s1).
        if realcond = 0 then Inr (ENOMEM, s1)
        else host_init h (CondInit realcond attr) realcond (HCond attr) s1))"

text \<open>The write to \<open>__wrefs\<close> of a private condition needs it to be alive, as its destruction does.\<close>

definition hybris_hook_pthread_cond_destroy :: "sync_host \<Rightarrow> u64 \<Rightarrow> sync_state \<Rightarrow> int sync_run" where
  "hybris_hook_pthread_cond_destroy h cond s =
     try_then (hybris_read_sync_value cond s) (\<lambda>value.
       if value \<le> ANDROID_TOP_ADDR_VALUE_COND \<and> \<not> hybris_check_android_shared_cond value
       then try_then (write_storage cond 0 s) (\<lambda>s1. Inr (0, s1))
       else if value = 0 then Inr (EINVAL, s)
       else
         try_then
           (if \<not> hybris_is_pointer_in_shm value then
              try_then (host_op h (CondDestroy value) s) (\<lambda>(ret, s1).
              try_then (host_free value s1) (\<lambda>s2. Inr (ret, s2)))
            else
              try_then (sync_shmpointer h value s) (\<lambda>(realcond, s1). host_op h (CondDestroy realcond) s1))
           (\<lambda>(ret, s3). try_then (write_storage cond 0 s3) (\<lambda>s4. Inr (ret, s4))))"

definition hybris_hook_pthread_cond_broadcast :: "sync_host \<Rightarrow> u32 list \<Rightarrow> u64 \<Rightarrow> sync_state \<Rightarrow> int sync_run" where
  "hybris_hook_pthread_cond_broadcast h races cond s =
     try_then (hybris_read_sync_value cond s) (\<lambda>value.
       if hybris_check_android_shared_cond value then Inr (android_pthread_cond_broadcast races cond s)
       else
         try_then (real_pointer h value s) (\<lambda>(realcond, s1).
         try_then (if value \<le> ANDROID_TOP_ADDR_VALUE_COND then hybris_get_static_cond h cond s1 else Inr (realcond, s1))
           (\<lambda>(realcond, s2). host_op h (CondBroadcast realcond) s2)))"

definition hybris_hook_pthread_cond_signal :: "sync_host \<Rightarrow> u32 list \<Rightarrow> u64 \<Rightarrow> sync_state \<Rightarrow> int sync_run" where
  "hybris_hook_pthread_cond_signal h races cond s =
     try_then (hybris_read_sync_value cond s) (\<lambda>value.
       if hybris_check_android_shared_cond value then Inr (android_pthread_cond_signal races cond s)
       else
         try_then (real_pointer h value s) (\<lambda>(realcond, s1).
         try_then (if value \<le> ANDROID_TOP_ADDR_VALUE_COND then hybris_get_static_cond h cond s1 else Inr (realcond, s1))
           (\<lambda>(realcond, s2). host_op h (CondSignal realcond) s2)))"

text \<open>
  The three waiting functions find the condition and the mutex in the same way; two objects may be
  created, from two answers of the host's allocator.
\<close>

definition wait_objects ::
    "sync_host \<Rightarrow> sync_host \<Rightarrow> u64 \<Rightarrow> u64 \<Rightarrow> u64 \<Rightarrow> u64 \<Rightarrow> sync_state \<Rightarrow> (u64 \<times> u64) sync_run" where
  "wait_objects hc hm cond mutex cvalue mvalue s =
     try_then (real_pointer hc cvalue s) (\<lambda>(realcond, s1).
     try_then (if cvalue \<le> ANDROID_TOP_ADDR_VALUE_COND then hybris_get_static_cond hc cond s1 else Inr (realcond, s1)) (\<lambda>(realcond, s2).
     try_then (real_pointer hm mvalue s2) (\<lambda>(realmutex, s3).
     try_then (if mvalue \<le> ANDROID_TOP_ADDR_VALUE_MUTEX then hybris_get_static_mutex hm mutex s3 else Inr (realmutex, s3)) (\<lambda>(realmutex, s4).
       Inr ((realcond, realmutex), s4)))))"

definition hybris_hook_pthread_cond_wait :: "sync_host \<Rightarrow> sync_host \<Rightarrow> u64 \<Rightarrow> u64 \<Rightarrow> sync_state \<Rightarrow> int sync_run" where
  "hybris_hook_pthread_cond_wait hc hm cond mutex s =
     try_then (hybris_read_sync_value cond s) (\<lambda>cvalue.
     try_then (hybris_read_sync_value mutex s) (\<lambda>mvalue.
       if hybris_check_android_shared_cond cvalue \<or> hybris_check_android_shared_mutex mvalue then Inr (0, s)
       else try_then (wait_objects hc hm cond mutex cvalue mvalue s) (\<lambda>((realcond, realmutex), s1).
         host_op hm (CondWait realcond realmutex) s1)))"

definition hybris_hook_pthread_cond_clockwait ::
    "sync_host \<Rightarrow> sync_host \<Rightarrow> u64 \<Rightarrow> u64 \<Rightarrow> int \<Rightarrow> timespec \<Rightarrow> sync_state \<Rightarrow> int sync_run" where
  "hybris_hook_pthread_cond_clockwait hc hm cond mutex clock_id abstime s =
     try_then (hybris_read_sync_value cond s) (\<lambda>cvalue.
     try_then (hybris_read_sync_value mutex s) (\<lambda>mvalue.
       if hybris_check_android_shared_cond cvalue \<or> hybris_check_android_shared_mutex mvalue then Inr (0, s)
       else try_then (wait_objects hc hm cond mutex cvalue mvalue s) (\<lambda>((realcond, realmutex), s1).
         host_op hm (CondClockwait realcond realmutex clock_id abstime) s1)))"

definition hybris_hook_pthread_cond_timedwait_monotonic ::
    "sync_host \<Rightarrow> sync_host \<Rightarrow> u64 \<Rightarrow> u64 \<Rightarrow> timespec \<Rightarrow> sync_state \<Rightarrow> int sync_run" where
  "hybris_hook_pthread_cond_timedwait_monotonic hc hm cond mutex abstime s =
     hybris_hook_pthread_cond_clockwait hc hm cond mutex CLOCK_MONOTONIC abstime s"

definition hybris_hook_pthread_cond_timedwait ::
    "sync_host \<Rightarrow> sync_host \<Rightarrow> u64 \<Rightarrow> u64 \<Rightarrow> timespec \<Rightarrow> sync_state \<Rightarrow> int sync_run" where
  "hybris_hook_pthread_cond_timedwait hc hm cond mutex abstime s =
     try_then (hybris_read_sync_value cond s) (\<lambda>cvalue.
     try_then (hybris_read_sync_value mutex s) (\<lambda>mvalue.
       if hybris_check_android_shared_cond cvalue \<or> hybris_check_android_shared_mutex mvalue then Inr (0, s)
       else try_then (wait_objects hc hm cond mutex cvalue mvalue s) (\<lambda>((realcond, realmutex), s1).
         host_op hm (CondTimedwait realcond realmutex abstime) s1)))"

text \<open>\<open>__builtin_add_overflow\<close> on \<open>time_t\<close>: the sum, unless it is out of range.\<close>

definition time_add :: "int \<Rightarrow> int \<Rightarrow> int option" where
  "time_add a b = (if -(2 ^ 63) \<le> a + b \<and> a + b < 2 ^ 63 then Some (a + b) else None)"

definition relative_deadline :: "timespec \<Rightarrow> timespec \<Rightarrow> timespec option" where
  "relative_deadline now reltime =
     (case time_add (tv_sec now) (tv_sec reltime) of
        None \<Rightarrow> None
      | Some sec \<Rightarrow>
          let nsec = tv_nsec now + tv_nsec reltime in
          if nsec \<ge> 1000000000 then
            (case time_add sec 1 of
               None \<Rightarrow> None
             | Some sec' \<Rightarrow> Some \<lparr>tv_sec = sec', tv_nsec = nsec - 1000000000\<rparr>)
          else Some \<lparr>tv_sec = sec, tv_nsec = nsec\<rparr>)"

definition hybris_hook_pthread_cond_timedwait_relative_np ::
    "sync_host \<Rightarrow> sync_host \<Rightarrow> u64 \<Rightarrow> u64 \<Rightarrow> timespec option \<Rightarrow> sync_state \<Rightarrow> int sync_run" where
  "hybris_hook_pthread_cond_timedwait_relative_np hc hm cond mutex reltime s =
     (case reltime of
        None \<Rightarrow> Inr (EINVAL, s)
      | Some rel \<Rightarrow>
          if tv_sec rel < 0 \<or> tv_nsec rel < 0 \<or> tv_nsec rel \<ge> 1000000000 then Inr (EINVAL, s)
          else case sy_clock hc of
            Inl errno \<Rightarrow> Inr (errno, s)
          | Inr now \<Rightarrow>
              (case relative_deadline now rel of
                 None \<Rightarrow> Inr (EINVAL, s)
               | Some deadline \<Rightarrow> hybris_hook_pthread_cond_clockwait hc hm cond mutex CLOCK_MONOTONIC deadline s))"

end
