(* ===== verification/Sync_Safety.thy ===== *)
theory Sync_Safety
  imports Bionic_Cond
begin

text \<open>
  Safety of the synchronisation hooks taken together: threads call the hooks on statically
  initialised and on initialised objects, in any order, and the host is never handed a pointer that is
  not a live object of the right kind.  The invariant relates every storage word to the object it
  denotes; an owner is never shared by two words.
\<close>

section \<open>What a storage word denotes\<close>

datatype storage_kind = KMutex | KCond | KRwlock

type_synonym kinds = "u64 \<Rightarrow> storage_kind option"

fun has_kind :: "storage_kind \<Rightarrow> host_object \<Rightarrow> bool" where
  "has_kind KMutex (HMutex k) = True"
| "has_kind KCond (HCond k) = True"
| "has_kind KRwlock (HRwlock k) = True"
| "has_kind k ob = False"

fun android_shared :: "storage_kind \<Rightarrow> u64 \<Rightarrow> bool" where
  "android_shared KMutex v = hybris_check_android_shared_mutex v"
| "android_shared KCond v = hybris_check_android_shared_cond v"
| "android_shared KRwlock v = False"

definition denotes :: "sync_state \<Rightarrow> u64 \<Rightarrow> host_object \<Rightarrow> bool" where
  "denotes s v ob \<longleftrightarrow>
     (if hybris_is_pointer_in_shm v
      then ss_shared s (v AND NOT HYBRIS_SHM_MASK) = Some ob \<and> place_of v < pool_top (ss_fs s)
      else ss_heap s v = Some ob)"

definition word_ok :: "sync_state \<Rightarrow> storage_kind \<Rightarrow> u64 \<Rightarrow> bool" where
  "word_ok s k v \<longleftrightarrow> (if v \<le> 0xFFFF then \<not> android_shared k v else \<exists>ob. denotes s v ob \<and> has_kind k ob)"

definition in_pool :: "u64 \<Rightarrow> u64 \<Rightarrow> bool" where
  "in_pool base x \<longleftrightarrow> unat base \<le> unat x \<and> unat x < unat base + 2 ^ 26"

definition heap_apart :: "sync_state \<Rightarrow> bool" where
  "heap_apart s \<longleftrightarrow> (\<forall>x \<in> dom (ss_heap s). 0xFFFF < unat x \<and> unat x < 2 ^ 47 \<and>
     (shm_fd (ss_proc s) \<ge> 0 \<longrightarrow> \<not> in_pool (shm_data (ss_proc s)) x))"

definition sync_inv :: "kinds \<Rightarrow> sync_state \<Rightarrow> bool" where
  "sync_inv K s \<longleftrightarrow> fs_ok (ss_fs s) \<and> proc_ok (ss_fs s) (ss_proc s) \<and> heap_apart s \<and> K 0 = None \<and>
     (\<forall>a k. K a = Some k \<longrightarrow> word_ok s k (ss_mem s a)) \<and>
     (\<forall>a b. a \<noteq> b \<longrightarrow> K a \<noteq> None \<longrightarrow> K b \<noteq> None \<longrightarrow> ss_mem s a = ss_mem s b \<longrightarrow> ss_mem s a \<le> 0xFFFF)"

text \<open>
  What is assumed of the host: its mappings and its heap blocks do not overlap, and a new block is
  not one that is in use.
\<close>

definition fresh_block :: "sync_host \<Rightarrow> sync_state \<Rightarrow> bool" where
  "fresh_block h s \<longleftrightarrow> (let m = sy_malloc h in m \<noteq> 0 \<longrightarrow>
     0xFFFF < unat m \<and> unat m < 2 ^ 47 \<and> ss_heap s m = None \<and>
     (\<forall>base. from_host (sy_shm h) (ss_proc s) base \<longrightarrow> \<not> in_pool base m))"

definition host_good :: "sync_host \<Rightarrow> sync_state \<Rightarrow> bool" where
  "host_good h s \<longleftrightarrow> host_ok (sy_shm h) \<and> fresh_block h s \<and>
     (\<forall>x \<in> dom (ss_heap s). \<not> in_pool (sh_mmap (sy_shm h)) x \<and> \<not> in_pool (sh_mremap (sy_shm h)) x)"

text \<open>The failures that do not come from a bad pointer: the two fatal errors of static objects.\<close>

fun benign :: "sync_fault \<Rightarrow> bool" where
  "benign StaticNoMemory = True"
| "benign (StaticInitFailed e) = True"
| "benign e = False"

definition good_run :: "kinds \<Rightarrow> 'a sync_run \<Rightarrow> bool" where
  "good_run K r = (case r of Inl e \<Rightarrow> benign e | Inr (x, s) \<Rightarrow> sync_inv K s)"

lemma good_run_simps [simp]: "good_run K (Inl e) = benign e" "good_run K (Inr (x, s)) = sync_inv K s"
  by (simp_all add: good_run_def)

section \<open>Resolving a word\<close>

lemma object_at_heap: "ss_heap s v = Some ob \<Longrightarrow> v \<noteq> 0 \<Longrightarrow> object_at s v = Some ob"
  by (simp add: object_at_def)

lemma heap_apart_nonzero: "heap_apart s \<Longrightarrow> ss_heap s 0 = None"
  by (cases "ss_heap s 0") (auto simp: heap_apart_def dest!: bspec[of _ _ 0])

lemma in_shm_place:
  assumes "hybris_is_pointer_in_shm v"
  shows "v = handle_of (place_of v)" and "place_of v \<le> 2 ^ 24 - 16"
proof -
  have ge: "unat HYBRIS_SHM_MASK \<le> unat v" and le: "unat v \<le> unat HYBRIS_SHM_MASK_TOP"
    using assms by (simp_all add: hybris_is_pointer_in_shm_def word_le_nat_alt)
  have c: "unat HYBRIS_SHM_MASK = 2 ^ 64 - 2 ^ 24" "unat HYBRIS_SHM_MASK_TOP = 2 ^ 64 - 16"
    by (simp_all only: HYBRIS_SHM_MASK_def HYBRIS_SHM_MASK_TOP_def) simp_all
  have lt: "unat v < 2 ^ 64" using unsigned_less[of v, where ?'a = nat] by simp
  then have "unat v div 2 ^ 24 < 2 ^ 40" by (simp add: less_mult_imp_div_less)
  moreover have "2 ^ 40 - 1 \<le> unat v div 2 ^ 24" using div_le_mono[OF ge, of "2 ^ 24"] unfolding c by simp
  ultimately have d: "unat v div 2 ^ 24 = 2 ^ 40 - 1" by simp
  have "unat (v AND HYBRIS_SHM_MASK) = unat v div 2 ^ 24 * 2 ^ 24" unfolding shm_mask by (rule unat_and_not_mask64)
  also have "\<dots> = unat HYBRIS_SHM_MASK" unfolding d c by simp
  finally have mask: "v AND HYBRIS_SHM_MASK = HYBRIS_SHM_MASK" by (simp only: word_unat_eq_iff)
  show v: "v = handle_of (place_of v)" by (rule handle_of_place(1)[OF mask])
  have "unat v = unat HYBRIS_SHM_MASK + place_of v"
    using unat_handle[OF handle_of_place(2)[OF mask]] v by simp
  then show "place_of v \<le> 2 ^ 24 - 16" using le unfolding c by simp
qed

text \<open>A pool that only grows and a heap of the same blocks keep what the words denote.\<close>

lemma sync_inv_pool:
  assumes "sync_inv K s" and "fs_ok fs" "proc_ok fs p" "pool_top (ss_fs s) \<le> pool_top fs"
    and "\<And>x. x \<in> dom (ss_heap s) \<Longrightarrow> shm_fd p \<ge> 0 \<Longrightarrow> \<not> in_pool (shm_data p) x"
  shows "sync_inv K (s\<lparr>ss_fs := fs, ss_proc := p\<rparr>)"
  using assms unfolding sync_inv_def heap_apart_def word_ok_def denotes_def
  by (auto split: if_splits) (meson order_less_le_trans)+

lemma heap_not_in_pool:
  assumes "heap_apart s" "host_good h s" "from_host (sy_shm h) (ss_proc s) base" "x \<in> dom (ss_heap s)"
  shows "\<not> in_pool base x"
  using assms by (auto simp: heap_apart_def host_good_def from_host_def)

lemma real_pointer_ok:
  assumes inv: "sync_inv K s" and h: "host_good h s" and v: "denotes s v ob"
  shows "\<exists>ptr s'. real_pointer h v s = Inr (ptr, s') \<and> object_at s' ptr = Some ob \<and> ptr \<noteq> 0 \<and> sync_inv K s' \<and>
    ss_mem s' = ss_mem s \<and> ss_heap s' = ss_heap s \<and>
    (ss_proc s' = ss_proc s \<or> from_host (sy_shm h) (ss_proc s) (shm_data (ss_proc s'))) \<and>
    ss_shared s' = ss_shared s \<and> pool_top (ss_fs s') = pool_top (ss_fs s) \<and>
    (hybris_is_pointer_in_shm v \<longrightarrow> ss_heap s' ptr = None \<and> pool_offset s' ptr = v AND NOT HYBRIS_SHM_MASK)"
proof (cases "hybris_is_pointer_in_shm v")
  case False
  then have "ss_heap s v = Some ob" using v by (simp add: denotes_def)
  moreover from this have "v \<noteq> 0" using inv heap_apart_nonzero by (auto simp: sync_inv_def)
  ultimately show ?thesis using False inv by (simp add: real_pointer_def object_at_heap)
next
  case True
  define off where "off = place_of v"
  have off: "off \<le> 2 ^ 24 - 16" "v = handle_of off" using in_shm_place[OF True] by (simp_all add: off_def)
  have ob: "ss_shared s (v AND NOT HYBRIS_SHM_MASK) = Some ob" and le: "off + 0 \<le> pool_top (ss_fs s)"
    using v True by (simp_all add: denotes_def off_def)
  have ok: "host_ok (sy_shm h)" "fs_ok (ss_fs s)" "proc_ok (ss_fs s) (ss_proc s)" "heap_apart s"
    using inv h by (simp_all add: sync_inv_def host_good_def)
  from resolve_ok[OF ok(1-3) off(1) le] obtain ptr fs' p' where
    run: "hybris_get_shmpointer (sy_shm h) v (ss_fs s) (ss_proc s) = Inr (ptr, fs', p')"
    and ptr: "unat ptr = unat (shm_data p') + 56 + off" and addr: "user_addr (shm_data p')" "shm_fd p' \<ge> 0"
    and fs': "fs_ok fs'" "proc_ok fs' p'" "pool_top fs' = pool_top (ss_fs s)" unfolding off(2)[symmetric] by blast
  let ?s = "s\<lparr>ss_fs := fs', ss_proc := p'\<rparr>"
  have nz: "ptr \<noteq> 0" using ptr by auto
  have fh: "from_host (sy_shm h) (ss_proc s) (shm_data p')" by (rule resolve_data[OF run nz])
  have apart: "\<not> in_pool (shm_data p') x" if "x \<in> dom (ss_heap s)" for x
    by (rule heap_not_in_pool[OF ok(4) h fh that])
  have inv': "sync_inv K ?s" using fs' apart by (intro sync_inv_pool[OF inv]) simp_all
  have "in_pool (shm_data p') ptr" using ptr off(1) by (simp add: in_pool_def)
  then have heap: "ss_heap s ptr = None" using apart by auto
  have offset: "ptr - shm_data p' - offsetof_data = v AND NOT HYBRIS_SHM_MASK"
  proof -
    have "ptr = shm_data p' + offsetof_data + (v AND NOT HYBRIS_SHM_MASK)"
      using run True addr by (auto simp: hybris_get_shmpointer_def Let_def user_addr_def split: if_splits sum.splits)
    then show ?thesis by simp
  qed
  have "object_at ?s ptr = Some ob" using nz ob heap offset by (simp add: object_at_def pool_offset_def)
  with run True inv' nz fh heap offset fs' show ?thesis by (simp add: real_pointer_def sync_shmpointer_def pool_offset_def)
qed

section \<open>Changing a word\<close>

lemma sync_inv_forget: "sync_inv K s \<Longrightarrow> sync_inv (K(a := None)) s"
  by (auto simp: sync_inv_def split: if_splits)

lemma word_ok_cong:
  assumes "ss_heap s' = ss_heap s" "ss_shared s' = ss_shared s" "ss_fs s' = ss_fs s"
  shows "word_ok s' k v = word_ok s k v"
  using assms by (simp add: word_ok_def denotes_def)

lemma sync_inv_low:
  assumes inv: "sync_inv (K(a := None)) s" and "a \<noteq> 0" and "v \<le> 0xFFFF" and "\<not> android_shared k v"
  shows "sync_inv (K(a \<mapsto> k)) (s\<lparr>ss_mem := (ss_mem s)(a := v)\<rparr>)"
proof -
  let ?s = "s\<lparr>ss_mem := (ss_mem s)(a := v)\<rparr>"
  have w: "word_ok ?s k' v' = word_ok s k' v'" for k' v' by (rule word_ok_cong) simp_all
  have h: "heap_apart ?s = heap_apart s" by (simp add: heap_apart_def)
  show ?thesis unfolding sync_inv_def w h
  proof (intro conjI allI impI)
    fix b c assume bc: "b \<noteq> c" "(K(a \<mapsto> k)) b \<noteq> None" "(K(a \<mapsto> k)) c \<noteq> None" "ss_mem ?s b = ss_mem ?s c"
    show "ss_mem ?s b \<le> 0xFFFF"
    proof (cases "b = a \<or> c = a")
      case True
      then show ?thesis using bc(4) assms(3) by auto
    next
      case False
      then show ?thesis using bc inv unfolding sync_inv_def by auto
    qed
  next
    fix b k' assume "(K(a \<mapsto> k)) b = Some k'"
    then show "word_ok s k' (ss_mem ?s b)" using inv assms(3,4) by (cases "b = a") (auto simp: sync_inv_def word_ok_def)
  qed (use inv assms(2) in \<open>auto simp: sync_inv_def\<close>)
qed

lemma not_in_shm: "unat m < 2 ^ 47 \<Longrightarrow> \<not> hybris_is_pointer_in_shm m"
  by (simp add: hybris_is_pointer_in_shm_def word_le_nat_alt HYBRIS_SHM_MASK_def)

text \<open>A new block becomes the object of a word.\<close>

lemma sync_inv_publish:
  assumes inv: "sync_inv (K(a := None)) s" and a: "a \<noteq> 0" and h: "host_good h s" and m: "m = sy_malloc h" "m \<noteq> 0"
    and k: "has_kind k ob"
  shows "sync_inv (K(a \<mapsto> k)) (s\<lparr>ss_heap := (ss_heap s)(m \<mapsto> ob), ss_mem := (ss_mem s)(a := m)\<rparr>)"
    and "object_at (s\<lparr>ss_heap := (ss_heap s)(m \<mapsto> ob), ss_mem := (ss_mem s)(a := m)\<rparr>) m = Some ob"
proof -
  let ?s = "s\<lparr>ss_heap := (ss_heap s)(m \<mapsto> ob), ss_mem := (ss_mem s)(a := m)\<rparr>"
  have new: "0xFFFF < unat m" "unat m < 2 ^ 47" "ss_heap s m = None"
    "\<And>base. from_host (sy_shm h) (ss_proc s) base \<Longrightarrow> \<not> in_pool base m"
    using h m by (auto simp: host_good_def fresh_block_def Let_def)
  have hi: "\<not> m \<le> 0xFFFF" using new(1) by (simp add: word_le_nat_alt)
  have not_m: "v \<noteq> m" if "\<not> v \<le> 0xFFFF" "word_ok s k' v" for v k'
    using that new(3) not_in_shm[OF new(2)] by (auto simp: word_ok_def denotes_def)
  have keep: "word_ok ?s k' v" if "word_ok s k' v" for k' v
    using that not_m[OF _ that] new(3) by (auto simp: word_ok_def denotes_def split: if_splits)
  have "heap_apart ?s" using inv new by (auto simp: sync_inv_def heap_apart_def from_host_def)
  moreover have "word_ok ?s k' (ss_mem ?s b)" if "(K(a \<mapsto> k)) b = Some k'" for b k'
  proof (cases "b = a")
    case True
    then show ?thesis using that hi k not_in_shm[OF new(2)] by (auto simp: word_ok_def denotes_def)
  next
    case False
    then show ?thesis using that inv by (auto simp: sync_inv_def intro!: keep)
  qed
  moreover have "ss_mem ?s b \<le> 0xFFFF" if "b \<noteq> c" "(K(a \<mapsto> k)) b \<noteq> None" "(K(a \<mapsto> k)) c \<noteq> None" "ss_mem ?s b = ss_mem ?s c" for b c
  proof (rule ccontr)
    assume high: "\<not> ss_mem ?s b \<le> 0xFFFF"
    have other: "ss_mem s d \<noteq> m" if d: "d \<noteq> a" "(K(a \<mapsto> k)) d \<noteq> None" "\<not> ss_mem s d \<le> 0xFFFF" for d
    proof -
      obtain k' where "(K(a := None)) d = Some k'" using d by auto
      then have "word_ok s k' (ss_mem s d)" using inv unfolding sync_inv_def by blast
      then show ?thesis using not_m d(3) by blast
    qed
    show False using that high other[of b] other[of c] inv by (cases "b = a"; cases "c = a") (auto simp: sync_inv_def)
  qed
  ultimately show "sync_inv (K(a \<mapsto> k)) ?s" using inv a by (auto simp: sync_inv_def)
  show "object_at ?s m = Some ob" using m(2) by (simp add: object_at_def)
qed

text \<open>The object of a word is freed and the word reset.\<close>

lemma sync_inv_free:
  assumes inv: "sync_inv K s" and k: "K a = Some k" and v: "v = ss_mem s a" "\<not> v \<le> 0xFFFF" "\<not> hybris_is_pointer_in_shm v"
    and "\<not> android_shared k 0"
  shows "sync_inv K (s\<lparr>ss_heap := (ss_heap s)(v := None), ss_mem := (ss_mem s)(a := 0)\<rparr>)"
proof -
  let ?s1 = "s\<lparr>ss_heap := (ss_heap s)(v := None)\<rparr>"
  have other: "ss_mem s b \<noteq> v" if "b \<noteq> a" "K b \<noteq> None" for b using that inv k v by (auto simp: sync_inv_def)
  have keep: "word_ok ?s1 k' w" if "word_ok s k' w" "w \<noteq> v" for k' w
    using that by (auto simp: word_ok_def denotes_def split: if_splits)
  have "word_ok ?s1 k' (ss_mem s b)" if "(K(a := None)) b = Some k'" for b k'
    using that other[of b] inv by (auto simp: sync_inv_def intro!: keep split: if_splits)
  then have "sync_inv (K(a := None)) ?s1" using inv by (auto simp: sync_inv_def heap_apart_def split: if_splits)
  from sync_inv_low[OF this _ _ assms(6)] inv k have "sync_inv (K(a \<mapsto> k)) (?s1\<lparr>ss_mem := (ss_mem ?s1)(a := 0)\<rparr>)"
    by (auto simp: sync_inv_def)
  moreover have "K(a \<mapsto> k) = K" using k by (simp add: fun_upd_idem)
  ultimately show ?thesis by simp
qed

section \<open>Objects created on first use\<close>

definition published :: "u64 \<Rightarrow> u64 \<Rightarrow> host_object \<Rightarrow> sync_state \<Rightarrow> sync_state" where
  "published a m ob s = s\<lparr>ss_heap := (ss_heap s)(m \<mapsto> ob), ss_mem := (ss_mem s)(a := m)\<rparr>"

text \<open>What a step may change: the heap by the new block, the mapping to one the host has given.\<close>

definition step_frame :: "sync_host \<Rightarrow> sync_state \<Rightarrow> sync_state \<Rightarrow> bool" where
  "step_frame h s s' \<longleftrightarrow> dom (ss_heap s') \<subseteq> insert (sy_malloc h) (dom (ss_heap s)) \<and>
     (ss_proc s' = ss_proc s \<or> from_host (sy_shm h) (ss_proc s) (shm_data (ss_proc s')))"

text \<open>
  The contract of the three functions that replace a static initialiser by a host object: they
  create one object of their kind where the word is a small number, and return the word otherwise.
\<close>

locale static_object =
  fixes get :: "sync_host \<Rightarrow> u64 \<Rightarrow> sync_state \<Rightarrow> u64 sync_run"
    and kind :: storage_kind
    and initial :: "u64 \<Rightarrow> host_object"
  assumes initial_kind: "has_kind kind (initial v)"
    and get_low: "\<lbrakk>a \<noteq> 0; ss_mem s a \<le> 0xFFFF\<rbrakk> \<Longrightarrow> (\<exists>e. get h a s = Inl e \<and> benign e) \<or>
      sy_malloc h \<noteq> 0 \<and> get h a s = Inr (sy_malloc h, published a (sy_malloc h) (initial (ss_mem s a)) s)"
    and get_high: "\<lbrakk>a \<noteq> 0; \<not> ss_mem s a \<le> 0xFFFF\<rbrakk> \<Longrightarrow> get h a s = Inr (ss_mem s a, s)"
begin

lemma get_low_ok:
  assumes "sync_inv K s" and "K a = Some kind" and "host_good h s" and "ss_mem s a \<le> 0xFFFF"
  shows "(\<exists>e. get h a s = Inl e \<and> benign e) \<or>
    (\<exists>s' ob. get h a s = Inr (sy_malloc h, s') \<and> sync_inv K s' \<and> object_at s' (sy_malloc h) = Some ob \<and> has_kind kind ob \<and>
       step_frame h s s' \<and> ss_mem s' = (ss_mem s)(a := sy_malloc h) \<and> \<not> hybris_is_pointer_in_shm (sy_malloc h) \<and>
       ss_heap s' (sy_malloc h) = Some ob \<and> ss_heap s \<subseteq>\<^sub>m ss_heap s')"
proof -
  have a: "a \<noteq> 0" using assms(1,2) by (auto simp: sync_inv_def)
  have K: "K(a \<mapsto> kind) = K" using assms(2) by (simp add: fun_upd_idem)
  show ?thesis
  proof (cases "\<exists>e. get h a s = Inl e \<and> benign e")
    case False
    then have ob: "sy_malloc h \<noteq> 0" "get h a s = Inr (sy_malloc h, published a (sy_malloc h) (initial (ss_mem s a)) s)"
      using get_low[OF a assms(4), of h] by blast+
    note p = sync_inv_publish[OF sync_inv_forget[OF assms(1), of a] a assms(3) refl ob(1) initial_kind[of "ss_mem s a"]]
    have "unat (sy_malloc h) < 2 ^ 47" "ss_heap s (sy_malloc h) = None"
      using assms(3) ob(1) by (auto simp: host_good_def fresh_block_def Let_def)
    then show ?thesis using ob p not_in_shm initial_kind[of "ss_mem s a"] unfolding K
      by (auto simp: published_def step_frame_def map_le_def)
  qed blast
qed

text \<open>Every hook that uses an object finds it in the same way.\<close>

lemma use_ok:
  assumes inv: "sync_inv K s" and k: "K a = Some kind" and h: "host_good h s"
    and f: "\<And>r s' ob. \<lbrakk>sync_inv K s'; object_at s' r = Some ob; has_kind kind ob; r \<noteq> 0; step_frame h s s';
        \<And>b. b \<noteq> a \<Longrightarrow> ss_mem s' b = ss_mem s b; ss_heap s \<subseteq>\<^sub>m ss_heap s';
        \<not> hybris_is_pointer_in_shm (ss_mem s a) \<Longrightarrow> ss_heap s' r = Some ob\<rbrakk> \<Longrightarrow> good_run K (f r s')"
  shows "good_run K (try_then (real_pointer h (ss_mem s a) s) (\<lambda>(r, s1).
    try_then (if ss_mem s a \<le> 0xFFFF then get h a s1 else Inr (r, s1)) (\<lambda>(r, s2). f r s2)))"
proof (cases "ss_mem s a \<le> 0xFFFF")
  case True
  then have low: "\<not> hybris_is_pointer_in_shm (ss_mem s a)" by (intro not_in_shm) (simp add: word_le_nat_alt)
  from get_low_ok[OF inv k h True] show ?thesis
  proof (elim disjE exE conjE)
    fix s' ob assume r: "get h a s = Inr (sy_malloc h, s')" "sync_inv K s'" "object_at s' (sy_malloc h) = Some ob"
      "has_kind kind ob" "step_frame h s s'" "ss_mem s' = (ss_mem s)(a := sy_malloc h)"
      "ss_heap s' (sy_malloc h) = Some ob" "ss_heap s \<subseteq>\<^sub>m ss_heap s'"
    have "sy_malloc h \<noteq> 0" using r(3) by (auto simp: object_at_def split: if_splits)
    with f[of s' "sy_malloc h" ob] r True low show ?thesis by (simp add: real_pointer_def)
  qed (simp add: real_pointer_def low True)
next
  case False
  moreover have "word_ok s kind (ss_mem s a)" using inv k by (simp add: sync_inv_def)
  ultimately obtain ob where ob: "denotes s (ss_mem s a) ob" "has_kind kind ob" by (auto simp: word_ok_def)
  from real_pointer_ok[OF inv h ob(1)] obtain ptr s' where
    "real_pointer h (ss_mem s a) s = Inr (ptr, s')" "object_at s' ptr = Some ob" "ptr \<noteq> 0" "sync_inv K s'"
    "ss_mem s' = ss_mem s" "ss_heap s' = ss_heap s" "ss_proc s' = ss_proc s \<or> from_host (sy_shm h) (ss_proc s) (shm_data (ss_proc s'))"
    by blast
  moreover from this ob(1) have "\<not> hybris_is_pointer_in_shm (ss_mem s a) \<Longrightarrow> ss_heap s' ptr = Some ob"
    by (auto simp: real_pointer_def denotes_def)
  ultimately show ?thesis using f[of s' ptr ob] ob(2) False by (auto simp: step_frame_def)
qed

lemma live_ok:
  assumes "sync_inv K s" and "K a = Some kind" and "host_good h s" and "\<not> ss_mem s a \<le> 0xFFFF"
    and f: "\<And>r s' ob. \<lbrakk>sync_inv K s'; object_at s' r = Some ob; has_kind kind ob; r \<noteq> 0; ss_mem s' = ss_mem s\<rbrakk> \<Longrightarrow> good_run K (f r s')"
  shows "good_run K (try_then (real_pointer h (ss_mem s a) s) (\<lambda>(r, s1). f r s1))"
proof -
  have "word_ok s kind (ss_mem s a)" using assms(1,2) by (simp add: sync_inv_def)
  with assms(4) obtain ob where ob: "denotes s (ss_mem s a) ob" "has_kind kind ob" by (auto simp: word_ok_def)
  from real_pointer_ok[OF assms(1,3) ob(1)] f ob(2) show ?thesis by auto
qed

text \<open>The words that a call does not concern stay; a live word stays in any case.\<close>

lemma get_keeps:
  assumes "get h a s = Inr (r, s')" and "a \<noteq> 0" and "b \<noteq> a \<or> \<not> ss_mem s a \<le> 0xFFFF"
  shows "ss_mem s' b = ss_mem s b"
  using assms get_low[of a s h] get_high[of a s h] by (cases "ss_mem s a \<le> 0xFFFF") (auto simp: published_def)

text \<open>Publication is permanent: later calls, on whatever host, return the same object and change nothing.\<close>

lemma get_once:
  assumes "get h a s = Inr (r, s')" and "a \<noteq> 0" and "sy_malloc h \<noteq> 0 \<longrightarrow> 0xFFFF < unat (sy_malloc h)"
  shows "get h' a s' = Inr (r, s')" and "ss_mem s' a = r"
proof -
  have hi: "\<not> sy_malloc h \<le> 0xFFFF" if "sy_malloc h \<noteq> 0" using assms(3) that by (simp add: word_le_nat_alt)
  have "ss_mem s' a = r \<and> \<not> r \<le> 0xFFFF"
  proof (cases "ss_mem s a \<le> 0xFFFF")
    case True
    then show ?thesis using get_low[OF assms(2) True, of h] assms(1) hi by (auto simp: published_def)
  next
    case False
    then show ?thesis using get_high[OF assms(2) False, of h] assms(1) by simp
  qed
  then show "get h' a s' = Inr (r, s')" "ss_mem s' a = r" using get_high[OF assms(2), of s' h'] by simp_all
qed

end

lemmas static_defs = hybris_read_sync_value_def host_malloc_def host_init_def host_op_def write_storage_def
  put_object_def published_def call_ok_def object_at_def android_consts Let_def

interpretation mutex_object: static_object hybris_get_static_mutex KMutex "\<lambda>v. HMutex (KindAttr (hybris_set_mutex_attr (ucast v)))"
  by unfold_locales (auto simp: hybris_get_static_mutex_def static_defs)

interpretation cond_object: static_object hybris_get_static_cond KCond "\<lambda>v. HCond 0"
  by unfold_locales (auto simp: hybris_get_static_cond_def static_defs)

interpretation rwlock_object: static_object hybris_get_static_rwlock_value KRwlock "\<lambda>v. HRwlock 0"
  by unfold_locales (auto simp: hybris_get_static_rwlock_value_def hybris_alloc_init_rwlock_def static_defs)

section \<open>Every hook is safe\<close>

lemma kind_calls:
  "has_kind KMutex ob \<longleftrightarrow> is_HMutex (Some ob)" "has_kind KCond ob \<longleftrightarrow> is_HCond (Some ob)" "has_kind KRwlock ob \<longleftrightarrow> is_HRwlock (Some ob)"
  by (cases ob; simp)+

lemma read_typed: "sync_inv K s \<Longrightarrow> K a = Some k \<Longrightarrow> a \<noteq> 0 \<and> hybris_read_sync_value a s = Inr (ss_mem s a)"
  by (auto simp: sync_inv_def hybris_read_sync_value_def)

lemma host_op_good: "call_ok s c \<Longrightarrow> sync_inv K s \<Longrightarrow> good_run K (host_op h c s)"
  by (simp add: host_op_def)

lemmas top_consts = ANDROID_TOP_ADDR_VALUE_MUTEX_def ANDROID_TOP_ADDR_VALUE_COND_def ANDROID_TOP_ADDR_VALUE_RWLOCK_def

text \<open>A mutex by its word: the continuation gets a live mutex, or the word is Android's own.\<close>

lemma mutex_lock_good:
  assumes "sync_inv K s" "K a = Some KMutex" "host_good h s"
  shows "good_run K (hybris_hook_pthread_mutex_lock h a s)" "good_run K (hybris_hook_pthread_mutex_trylock h a s)"
proof -
  note r = read_typed[OF assms(1,2)]
  have "good_run K (try_then (real_pointer h (ss_mem s a) s) (\<lambda>(r, s1).
    try_then (if ss_mem s a \<le> 0xFFFF then hybris_get_static_mutex h a s1 else Inr (r, s1)) (\<lambda>(r, s2). host_op h (MutexLock r) s2)))"
    by (rule mutex_object.use_ok[OF assms]) (auto intro!: host_op_good simp: call_ok_def kind_calls)
  then show "good_run K (hybris_hook_pthread_mutex_lock h a s)"
    using r assms(1) by (simp add: hybris_hook_pthread_mutex_lock_def top_consts)
  have "good_run K (try_then (real_pointer h (ss_mem s a) s) (\<lambda>(r, s1).
    try_then (if ss_mem s a \<le> 0xFFFF then hybris_get_static_mutex h a s1 else Inr (r, s1)) (\<lambda>(r, s2). host_op h (MutexTrylock r) s2)))"
    by (rule mutex_object.use_ok[OF assms]) (auto intro!: host_op_good simp: call_ok_def kind_calls)
  then show "good_run K (hybris_hook_pthread_mutex_trylock h a s)"
    using r assms(1) by (simp add: hybris_hook_pthread_mutex_trylock_def top_consts)
qed

lemma mutex_unlock_good:
  assumes "sync_inv K s" "K a = Some KMutex" "host_good h s"
  shows "good_run K (hybris_hook_pthread_mutex_unlock h a s)"
proof (cases "ss_mem s a \<le> 0xFFFF")
  case True
  then show ?thesis using read_typed[OF assms(1,2)] assms(1) by (simp add: hybris_hook_pthread_mutex_unlock_def top_consts)
next
  case False
  have "good_run K (try_then (real_pointer h (ss_mem s a) s) (\<lambda>(r, s1). host_op h (MutexUnlock r) s1))"
    by (rule mutex_object.live_ok[OF assms False]) (auto intro!: host_op_good simp: call_ok_def kind_calls)
  then show ?thesis using read_typed[OF assms(1,2)] assms(1) False by (simp add: hybris_hook_pthread_mutex_unlock_def top_consts)
qed

lemma timed_mutex_good:
  assumes "sync_inv K s" "K a = Some KMutex" "host_good h s"
    and f: "\<And>r s' ob. \<lbrakk>sync_inv K s'; is_HMutex (object_at s' r)\<rbrakk> \<Longrightarrow> good_run K (f (Some r) s')"
  shows "good_run K (try_then (timed_mutex h a (ss_mem s a) s) (\<lambda>(r, s1). f r s1))"
proof -
  have "good_run K (try_then (real_pointer h (ss_mem s a) s) (\<lambda>(r, s1).
    try_then (if ss_mem s a \<le> 0xFFFF then hybris_get_static_mutex h a s1 else Inr (r, s1)) (\<lambda>(r, s2). f (Some r) s2)))"
    by (rule mutex_object.use_ok[OF assms(1-3)]) (auto intro!: f simp: kind_calls)
  moreover have "\<not> (hybris_is_pointer_in_shm (ss_mem s a) \<and> r = 0)" if run: "real_pointer h (ss_mem s a) s = Inr (r, s1)" for r s1
  proof (cases "ss_mem s a \<le> 0xFFFF")
    case True
    then show ?thesis using not_in_shm[of "ss_mem s a"] by (simp add: word_le_nat_alt)
  next
    case False
    have "word_ok s KMutex (ss_mem s a)" using assms(1,2) by (simp add: sync_inv_def)
    with False obtain ob where "denotes s (ss_mem s a) ob" by (auto simp: word_ok_def)
    from real_pointer_ok[OF assms(1,3) this] run show ?thesis by auto
  qed
  ultimately show ?thesis
    by (cases "real_pointer h (ss_mem s a) s") (auto simp: timed_mutex_def try_then_assoc top_consts case_prod_unfold)
qed

lemma mutex_timed_good:
  assumes "sync_inv K s" "K a = Some KMutex" "host_good h s"
  shows "good_run K (hybris_hook_pthread_mutex_timedlock h a deadline s)"
    "good_run K (hybris_hook_pthread_mutex_timedlock_monotonic_np h a deadline s)"
    "good_run K (hybris_hook_pthread_mutex_lock_timeout_np h a msecs s)"
proof -
  note r = read_typed[OF assms(1,2)]
  have "good_run K (try_then (timed_mutex h a (ss_mem s a) s) (\<lambda>(real, s1).
      case real of None \<Rightarrow> Inr (EINVAL, s1) | Some realmutex \<Rightarrow> (case deadline of
         None \<Rightarrow> host_op h (MutexLock realmutex) s1 | Some t \<Rightarrow> host_op h (MutexClocklock realmutex clock t) s1)))" for clock
    by (rule timed_mutex_good[OF assms]) (auto intro!: host_op_good simp: call_ok_def split: option.split)
  then show "good_run K (hybris_hook_pthread_mutex_timedlock h a deadline s)"
    "good_run K (hybris_hook_pthread_mutex_timedlock_monotonic_np h a deadline s)"
    using r assms(1) by (auto simp: hybris_hook_pthread_mutex_timedlock_def hybris_hook_pthread_mutex_timedlock_monotonic_np_def mutex_timedlock_clock_def)
  have "good_run K (try_then (timed_mutex h a (ss_mem s a) s) (\<lambda>(real, s1).
      case real of None \<Rightarrow> Inr (EINVAL, s1) | Some realmutex \<Rightarrow> (case sy_clock h of
         Inl errno \<Rightarrow> Inr (errno, s1)
       | Inr tv \<Rightarrow> try_then (host_op h (MutexClocklock realmutex CLOCK_MONOTONIC (add_msecs tv msecs)) s1) (\<lambda>(error, s2).
                     Inr (if error = ETIMEDOUT then EBUSY else error, s2)))))"
    by (rule timed_mutex_good[OF assms]) (auto simp: call_ok_def host_op_def split: sum.split)
  then show "good_run K (hybris_hook_pthread_mutex_lock_timeout_np h a msecs s)"
    using r assms(1) by (auto simp: hybris_hook_pthread_mutex_lock_timeout_np_def)
qed

lemma not_shared_0: "\<not> android_shared k 0"
  by (cases k) (simp_all add: hybris_check_android_shared_mutex_def hybris_check_android_shared_cond_def android_consts
      HYBRIS_SHM_MASK_TOP_def)

lemma sync_inv_reset:
  assumes "sync_inv K s" and "K a = Some k"
  shows "sync_inv K (s\<lparr>ss_mem := (ss_mem s)(a := 0)\<rparr>)"
proof -
  have "sync_inv (K(a \<mapsto> k)) (s\<lparr>ss_mem := (ss_mem s)(a := 0)\<rparr>)"
    using assms by (intro sync_inv_low sync_inv_forget not_shared_0) (auto simp: sync_inv_def)
  moreover have "K(a \<mapsto> k) = K" using assms(2) by (simp add: fun_upd_idem)
  ultimately show ?thesis by simp
qed

lemma word_high:
  assumes "sync_inv K s" "K a = Some k" "\<not> ss_mem s a \<le> 0xFFFF"
  obtains ob where "denotes s (ss_mem s a) ob" "has_kind k ob"
proof -
  have "word_ok s k (ss_mem s a)" using assms(1,2) by (simp add: sync_inv_def)
  with assms(3) show ?thesis using that by (auto simp: word_ok_def)
qed

lemma word_low: "sync_inv K s \<Longrightarrow> K a = Some k \<Longrightarrow> ss_mem s a \<le> 0xFFFF \<Longrightarrow> \<not> android_shared k (ss_mem s a)"
proof -
  assume "sync_inv K s" "K a = Some k" "ss_mem s a \<le> 0xFFFF"
  then have "word_ok s k (ss_mem s a)" by (simp add: sync_inv_def)
  with \<open>ss_mem s a \<le> 0xFFFF\<close> show ?thesis by (simp add: word_ok_def)
qed

text \<open>The heap block of a live word is a live object, so that it can be destroyed and freed.\<close>

lemma heap_word:
  assumes "sync_inv K s" "K a = Some k" "\<not> ss_mem s a \<le> 0xFFFF" "\<not> hybris_is_pointer_in_shm (ss_mem s a)"
  obtains ob where "ss_heap s (ss_mem s a) = Some ob" "has_kind k ob" "object_at s (ss_mem s a) = Some ob" "ss_mem s a \<noteq> 0"
proof -
  from word_high[OF assms(1-3)] obtain ob where "denotes s (ss_mem s a) ob" "has_kind k ob" .
  moreover have "ss_mem s a \<noteq> 0" using assms(3) by auto
  ultimately show ?thesis using that assms(4) by (simp add: denotes_def object_at_heap)
qed

lemma shm_word:
  assumes "sync_inv K s" "K a = Some k" "host_good h s" "\<not> ss_mem s a \<le> 0xFFFF" "hybris_is_pointer_in_shm (ss_mem s a)"
  obtains ptr s' ob where "sync_shmpointer h (ss_mem s a) s = Inr (ptr, s')" "object_at s' ptr = Some ob" "has_kind k ob"
    "ptr \<noteq> 0" "sync_inv K s'"
proof -
  from word_high[OF assms(1,2,4)] obtain ob where ob: "denotes s (ss_mem s a) ob" "has_kind k ob" .
  from real_pointer_ok[OF assms(1,3) ob(1)] ob(2) that show ?thesis using assms(5) by (auto simp: real_pointer_def)
qed

lemma mutex_destroy_good:
  assumes inv: "sync_inv K s" and k: "K a = Some KMutex" and h: "host_good h s"
  shows "good_run K (hybris_hook_pthread_mutex_destroy h a s)"
proof -
  note r = read_typed[OF inv k]
  let ?v = "ss_mem s a"
  consider "?v \<le> 0xFFFF" | "\<not> ?v \<le> 0xFFFF" "hybris_is_pointer_in_shm ?v" | "\<not> ?v \<le> 0xFFFF" "\<not> hybris_is_pointer_in_shm ?v" by blast
  then show ?thesis
  proof cases
    case 1
    then show ?thesis using r word_low[OF inv k] sync_inv_reset[OF inv k]
      by (simp add: hybris_hook_pthread_mutex_destroy_def write_storage_def top_consts)
  next
    case 2
    then have "?v \<noteq> 0" by auto
    moreover obtain ptr s' ob where "sync_shmpointer h ?v s = Inr (ptr, s')" "object_at s' ptr = Some ob" "has_kind KMutex ob"
      "ptr \<noteq> 0" "sync_inv K s'" using shm_word[OF inv k h 2] .
    ultimately show ?thesis using r 2 sync_inv_reset[where K = K and a = a, OF _ k]
      by (simp add: hybris_hook_pthread_mutex_destroy_def write_storage_def top_consts host_op_def call_ok_def kind_calls)
  next
    case 3
    obtain ob where "ss_heap s ?v = Some ob" "has_kind KMutex ob" "object_at s ?v = Some ob" "?v \<noteq> 0" using heap_word[OF inv k 3] .
    then show ?thesis using r 3 inv sync_inv_free[OF inv k refl 3 not_shared_0]
      by (simp add: hybris_hook_pthread_mutex_destroy_def write_storage_def host_free_def top_consts host_op_def call_ok_def kind_calls)
  qed
qed

lemma cond_destroy_good:
  assumes inv: "sync_inv K s" and k: "K a = Some KCond" and h: "host_good h s"
  shows "good_run K (hybris_hook_pthread_cond_destroy h a s)"
proof -
  note r = read_typed[OF inv k]
  let ?v = "ss_mem s a"
  consider "?v \<le> 0xFFFF" | "\<not> ?v \<le> 0xFFFF" "hybris_is_pointer_in_shm ?v" | "\<not> ?v \<le> 0xFFFF" "\<not> hybris_is_pointer_in_shm ?v" by blast
  then show ?thesis
  proof cases
    case 1
    then show ?thesis using r word_low[OF inv k] sync_inv_reset[OF inv k]
      by (simp add: hybris_hook_pthread_cond_destroy_def write_storage_def top_consts)
  next
    case 2
    then have "?v \<noteq> 0" by auto
    moreover obtain ptr s' ob where "sync_shmpointer h ?v s = Inr (ptr, s')" "object_at s' ptr = Some ob" "has_kind KCond ob"
      "ptr \<noteq> 0" "sync_inv K s'" using shm_word[OF inv k h 2] .
    ultimately show ?thesis using r 2 sync_inv_reset[where K = K and a = a, OF _ k]
      by (simp add: hybris_hook_pthread_cond_destroy_def write_storage_def top_consts host_op_def call_ok_def kind_calls)
  next
    case 3
    obtain ob where "ss_heap s ?v = Some ob" "has_kind KCond ob" "object_at s ?v = Some ob" "?v \<noteq> 0" using heap_word[OF inv k 3] .
    then show ?thesis using r 3 inv sync_inv_free[OF inv k refl 3 not_shared_0]
      by (simp add: hybris_hook_pthread_cond_destroy_def write_storage_def host_free_def top_consts host_op_def call_ok_def kind_calls)
  qed
qed

lemma cond_not_shared:
  assumes "sync_inv K s" "K a = Some KCond"
  shows "\<not> hybris_check_android_shared_cond (ss_mem s a)"
proof (cases "ss_mem s a \<le> 0xFFFF")
  case True
  then show ?thesis using word_low[OF assms] by simp
next
  case False
  from word_high[OF assms this] obtain ob where ob: "denotes s (ss_mem s a) ob" .
  have "\<not> ss_mem s a > HYBRIS_SHM_MASK_TOP"
  proof (cases "hybris_is_pointer_in_shm (ss_mem s a)")
    case True
    then show ?thesis by (simp add: hybris_is_pointer_in_shm_def not_less)
  next
    case False
    then have "unat (ss_mem s a) < 2 ^ 47" using ob assms(1) by (auto simp: denotes_def sync_inv_def heap_apart_def)
    then show ?thesis by (simp add: word_less_nat_alt HYBRIS_SHM_MASK_TOP_def)
  qed
  with False show ?thesis by (simp add: hybris_check_android_shared_cond_def top_consts)
qed

lemma cond_wake_good:
  assumes "sync_inv K s" "K a = Some KCond" "host_good h s"
  shows "good_run K (hybris_hook_pthread_cond_signal h races a s)" "good_run K (hybris_hook_pthread_cond_broadcast h races a s)"
proof -
  note r = read_typed[OF assms(1,2)] cond_not_shared[OF assms(1,2)]
  have "good_run K (try_then (real_pointer h (ss_mem s a) s) (\<lambda>(r, s1).
    try_then (if ss_mem s a \<le> 0xFFFF then hybris_get_static_cond h a s1 else Inr (r, s1)) (\<lambda>(r, s2). host_op h (CondSignal r) s2)))"
    by (rule cond_object.use_ok[OF assms]) (auto intro!: host_op_good simp: call_ok_def kind_calls)
  then show "good_run K (hybris_hook_pthread_cond_signal h races a s)"
    using r assms(1) by (simp add: hybris_hook_pthread_cond_signal_def top_consts)
  have "good_run K (try_then (real_pointer h (ss_mem s a) s) (\<lambda>(r, s1).
    try_then (if ss_mem s a \<le> 0xFFFF then hybris_get_static_cond h a s1 else Inr (r, s1)) (\<lambda>(r, s2). host_op h (CondBroadcast r) s2)))"
    by (rule cond_object.use_ok[OF assms]) (auto intro!: host_op_good simp: call_ok_def kind_calls)
  then show "good_run K (hybris_hook_pthread_cond_broadcast h races a s)"
    using r assms(1) by (simp add: hybris_hook_pthread_cond_broadcast_def top_consts)
qed

text \<open>
  A wait creates or resolves two objects.  The host's second answer is good whatever the first step
  did; the condition is not one of the pool, whose mapping the second step may move.
\<close>

definition host_good_after :: "sync_host \<Rightarrow> sync_host \<Rightarrow> sync_state \<Rightarrow> bool" where
  "host_good_after hc hm s \<longleftrightarrow> (\<forall>s'. step_frame hc s s' \<longrightarrow> host_good hm s')"

lemma wait_objects_good:
  assumes inv: "sync_inv K s" and c: "K c = Some KCond" and m: "K m = Some KMutex" and hc: "host_good hc s"
    and hm: "host_good_after hc hm s" and own: "\<not> hybris_is_pointer_in_shm (ss_mem s c)"
    and f: "\<And>rc rm s'. \<lbrakk>sync_inv K s'; is_HCond (object_at s' rc); is_HMutex (object_at s' rm)\<rbrakk> \<Longrightarrow> good_run K (f (rc, rm) s')"
  shows "good_run K (try_then (wait_objects hc hm c m (ss_mem s c) (ss_mem s m) s) (\<lambda>(r, s1). f r s1))"
proof -
  have cm: "m \<noteq> c" using c m by auto
  have "good_run K (try_then (real_pointer hc (ss_mem s c) s) (\<lambda>(rc, s1).
     try_then (if ss_mem s c \<le> 0xFFFF then hybris_get_static_cond hc c s1 else Inr (rc, s1)) (\<lambda>(rc, s2).
     try_then (real_pointer hm (ss_mem s m) s2) (\<lambda>(rm, s3).
     try_then (if ss_mem s m \<le> 0xFFFF then hybris_get_static_mutex hm m s3 else Inr (rm, s3)) (\<lambda>(rm, s4). f (rc, rm) s4)))))"
  proof (rule cond_object.use_ok[OF inv c hc])
    fix rc s2 obc assume s2: "sync_inv K s2" "has_kind KCond obc" "step_frame hc s s2" "\<And>b. b \<noteq> c \<Longrightarrow> ss_mem s2 b = ss_mem s b" "rc \<noteq> 0"
      and live: "\<not> hybris_is_pointer_in_shm (ss_mem s c) \<Longrightarrow> ss_heap s2 rc = Some obc"
    have hm2: "host_good hm s2" using hm s2(3) by (simp add: host_good_after_def)
    have eq: "ss_mem s m = ss_mem s2 m" using s2(4) cm by simp
    show "good_run K (try_then (real_pointer hm (ss_mem s m) s2) (\<lambda>(rm, s3).
       try_then (if ss_mem s m \<le> 0xFFFF then hybris_get_static_mutex hm m s3 else Inr (rm, s3)) (\<lambda>(rm, s4). f (rc, rm) s4)))"
      unfolding eq
    proof (rule mutex_object.use_ok[OF s2(1) m hm2])
      fix rm s4 obm assume s4: "sync_inv K s4" "object_at s4 rm = Some obm" "has_kind KMutex obm" "ss_heap s2 \<subseteq>\<^sub>m ss_heap s4"
      then have "ss_heap s4 rc = Some obc" using live[OF own] by (auto simp: map_le_def dom_def)
      with s2 s4 show "good_run K (f (rc, rm) s4)" by (intro f) (simp_all add: object_at_heap kind_calls)
    qed
  qed
  then show ?thesis by (simp add: wait_objects_def try_then_assoc top_consts case_prod_unfold)
qed

lemma cond_wait_good:
  assumes "sync_inv K s" "K c = Some KCond" "K m = Some KMutex" "host_good hc s" "host_good_after hc hm s"
    "\<not> hybris_is_pointer_in_shm (ss_mem s c)"
  shows "good_run K (hybris_hook_pthread_cond_wait hc hm c m s)"
    "good_run K (hybris_hook_pthread_cond_clockwait hc hm c m clock t s)"
    "good_run K (hybris_hook_pthread_cond_timedwait hc hm c m t s)"
    "good_run K (hybris_hook_pthread_cond_timedwait_monotonic hc hm c m t s)"
    "good_run K (hybris_hook_pthread_cond_timedwait_relative_np hc hm c m rel s)"
proof -
  note r = read_typed[OF assms(1,2)] read_typed[OF assms(1,3)] cond_not_shared[OF assms(1,2)]
  have w: "good_run K (try_then (wait_objects hc hm c m (ss_mem s c) (ss_mem s m) s) (\<lambda>((rc, rm), s1). host_op hm (call rc rm) s1))"
    if "\<And>s' rc rm. is_HCond (object_at s' rc) \<Longrightarrow> is_HMutex (object_at s' rm) \<Longrightarrow> call_ok s' (call rc rm)" for call
    using wait_objects_good[OF assms, of "\<lambda>(rc, rm). host_op hm (call rc rm)"] that host_op_good by (auto simp: case_prod_unfold)
  show "good_run K (hybris_hook_pthread_cond_wait hc hm c m s)"
    using r w[of CondWait] assms(1) by (simp add: hybris_hook_pthread_cond_wait_def call_ok_def)
  show cw: "good_run K (hybris_hook_pthread_cond_clockwait hc hm c m clock t s)" for clock t
    using r w[of "\<lambda>rc rm. CondClockwait rc rm clock t"] assms(1) by (simp add: hybris_hook_pthread_cond_clockwait_def call_ok_def)
  show "good_run K (hybris_hook_pthread_cond_timedwait hc hm c m t s)"
    using r w[of "\<lambda>rc rm. CondTimedwait rc rm t"] assms(1) by (simp add: hybris_hook_pthread_cond_timedwait_def call_ok_def)
  show "good_run K (hybris_hook_pthread_cond_timedwait_monotonic hc hm c m t s)"
    by (simp add: hybris_hook_pthread_cond_timedwait_monotonic_def cw)
  show "good_run K (hybris_hook_pthread_cond_timedwait_relative_np hc hm c m rel s)"
    using assms(1) by (auto simp: hybris_hook_pthread_cond_timedwait_relative_np_def cw split: option.split sum.split)
qed

lemma realrwlock_good:
  assumes inv: "sync_inv K s" and k: "K a = Some KRwlock" and h: "host_good h s"
    and f: "\<And>r s'. \<lbrakk>sync_inv K s'; is_HRwlock (object_at s' r); r \<noteq> 0\<rbrakk> \<Longrightarrow> good_run K (f r s')"
  shows "good_run K (try_then (hybris_set_realrwlock h a s) (\<lambda>(r, s1). f r s1))"
proof (cases "ss_mem s a \<le> 0xFFFF")
  case True
  from rwlock_object.get_low_ok[OF inv k h True] show ?thesis
  proof (elim disjE exE conjE)
    fix s' ob assume r: "hybris_get_static_rwlock_value h a s = Inr (sy_malloc h, s')" "sync_inv K s'"
      "object_at s' (sy_malloc h) = Some ob" "has_kind KRwlock ob" "\<not> hybris_is_pointer_in_shm (sy_malloc h)"
    then have "sy_malloc h \<noteq> 0" by (auto simp: object_at_def split: if_splits)
    with r f[of s' "sy_malloc h"] show ?thesis by (simp add: hybris_set_realrwlock_def real_pointer_def kind_calls)
  qed (simp add: hybris_set_realrwlock_def)
next
  case False
  then have "hybris_get_static_rwlock_value h a s = Inr (ss_mem s a, s)"
    using read_typed[OF inv k] by (intro rwlock_object.get_high) auto
  moreover have "good_run K (try_then (real_pointer h (ss_mem s a) s) (\<lambda>(r, s1). f r s1))"
    by (rule rwlock_object.live_ok[OF inv k h False]) (auto intro!: f simp: kind_calls)
  ultimately show ?thesis by (simp add: hybris_set_realrwlock_def)
qed

lemma rwlock_use_good:
  assumes "sync_inv K s" "K a = Some KRwlock" "host_good h s"
  shows "good_run K (hybris_hook_pthread_rwlock_rdlock h a s)" "good_run K (hybris_hook_pthread_rwlock_tryrdlock h a s)"
    "good_run K (hybris_hook_pthread_rwlock_timedrdlock h a t s)" "good_run K (hybris_hook_pthread_rwlock_wrlock h a s)"
    "good_run K (hybris_hook_pthread_rwlock_trywrlock h a s)" "good_run K (hybris_hook_pthread_rwlock_timedwrlock h a t s)"
    "good_run K (hybris_hook_pthread_rwlock_timedrdlock_monotonic_np h a t s)"
    "good_run K (hybris_hook_pthread_rwlock_timedwrlock_monotonic_np h a t s)"
  unfolding hybris_hook_pthread_rwlock_rdlock_def hybris_hook_pthread_rwlock_tryrdlock_def hybris_hook_pthread_rwlock_timedrdlock_def
    hybris_hook_pthread_rwlock_wrlock_def hybris_hook_pthread_rwlock_trywrlock_def hybris_hook_pthread_rwlock_timedwrlock_def
    hybris_hook_pthread_rwlock_timedrdlock_monotonic_np_def hybris_hook_pthread_rwlock_timedwrlock_monotonic_np_def
  by (rule realrwlock_good[OF assms], auto intro!: host_op_good simp: call_ok_def split: option.split)+

lemma rwlock_unlock_good:
  assumes "sync_inv K s" "K a = Some KRwlock" "host_good h s"
  shows "good_run K (hybris_hook_pthread_rwlock_unlock h a s)"
proof (cases "ss_mem s a \<le> 0xFFFF")
  case True
  then show ?thesis using read_typed[OF assms(1,2)] assms(1) by (simp add: hybris_hook_pthread_rwlock_unlock_def top_consts)
next
  case False
  have "good_run K (try_then (real_pointer h (ss_mem s a) s) (\<lambda>(r, s1). host_op h (RwlockUnlock r) s1))"
    by (rule rwlock_object.live_ok[OF assms False]) (auto intro!: host_op_good simp: call_ok_def kind_calls)
  then show ?thesis using read_typed[OF assms(1,2)] False by (simp add: hybris_hook_pthread_rwlock_unlock_def top_consts)
qed

section \<open>New objects\<close>

lemma sync_inv_block:
  assumes inv: "sync_inv (K(a := None)) s" and h: "host_good h s" and m: "m = sy_malloc h" "m \<noteq> 0"
  shows "sync_inv (K(a := None)) (s\<lparr>ss_heap := (ss_heap s)(m \<mapsto> ob), ss_mem := (ss_mem s)(a := v)\<rparr>)"
proof -
  let ?s = "s\<lparr>ss_heap := (ss_heap s)(m \<mapsto> ob), ss_mem := (ss_mem s)(a := v)\<rparr>"
  have new: "0xFFFF < unat m" "unat m < 2 ^ 47" "ss_heap s m = None"
    "\<And>base. from_host (sy_shm h) (ss_proc s) base \<Longrightarrow> \<not> in_pool base m"
    using h m by (auto simp: host_good_def fresh_block_def Let_def)
  have keep: "word_ok ?s k' w" if "word_ok s k' w" for k' w
    using that new(3) by (auto simp: word_ok_def denotes_def split: if_splits)
  have "heap_apart ?s" using inv new by (auto simp: sync_inv_def heap_apart_def from_host_def)
  then show ?thesis using inv keep by (auto simp: sync_inv_def split: if_splits)
qed

text \<open>The state after an initialisation: typed if it succeeded, forgotten otherwise.\<close>

definition init_run :: "kinds \<Rightarrow> u64 \<Rightarrow> storage_kind \<Rightarrow> int sync_run \<Rightarrow> bool" where
  "init_run K a k r = (case r of Inl e \<Rightarrow> benign e
     | Inr (ret, s) \<Rightarrow> sync_inv (if ret = 0 then K(a \<mapsto> k) else K(a := None)) s)"

lemma init_run_simps [simp]: "init_run K a k (Inl e) = benign e"
  "init_run K a k (Inr (ret, s)) = sync_inv (if ret = 0 then K(a \<mapsto> k) else K(a := None)) s"
  by (simp_all add: init_run_def)

lemma init_private:
  assumes inv: "sync_inv K s" and a: "a \<noteq> 0" and h: "host_good h s" and k: "has_kind k ob"
    and ok: "\<And>s'. object_at s' (sy_malloc h) \<noteq> None \<Longrightarrow> ss_heap s \<subseteq>\<^sub>m ss_heap s' \<Longrightarrow> call_ok s' (c (sy_malloc h))"
  shows "init_run K a k (try_then (new_object h False sz a s) (\<lambda>(r, s1).
    if r = 0 then Inr (ENOMEM, s1) else host_init h (c r) r ob s1))"
proof (cases "sy_malloc h = 0")
  case True
  have "sync_inv (K(a \<mapsto> KRwlock)) (s\<lparr>ss_mem := (ss_mem s)(a := 0)\<rparr>)"
    using a by (intro sync_inv_low sync_inv_forget[OF inv]) simp_all
  from sync_inv_forget[OF this, of a] True a show ?thesis
    by (simp add: new_object_def host_malloc_def write_storage_def Let_def errno_defs)
next
  case False
  let ?s = "s\<lparr>ss_heap := (ss_heap s)(sy_malloc h \<mapsto> Raw), ss_mem := (ss_mem s)(a := sy_malloc h)\<rparr>"
  have "ss_heap s (sy_malloc h) = None" using h False by (auto simp: host_good_def fresh_block_def Let_def)
  then have "call_ok ?s (c (sy_malloc h))" using False by (intro ok) (auto simp: object_at_def map_le_def)
  moreover note sync_inv_publish(1)[OF sync_inv_forget[OF inv] a h refl False k] sync_inv_block[OF sync_inv_forget[OF inv] h refl False]
  moreover have swap: "s\<lparr>ss_mem := f, ss_heap := g\<rparr> = s\<lparr>ss_heap := g, ss_mem := f\<rparr>" for f g by simp
  ultimately show ?thesis using False a
    by (simp add: new_object_def host_malloc_def write_storage_def Let_def host_init_def host_op_def put_object_def swap)
qed

text \<open>A block of the pool becomes the object of a word: no other word has a handle as high.\<close>

lemma sync_inv_shared:
  assumes inv: "sync_inv (K(a := None)) s" and a: "a \<noteq> 0" and mem: "ss_mem s a = handle_of off" "off \<le> 2 ^ 24 - 16"
    "off < pool_top (ss_fs s)"
    and apart: "\<And>b k'. b \<noteq> a \<Longrightarrow> K b = Some k' \<Longrightarrow> ss_mem s b \<noteq> handle_of off" and k: "has_kind k ob"
  shows "sync_inv (K(a \<mapsto> k)) (s\<lparr>ss_shared := (ss_shared s)(of_nat off \<mapsto> ob)\<rparr>)"
proof -
  let ?s = "s\<lparr>ss_shared := (ss_shared s)(of_nat off \<mapsto> ob)\<rparr>"
  have shm: "hybris_is_pointer_in_shm (handle_of off)" by (rule handle_in_shm[OF mem(2)])
  have place: "place_of (handle_of off) = off" using mem(2) by (intro place_of_handle) simp
  have low: "handle_of off AND NOT HYBRIS_SHM_MASK = of_nat off" using mem(2) by (intro handle_low) simp
  have hi: "\<not> handle_of off \<le> 0xFFFF"
    using shm by (auto simp: hybris_is_pointer_in_shm_def word_le_nat_alt HYBRIS_SHM_MASK_def)
  have inj: "v = handle_of off" if "hybris_is_pointer_in_shm v" "v AND NOT HYBRIS_SHM_MASK = of_nat off" for v
    using in_shm_place(1)[OF that(1)] that(2) mem(2) by (simp add: place_of_def unat_of_nat64)
  have keep: "word_ok ?s k' v" if "word_ok s k' v" "v \<noteq> handle_of off" for k' v
    using that inj[of v] by (auto simp: word_ok_def denotes_def split: if_splits)
  have "word_ok ?s k' (ss_mem s b)" if "(K(a \<mapsto> k)) b = Some k'" for b k'
  proof (cases "b = a")
    case True
    then show ?thesis using that hi shm low place k mem by (auto simp: word_ok_def denotes_def)
  next
    case False
    then show ?thesis using that inv apart[OF False] by (auto simp: sync_inv_def intro!: keep)
  qed
  moreover have "ss_mem s b \<le> 0xFFFF" if "b \<noteq> c" "(K(a \<mapsto> k)) b \<noteq> None" "(K(a \<mapsto> k)) c \<noteq> None" "ss_mem s b = ss_mem s c" for b c
    using that inv apart[of b] apart[of c] mem(1) by (cases "b = a"; cases "c = a") (auto simp: sync_inv_def)
  ultimately show ?thesis using inv a by (auto simp: sync_inv_def heap_apart_def)
qed

lemma sync_inv_slot:
  assumes inv: "sync_inv (K(a := None)) s" and off: "off < 2 ^ 24"
    and apart: "\<And>b k'. b \<noteq> a \<Longrightarrow> K b = Some k' \<Longrightarrow> ss_mem s b \<noteq> handle_of off"
  shows "sync_inv (K(a := None)) (s\<lparr>ss_shared := (ss_shared s)(of_nat off \<mapsto> ob), ss_mem := (ss_mem s)(a := v)\<rparr>)"
proof -
  let ?s = "s\<lparr>ss_shared := (ss_shared s)(of_nat off \<mapsto> ob), ss_mem := (ss_mem s)(a := v)\<rparr>"
  have inj: "v = handle_of off" if "hybris_is_pointer_in_shm v" "v AND NOT HYBRIS_SHM_MASK = of_nat off" for v
    using in_shm_place(1)[OF that(1)] that(2) off by (simp add: place_of_def unat_of_nat64)
  have "word_ok ?s k' w" if "word_ok s k' w" "w \<noteq> handle_of off" for k' w
    using that inj[of w] by (auto simp: word_ok_def denotes_def split: if_splits)
  then show ?thesis using inv apart by (auto simp: sync_inv_def heap_apart_def split: if_splits)
qed

lemma init_shared:
  assumes inv: "sync_inv K s" and a: "a \<noteq> 0" and h: "host_good h s" and k: "has_kind k ob"
    and sz: "1 \<le> n" "n \<le> 4000" and room: "pool_top (ss_fs s) \<le> 2 ^ 24 - 4096"
    and ok: "\<And>s' r. object_at s' r \<noteq> None \<Longrightarrow> ss_heap s \<subseteq>\<^sub>m ss_heap s' \<Longrightarrow> call_ok s' (c r)"
  shows "init_run K a k (try_then (new_object h True (of_nat n) a s) (\<lambda>(r, s1).
    if r = 0 then Inr (ENOMEM, s1) else host_init h (c r) r ob s1))"
proof -
  define off where "off = pool_top (ss_fs s)"
  have ok0: "host_ok (sy_shm h)" "fs_ok (ss_fs s)" "proc_ok (ss_fs s) (ss_proc s)" "heap_apart s"
    using inv h by (simp_all add: sync_inv_def host_good_def)
  have off: "off < 2 ^ 24" "off \<le> 2 ^ 24 - 16" "off + n \<le> 2 ^ 25" using room sz by (simp_all add: off_def)
  from alloc_ok[OF ok0(1-3) sz(2), folded off_def, OF off(3)] obtain fs1 p1 where
    run: "hybris_shm_alloc (sy_shm h) (of_nat n) (ss_fs s) (ss_proc s) = Inr (handle_of off, fs1, p1)"
    and fs1: "fs_ok fs1" "proc_ok fs1 p1" "pool_top fs1 = off + n" "shm_fd p1 \<ge> 0"
    unfolding or_shm_mask[OF off(1)] by blast
  have nz: "handle_of off \<noteq> 0" by (rule handle_of_nonzero[OF off(1)])
  have fh: "from_host (sy_shm h) (ss_proc s) (shm_data p1)" by (rule alloc_data[OF run nz])
  have low: "handle_of off AND NOT HYBRIS_SHM_MASK = of_nat off" by (rule handle_low[OF off(1)])
  let ?s1 = "s\<lparr>ss_fs := fs1, ss_proc := p1\<rparr>"
  let ?s2 = "?s1\<lparr>ss_shared := (ss_shared s)(of_nat off \<mapsto> Raw), ss_mem := (ss_mem s)(a := handle_of off)\<rparr>"
  have inv1: "sync_inv K ?s1"
    using fs1 heap_not_in_pool[OF ok0(4) h fh] by (intro sync_inv_pool[OF inv]) (simp_all add: off_def)
  have shm: "hybris_is_pointer_in_shm (handle_of off)" by (rule handle_in_shm[OF off(2)])
  have place: "place_of (handle_of off) = off" by (rule place_of_handle[OF off(1)])
  have below: "ss_mem s b \<noteq> handle_of off" if "K b = Some k'" for b k'
  proof
    assume eq: "ss_mem s b = handle_of off"
    have "word_ok s k' (ss_mem s b)" using inv that by (simp add: sync_inv_def)
    moreover have "\<not> handle_of off \<le> 0xFFFF" using shm by (auto simp: hybris_is_pointer_in_shm_def word_le_nat_alt HYBRIS_SHM_MASK_def)
    ultimately show False using eq shm place by (auto simp: word_ok_def denotes_def off_def)
  qed
  have inv2: "sync_inv (K(a := None)) ?s2"
    using sync_inv_slot[OF sync_inv_forget[OF inv1, of a] off(1), where ob = Raw and v = "handle_of off"] below by simp
  have h2: "host_good h ?s2"
    using h from_host_trans[OF fh] by (auto simp: host_good_def fresh_block_def Let_def)
  have den: "denotes ?s2 (handle_of off) Raw" using shm low place fs1(3) sz by (simp add: denotes_def)
  from real_pointer_ok[OF inv2 h2 den] obtain ptr s3 where
    rp: "real_pointer h (handle_of off) ?s2 = Inr (ptr, s3)" "object_at s3 ptr = Some Raw" "ptr \<noteq> 0" "sync_inv (K(a := None)) s3"
    "ss_mem s3 = ss_mem ?s2" "ss_heap s3 = ss_heap s" "ss_heap s3 ptr = None" "pool_offset s3 ptr = of_nat off"
    "pool_top (ss_fs s3) = off + n" using shm low fs1(3) by auto
  have new: "new_object h True (of_nat n) a s = Inr (ptr, s3)"
    using run nz low a shm rp(1) by (simp add: new_object_def sync_shm_alloc_def write_storage_def real_pointer_def)
  have c: "call_ok s3 (c ptr)" using rp(2,6) by (intro ok) simp_all
  have "sync_inv (K(a \<mapsto> k)) (put_object ptr ob s3)"
    using sync_inv_shared[OF rp(4) a _ off(2) _ _ k] rp(5,7,8,9) below sz by (simp add: put_object_def)
  with new c rp(3,4) show ?thesis by (simp add: host_init_def host_op_def)
qed

lemma mutex_init_good:
  assumes "sync_inv K s" "a \<noteq> 0" "host_good h s" "pool_top (ss_fs s) \<le> 2 ^ 24 - 4096"
  shows "init_run K a KMutex (hybris_hook_pthread_mutex_init h a attr s)"
  using init_private[OF assms(1-3), of KMutex "HMutex (HostAttr attr)" "\<lambda>r. MutexInit r (HostAttr attr)" SIZEOF_PTHREAD_MUTEX_T]
    init_shared[OF assms(1-3) _ _ _ assms(4), of KMutex "HMutex (HostAttr attr)" 48 "\<lambda>r. MutexInit r (HostAttr attr)"]
  by (cases "attr \<noteq> 0 \<and> sy_mutexattr_pshared h attr")
     (auto simp: hybris_hook_pthread_mutex_init_def Let_def SIZEOF_PTHREAD_MUTEX_T_def call_ok_def)

lemma cond_init_good:
  assumes "sync_inv K s" "a \<noteq> 0" "host_good h s" "pool_top (ss_fs s) \<le> 2 ^ 24 - 4096"
  shows "init_run K a KCond (hybris_hook_pthread_cond_init h a attr s)"
  using init_private[OF assms(1-3), of KCond "HCond attr" "\<lambda>r. CondInit r attr" SIZEOF_PTHREAD_COND_T]
    init_shared[OF assms(1-3) _ _ _ assms(4), of KCond "HCond attr" 48 "\<lambda>r. CondInit r attr"]
  by (cases "attr \<noteq> 0 \<and> sy_condattr_pshared h attr")
     (auto simp: hybris_hook_pthread_cond_init_def Let_def SIZEOF_PTHREAD_COND_T_def call_ok_def)

text \<open>An attribute is absent or a live object of the heap.\<close>

definition attr_live :: "sync_state \<Rightarrow> u64 \<Rightarrow> bool" where
  "attr_live s attr \<longleftrightarrow> attr = 0 \<or> (\<exists>p k. ss_heap s (ss_mem s attr) = Some (HRwlockAttr p k))"

lemma rwlock_init_good:
  assumes "sync_inv K s" "a \<noteq> 0" "host_good h s" "pool_top (ss_fs s) \<le> 2 ^ 24 - 4096" "attr_live s attr"
  shows "init_run K a KRwlock (hybris_hook_pthread_rwlock_init h a attr s)"
proof -
  define real where "real = (if attr = 0 then 0 else ss_mem s attr)"
  have live: "real = 0 \<or> (\<exists>p k. ss_heap s real = Some (HRwlockAttr p k))" using assms(5) by (auto simp: attr_live_def real_def)
  have ok: "call_ok s' (RwlockInit r real)" if "object_at s' r \<noteq> None" "ss_heap s \<subseteq>\<^sub>m ss_heap s'" for s' r
  proof (cases "real = 0")
    case False
    with live obtain p k where "ss_heap s real = Some (HRwlockAttr p k)" by blast
    then have "ss_heap s' real = Some (HRwlockAttr p k)" using that(2) by (auto simp: map_le_def dom_def)
    then show ?thesis using that(1) False by (simp add: call_ok_def object_at_heap)
  qed (use that in \<open>simp add: call_ok_def\<close>)
  have init: "init_run K a KRwlock (try_then (new_object h b SIZEOF_PTHREAD_RWLOCK_T a s) (\<lambda>(r, s1).
      if r = 0 then Inr (ENOMEM, s1) else host_init h (RwlockInit r real) r (HRwlock real) s1))" for b
    using init_private[OF assms(1-3), of KRwlock "HRwlock real" "\<lambda>r. RwlockInit r real" SIZEOF_PTHREAD_RWLOCK_T]
      init_shared[OF assms(1-3) _ _ _ assms(4), of KRwlock "HRwlock real" 56 "\<lambda>r. RwlockInit r real"] ok
    by (cases b) (simp_all add: SIZEOF_PTHREAD_RWLOCK_T_def)
  have rd: "(if attr \<noteq> 0 then hybris_read_sync_value attr s else Inr 0) = Inr real"
    by (simp add: real_def hybris_read_sync_value_def)
  have "call_ok s (RwlockattrGetpshared real)" if "real \<noteq> 0" using live that by (auto simp: call_ok_def object_at_heap)
  then have "\<exists>ret. (if real \<noteq> 0 then host_op h (RwlockattrGetpshared real) s else Inr (0, s)) = Inr (ret, s)"
    by (auto simp: host_op_def)
  then obtain ret where gp: "(if real \<noteq> 0 then host_op h (RwlockattrGetpshared real) s else Inr (0, s)) = Inr (ret, s)" by blast
  show ?thesis unfolding hybris_hook_pthread_rwlock_init_def rd by (simp add: gp Let_def init)
qed

section \<open>Sequences of calls\<close>

definition mutex_hooks :: "sync_host \<Rightarrow> u64 \<Rightarrow> (sync_state \<Rightarrow> int sync_run) set" where
  "mutex_hooks h a = {hybris_hook_pthread_mutex_lock h a, hybris_hook_pthread_mutex_trylock h a, hybris_hook_pthread_mutex_unlock h a,
      hybris_hook_pthread_mutex_destroy h a} \<union> range (hybris_hook_pthread_mutex_lock_timeout_np h a) \<union>
     range (hybris_hook_pthread_mutex_timedlock h a) \<union> range (hybris_hook_pthread_mutex_timedlock_monotonic_np h a)"

definition cond_hooks :: "sync_host \<Rightarrow> u64 \<Rightarrow> (sync_state \<Rightarrow> int sync_run) set" where
  "cond_hooks h a = {hybris_hook_pthread_cond_destroy h a} \<union> range (\<lambda>races. hybris_hook_pthread_cond_signal h races a) \<union>
     range (\<lambda>races. hybris_hook_pthread_cond_broadcast h races a)"

definition wait_hooks :: "sync_host \<Rightarrow> sync_host \<Rightarrow> u64 \<Rightarrow> u64 \<Rightarrow> (sync_state \<Rightarrow> int sync_run) set" where
  "wait_hooks hc hm c m = {hybris_hook_pthread_cond_wait hc hm c m} \<union>
     range (\<lambda>(clock, t). hybris_hook_pthread_cond_clockwait hc hm c m clock t) \<union>
     range (hybris_hook_pthread_cond_timedwait hc hm c m) \<union> range (hybris_hook_pthread_cond_timedwait_monotonic hc hm c m) \<union>
     range (hybris_hook_pthread_cond_timedwait_relative_np hc hm c m)"

text \<open>All read-write lock hooks but the destruction.\<close>

definition rwlock_hooks :: "sync_host \<Rightarrow> u64 \<Rightarrow> (sync_state \<Rightarrow> int sync_run) set" where
  "rwlock_hooks h a = {hybris_hook_pthread_rwlock_rdlock h a, hybris_hook_pthread_rwlock_tryrdlock h a,
      hybris_hook_pthread_rwlock_wrlock h a, hybris_hook_pthread_rwlock_trywrlock h a, hybris_hook_pthread_rwlock_unlock h a} \<union>
     range (hybris_hook_pthread_rwlock_timedrdlock h a) \<union> range (hybris_hook_pthread_rwlock_timedwrlock h a) \<union>
     range (hybris_hook_pthread_rwlock_timedrdlock_monotonic_np h a) \<union> range (hybris_hook_pthread_rwlock_timedwrlock_monotonic_np h a)"

text \<open>The calls a thread may make next: on an object of the right kind, on a host that behaves.\<close>

inductive may_call :: "kinds \<Rightarrow> sync_state \<Rightarrow> (sync_state \<Rightarrow> int sync_run) \<Rightarrow> bool" where
  on_mutex: "K a = Some KMutex \<Longrightarrow> host_good h s \<Longrightarrow> f \<in> mutex_hooks h a \<Longrightarrow> may_call K s f"
| on_cond: "K a = Some KCond \<Longrightarrow> host_good h s \<Longrightarrow> f \<in> cond_hooks h a \<Longrightarrow> may_call K s f"
| on_wait: "K c = Some KCond \<Longrightarrow> K m = Some KMutex \<Longrightarrow> host_good hc s \<Longrightarrow> host_good_after hc hm s \<Longrightarrow>
    \<not> hybris_is_pointer_in_shm (ss_mem s c) \<Longrightarrow> f \<in> wait_hooks hc hm c m \<Longrightarrow> may_call K s f"
| on_rwlock: "K a = Some KRwlock \<Longrightarrow> host_good h s \<Longrightarrow> f \<in> rwlock_hooks h a \<Longrightarrow> may_call K s f"

fun init_hook :: "storage_kind \<Rightarrow> sync_host \<Rightarrow> u64 \<Rightarrow> u64 \<Rightarrow> sync_state \<Rightarrow> int sync_run" where
  "init_hook KMutex h a attr = hybris_hook_pthread_mutex_init h a attr"
| "init_hook KCond h a attr = hybris_hook_pthread_cond_init h a attr"
| "init_hook KRwlock h a attr = hybris_hook_pthread_rwlock_init h a attr"

inductive sync_step :: "kinds \<times> sync_state \<Rightarrow> kinds \<times> sync_state \<Rightarrow> bool" where
  call: "may_call K s f \<Longrightarrow> f s = Inr (ret, s') \<Longrightarrow> sync_step (K, s) (K, s')"
| init: "a \<noteq> 0 \<Longrightarrow> host_good h s \<Longrightarrow> pool_top (ss_fs s) \<le> 2 ^ 24 - 4096 \<Longrightarrow> (k = KRwlock \<Longrightarrow> attr_live s attr) \<Longrightarrow>
    init_hook k h a attr s = Inr (ret, s') \<Longrightarrow> sync_step (K, s) (if ret = 0 then K(a \<mapsto> k) else K(a := None), s')"

text \<open>At the start the program has its statically initialised objects and nothing on the heap.\<close>

definition sync_start :: "kinds \<Rightarrow> sync_state \<Rightarrow> bool" where
  "sync_start K s \<longleftrightarrow> K 0 = None \<and> (\<forall>a k. K a = Some k \<longrightarrow> ss_mem s a \<le> 0xFFFF \<and> \<not> android_shared k (ss_mem s a)) \<and>
     ss_heap s = Map.empty \<and> fs_ok (ss_fs s) \<and> shm_fd (ss_proc s) < 0"

inductive sync_reachable :: "kinds \<Rightarrow> sync_state \<Rightarrow> bool" where
  start: "sync_start K s \<Longrightarrow> sync_reachable K s"
| step: "sync_reachable K s \<Longrightarrow> sync_step (K, s) (K', s') \<Longrightarrow> sync_reachable K' s'"

inductive_cases sync_step_cases: "sync_step (K, s) (K', s')"

lemma may_call_good:
  assumes "may_call K s f" and inv: "sync_inv K s"
  shows "good_run K (f s)"
  using assms(1)
proof cases
  case (on_mutex a h)
  then show ?thesis using mutex_lock_good[OF inv] mutex_unlock_good[OF inv] mutex_destroy_good[OF inv] mutex_timed_good[OF inv]
    by (auto simp: mutex_hooks_def)
next
  case (on_cond a h)
  then show ?thesis using cond_destroy_good[OF inv] cond_wake_good[OF inv] by (auto simp: cond_hooks_def)
next
  case (on_wait c m hc hm)
  then show ?thesis using cond_wait_good[OF inv on_wait(1-5)] by (auto simp: wait_hooks_def)
next
  case (on_rwlock a h)
  then show ?thesis using rwlock_use_good[OF inv on_rwlock(1,2)] rwlock_unlock_good[OF inv on_rwlock(1,2)] by (auto simp: rwlock_hooks_def)
qed

lemma init_hook_good:
  assumes "sync_inv K s" "a \<noteq> 0" "host_good h s" "pool_top (ss_fs s) \<le> 2 ^ 24 - 4096" "k = KRwlock \<Longrightarrow> attr_live s attr"
  shows "init_run K a k (init_hook k h a attr s)"
  using mutex_init_good[OF assms(1-4)] cond_init_good[OF assms(1-4)] rwlock_init_good[OF assms(1-4)] assms(5) by (cases k) auto

lemma sync_start_inv: "sync_start K s \<Longrightarrow> sync_inv K s"
  by (auto simp: sync_start_def sync_inv_def proc_ok_def heap_apart_def word_ok_def)

lemma sync_reachable_inv: "sync_reachable K s \<Longrightarrow> sync_inv K s"
proof (induction rule: sync_reachable.induct)
  case (step K s K' s')
  from step.hyps(2) show ?case
  proof (rule sync_step_cases)
    fix f ret assume "K' = K" "may_call K s f" "f s = Inr (ret, s')"
    then show ?thesis using may_call_good[OF _ step.IH] by fastforce
  next
    fix a h k attr ret assume K': "K' = (if ret = 0 then K(a \<mapsto> k) else K(a := None))" and run: "init_hook k h a attr s = Inr (ret, s')"
      and "a \<noteq> 0" "host_good h s" "pool_top (ss_fs s) \<le> 16773120" "k = KRwlock \<Longrightarrow> attr_live s attr"
    then have "init_run K a k (init_hook k h a attr s)" by (intro init_hook_good[OF step.IH]) simp_all
    then show ?thesis by (simp add: K' run)
  qed
qed (rule sync_start_inv)

section \<open>Properties\<close>


definition demo_sync_host :: sync_host where
  "demo_sync_host = \<lparr>sy_malloc = 0x5000000, sy_ret = (\<lambda>c. 0), sy_mutexattr_pshared = (\<lambda>a. False), sy_condattr_pshared = (\<lambda>a. False),
     sy_clock = Inr \<lparr>tv_sec = 100, tv_nsec = 0\<rparr>, sy_shm = demo_shm_host\<rparr>"

definition demo_sync_state :: sync_state where
  "demo_sync_state = \<lparr>ss_mem = (\<lambda>a. 0)(0x2000 := 0x4000), ss_heap = Map.empty, ss_shared = Map.empty,
     ss_fs = \<lparr>fs_objects = [], fs_path = None\<rparr>,
     ss_proc = \<lparr>shm_fd = -1, shm_object = 0, shm_data = 0, current_mapped_size = 0, shm_atexit = False\<rparr>, ss_wakes = []\<rparr>"

definition demo_kinds :: kinds where "demo_kinds = [0x1000 \<mapsto> KMutex, 0x2000 \<mapsto> KMutex, 0x3000 \<mapsto> KRwlock]"

lemma demo_start: "sync_start demo_kinds demo_sync_state"
  by (auto simp: sync_start_def demo_kinds_def demo_sync_state_def fs_ok_def hybris_check_android_shared_mutex_def android_consts
      split: if_splits)

lemma demo_host_good: "host_good demo_sync_host demo_sync_state"
  using demo_shm_host_ok by (auto simp: host_good_def fresh_block_def demo_sync_host_def demo_sync_state_def from_host_def in_pool_def
      demo_shm_host_def Let_def)


text \<open>Threads that use static mutexes, each through the function that creates the object.\<close>

fun get_all :: "(sync_host \<times> u64) list \<Rightarrow> sync_state \<Rightarrow> u64 list sync_run" where
  "get_all [] s = Inr ([], s)"
| "get_all ((h, a) # ops) s =
     try_then (hybris_get_static_mutex h a s) (\<lambda>(r, s1). try_then (get_all ops s1) (\<lambda>(rs, s2). Inr (r # rs, s2)))"

lemma get_all_Cons:
  assumes "get_all ((h, a) # ops) s = Inr (rs, s')"
  obtains r s1 rs1 where "hybris_get_static_mutex h a s = Inr (r, s1)" "get_all ops s1 = Inr (rs1, s')" "rs = r # rs1"
  using assms by (auto simp: succeeds)

lemma get_all_live:
  "\<lbrakk>get_all ops s = Inr (rs, s'); \<forall>(h, a) \<in> set ops. a \<noteq> 0; \<not> ss_mem s b \<le> 0xFFFF\<rbrakk> \<Longrightarrow> ss_mem s' b = ss_mem s b"
proof (induction ops arbitrary: s rs)
  case (Cons op ops)
  obtain h a where op: "op = (h, a)" by (cases op)
  from Cons.prems(1) obtain r s1 rs1 where g: "hybris_get_static_mutex h a s = Inr (r, s1)" and rest: "get_all ops s1 = Inr (rs1, s')"
    unfolding op by (rule get_all_Cons)
  have "ss_mem s1 b = ss_mem s b" using Cons.prems(2,3) by (intro mutex_object.get_keeps[OF g]) (auto simp: op)
  with Cons.IH[OF rest] Cons.prems(2,3) show ?case by simp
qed simp

lemma get_all_heap:
  "\<lbrakk>get_all ops s = Inr (rs, s'); \<forall>(h, a) \<in> set ops. a \<noteq> 0 \<and> sy_malloc h \<noteq> m\<rbrakk> \<Longrightarrow> ss_heap s' m = ss_heap s m"
proof (induction ops arbitrary: s rs)
  case (Cons op ops)
  obtain h a where op: "op = (h, a)" by (cases op)
  from Cons.prems(1) obtain r s1 rs1 where g: "hybris_get_static_mutex h a s = Inr (r, s1)" and rest: "get_all ops s1 = Inr (rs1, s')"
    unfolding op by (rule get_all_Cons)
  have a: "a \<noteq> 0" "sy_malloc h \<noteq> m" using Cons.prems(2) by (auto simp: op)
  then have "ss_heap s1 m = ss_heap s m"
    using g mutex_object.get_low[of a s h] mutex_object.get_high[of a s h] by (cases "ss_mem s a \<le> 0xFFFF") (auto simp: published_def)
  with Cons.IH[OF rest] Cons.prems(2) show ?case by simp
qed simp

lemma static_mutex_high:
  assumes "hybris_get_static_mutex h a s = Inr (r, s1)" and "a \<noteq> 0" and "0xFFFF < unat (sy_malloc h)"
  shows "ss_mem s1 a = r" "\<not> r \<le> 0xFFFF"
  using assms mutex_object.get_low[of a s h] mutex_object.get_high[of a s h]
  by (cases "ss_mem s a \<le> 0xFFFF"; auto simp: published_def word_le_nat_alt)+

lemma get_all_published:
  "\<lbrakk>get_all ops s = Inr (rs, s'); \<forall>(h, a) \<in> set ops. a \<noteq> 0 \<and> 0xFFFF < unat (sy_malloc h)\<rbrakk>
   \<Longrightarrow> rs = map (\<lambda>(h, a). ss_mem s' a) ops"
proof (induction ops arbitrary: s rs)
  case (Cons op ops)
  obtain h a where op: "op = (h, a)" by (cases op)
  from Cons.prems(1) obtain r s1 rs1 where g: "hybris_get_static_mutex h a s = Inr (r, s1)"
    and rest: "get_all ops s1 = Inr (rs1, s')" and rs: "rs = r # rs1" unfolding op by (rule get_all_Cons)
  have "ss_mem s1 a = r" "\<not> r \<le> 0xFFFF" using static_mutex_high[OF g] Cons.prems(2) by (auto simp: op)
  then have "ss_mem s' a = r" using get_all_live[OF rest, of a] Cons.prems(2) by auto
  with Cons.IH[OF rest] Cons.prems(2) rs show ?case by (simp add: op)
qed simp

lemma get_all_kinds:
  "\<lbrakk>get_all ops s = Inr (rs, s'); \<forall>(h, a) \<in> set ops. a \<noteq> 0 \<and> 0xFFFF < unat (sy_malloc h);
    distinct (map (\<lambda>(h, a). sy_malloc h) ops); (h', b) \<in> set ops; ss_mem s b \<le> 0xFFFF\<rbrakk>
   \<Longrightarrow> ss_heap s' (ss_mem s' b) = Some (HMutex (KindAttr (hybris_set_mutex_attr (ucast (ss_mem s b)))))"
proof (induction ops arbitrary: s rs)
  case (Cons op ops)
  obtain h a where op: "op = (h, a)" by (cases op)
  from Cons.prems(1) obtain r s1 rs1 where g: "hybris_get_static_mutex h a s = Inr (r, s1)"
    and rest: "get_all ops s1 = Inr (rs1, s')" unfolding op by (rule get_all_Cons)
  have a: "a \<noteq> 0" and m: "0xFFFF < unat (sy_malloc h)" using Cons.prems(2) by (auto simp: op)
  show ?case
  proof (cases "b = a")
    case True
    note hi = static_mutex_high[OF g a m]
    have s1: "r = sy_malloc h" "ss_heap s1 r = Some (HMutex (KindAttr (hybris_set_mutex_attr (ucast (ss_mem s a)))))"
      using mutex_object.get_low[OF a, of s h] g Cons.prems(5) True by (auto simp: published_def)
    have "ss_mem s' a = r" using get_all_live[OF rest, of a] Cons.prems(2) hi by auto
    moreover have "ss_heap s' r = ss_heap s1 r" using Cons.prems(2,3) s1(1) by (intro get_all_heap[OF rest]) (force simp: op)
    ultimately show ?thesis using s1(2) True by simp
  next
    case False
    then have "ss_mem s1 b = ss_mem s b" by (intro mutex_object.get_keeps[OF g a]) simp
    moreover have "(h', b) \<in> set ops" using Cons.prems(4) False by (simp add: op)
    ultimately show ?thesis using Cons.IH[OF rest] Cons.prems(2,3,5) by simp
  qed
qed simp



section \<open>Deadlines\<close>

definition nanos :: "timespec \<Rightarrow> int" where "nanos t = tv_sec t * 1000000000 + tv_nsec t"

definition normalised :: "timespec \<Rightarrow> bool" where "normalised t \<longleftrightarrow> 0 \<le> tv_nsec t \<and> tv_nsec t < 1000000000"

lemma uint_msecs:
  "uint ((msecs :: u32) div 1000) = uint msecs div 1000" "uint ((msecs mod 1000) * 1000000) = (uint msecs mod 1000) * 1000000"
proof -
  show "uint (msecs div 1000) = uint msecs div 1000" by (simp add: uint_div_distrib)
  have m: "uint (msecs mod 1000) = uint msecs mod 1000" by (simp add: uint_mod_distrib)
  have "uint (msecs mod 1000) * uint (1000000 :: u32) < 2 ^ 32"
    using pos_mod_bound[of 1000 "uint msecs"] unfolding m by simp
  then have "uint ((msecs mod 1000) * 1000000) = uint (msecs mod 1000) * uint (1000000 :: u32)"
    by (subst uint_mult_lem[THEN iffD1]) simp_all
  then show "uint ((msecs mod 1000) * 1000000) = (uint msecs mod 1000) * 1000000" by (simp add: m)
qed

lemma add_msecs_exact:
  assumes "normalised tv"
  shows "normalised (add_msecs tv msecs) \<and> nanos (add_msecs tv msecs) = nanos tv + uint msecs * 1000000"
proof -
  have total: "uint msecs * 1000000 = uint msecs div 1000 * 1000000000 + uint msecs mod 1000 * 1000000"
    using div_mult_mod_eq[of "uint msecs" 1000] by linarith
  have "0 \<le> uint msecs mod 1000" "uint msecs mod 1000 < 1000" by simp_all
  then show ?thesis using assms unfolding add_msecs_def Let_def uint_msecs normalised_def nanos_def by (auto simp: total)
qed

text \<open>
  A lock with a timeout waits on the object's own mutex until exactly the given number of
  milliseconds after now, as a normalised time; running out of time is reported as \<open>EBUSY\<close> and every
  other result unchanged.
\<close>

theorem mutex_lock_timeout_deadline:
  assumes "a \<noteq> 0" and "ss_mem s a = v" and "\<not> v \<le> 0xFFFF" and "\<not> hybris_is_pointer_in_shm v" and "is_HMutex (ss_heap s v)"
    and "sy_clock h = Inr now" and "normalised now"
  shows "\<exists>deadline. normalised deadline \<and> nanos deadline = nanos now + uint msecs * 1000000 \<and>
    hybris_hook_pthread_mutex_lock_timeout_np h a msecs s =
      Inr (let error = sy_ret h (MutexClocklock v CLOCK_MONOTONIC deadline) in if error = ETIMEDOUT then EBUSY else error, s)"
proof -
  have "v \<noteq> 0" using assms(3) by auto
  moreover obtain k where "ss_heap s v = Some (HMutex k)" using assms(5) by (cases "ss_heap s v" rule: is_HMutex.cases) auto
  ultimately have "call_ok s (MutexClocklock v CLOCK_MONOTONIC (add_msecs now msecs))"
    by (simp add: call_ok_def object_at_heap)
  then have "hybris_hook_pthread_mutex_lock_timeout_np h a msecs s =
      Inr (let error = sy_ret h (MutexClocklock v CLOCK_MONOTONIC (add_msecs now msecs)) in if error = ETIMEDOUT then EBUSY else error, s)"
    using assms by (simp add: hybris_hook_pthread_mutex_lock_timeout_np_def hybris_read_sync_value_def timed_mutex_def real_pointer_def
        hybris_check_android_shared_mutex_def top_consts host_op_def)
  then show ?thesis using add_msecs_exact[OF assms(7)] by blast
qed

definition demo_locked_state :: sync_state where
  "demo_locked_state = demo_sync_state\<lparr>ss_mem := (\<lambda>a. 0)(0x1000 := 0x5000000, 0x3000 := 0x6000000),
     ss_heap := [0x5000000 \<mapsto> HMutex (HostAttr 0), 0x6000000 \<mapsto> HRwlock 0]\<rparr>"

theorem mutex_lock_timeout_deadline_witness:
  "\<exists>deadline. normalised deadline \<and> nanos deadline = 101500000000 \<and>
    hybris_hook_pthread_mutex_lock_timeout_np demo_sync_host 0x1000 1500 demo_locked_state = Inr (0, demo_locked_state)"
proof -
  have "\<exists>deadline. normalised deadline \<and> nanos deadline = nanos \<lparr>tv_sec = 100, tv_nsec = 0\<rparr> + uint (1500 :: u32) * 1000000 \<and>
    hybris_hook_pthread_mutex_lock_timeout_np demo_sync_host 0x1000 1500 demo_locked_state =
      Inr (let error = sy_ret demo_sync_host (MutexClocklock 0x5000000 CLOCK_MONOTONIC deadline) in if error = ETIMEDOUT then EBUSY else error, demo_locked_state)"
    by (rule mutex_lock_timeout_deadline) (simp_all add: demo_locked_state_def demo_sync_host_def demo_sync_state_def normalised_def
        hybris_is_pointer_in_shm_def HYBRIS_SHM_MASK_def)
  then show ?thesis by (simp add: nanos_def demo_sync_host_def ETIMEDOUT_def)
qed

text \<open>
  The deadline of a relative wait is exact and normalised when the seconds can be represented,
  and the wait is refused otherwise; no intermediate sum leaves the range of \<open>time_t\<close>.
\<close>

theorem relative_deadline_exact:
  assumes "normalised now" "normalised rel" "0 \<le> tv_sec rel" "-(2 ^ 63) \<le> tv_sec now"
  shows "case relative_deadline now rel of
      Some d \<Rightarrow> normalised d \<and> nanos d = nanos now + nanos rel \<and> -(2 ^ 63) \<le> tv_sec d \<and> tv_sec d < 2 ^ 63
    | None \<Rightarrow> nanos now + nanos rel \<ge> 2 ^ 63 * 1000000000"
  using assms by (auto simp: relative_deadline_def time_add_def normalised_def nanos_def Let_def)

theorem relative_deadline_exact_witness:
  "relative_deadline \<lparr>tv_sec = 2 ^ 63 - 1, tv_nsec = 999999999\<rparr> \<lparr>tv_sec = 0, tv_nsec = 1\<rparr> = None \<and>
   nanos \<lparr>tv_sec = 2 ^ 63 - 1, tv_nsec = 999999999\<rparr> + nanos \<lparr>tv_sec = 0, tv_nsec = 1\<rparr> \<ge> 2 ^ 63 * 1000000000"
  using relative_deadline_exact[of "\<lparr>tv_sec = 2 ^ 63 - 1, tv_nsec = 999999999\<rparr>" "\<lparr>tv_sec = 0, tv_nsec = 1\<rparr>"]
  by (simp add: normalised_def relative_deadline_def time_add_def)

section \<open>Attributes and destruction of read-write locks\<close>

text \<open>
  A preference that bionic knows survives the host's different numbering: what is set is read
  back.  Any other preference is refused and changes nothing, and a host-only policy is reported as
  an error instead of a wrong number.
\<close>

theorem rwlock_kind_roundtrip:
  assumes "attr \<noteq> 0" and "ss_heap s (ss_mem s attr) = Some (HRwlockAttr p k)" and "ss_mem s attr \<noteq> 0" and "\<And>c. sy_ret h c = 0"
  shows "(pref \<in> {0, 1} \<longrightarrow> (\<exists>s'. hybris_hook_pthread_rwlockattr_setkind_np h attr pref s = Inr (0, s') \<and>
        hybris_hook_pthread_rwlockattr_getkind_np h attr s' = Inr ((0, Some pref), s') \<and>
        hybris_hook_pthread_rwlockattr_getpshared h attr s' = Inr ((0, Some p), s'))) \<and>
    (pref \<notin> {0, 1} \<longrightarrow> hybris_hook_pthread_rwlockattr_setkind_np h attr pref s = Inr (EINVAL, s)) \<and>
    (k = PTHREAD_RWLOCK_PREFER_WRITER_NP \<longrightarrow> hybris_hook_pthread_rwlockattr_getkind_np h attr s = Inr ((EINVAL, None), s))"
  using assms by (auto simp: hybris_hook_pthread_rwlockattr_setkind_np_def hybris_hook_pthread_rwlockattr_getkind_np_def
      hybris_hook_pthread_rwlockattr_getpshared_def hybris_read_sync_value_def host_init_def host_op_def call_ok_def object_at_def
      put_object_def rwlock_kinds Let_def)

theorem rwlock_kind_roundtrip_witness:
  "\<exists>s'. hybris_hook_pthread_rwlockattr_setkind_np demo_sync_host 0x4000 1
       (demo_sync_state\<lparr>ss_mem := (\<lambda>a. 0x7000000), ss_heap := [0x7000000 \<mapsto> HRwlockAttr 0 0]\<rparr>) = Inr (0, s') \<and>
     hybris_hook_pthread_rwlockattr_getkind_np demo_sync_host 0x4000 s' = Inr ((0, Some 1), s')"
  using rwlock_kind_roundtrip[of "0x4000" "demo_sync_state\<lparr>ss_mem := (\<lambda>a. 0x7000000), ss_heap := [0x7000000 \<mapsto> HRwlockAttr 0 0]\<rparr>" 0 0
      demo_sync_host 1]
  by (auto simp: demo_sync_host_def)

text \<open>
  C31: Destroying a private read-write lock frees the host lock, even when the host refuses to
  destroy it, and leaves its address in the object: the next use of the object hands the host a freed
  block.
\<close>

theorem rwlock_destroy_dangles:
  assumes "a \<noteq> 0" and "ss_mem s a = v" and "\<not> v \<le> 0xFFFF" and "\<not> hybris_is_pointer_in_shm v"
    and "ss_heap s v = Some (HRwlock x)" and "ss_shared s (pool_offset s v) = None"
  shows "\<exists>s'. hybris_hook_pthread_rwlock_destroy h a s = Inr (sy_ret h (RwlockDestroy v), s') \<and> ss_mem s' a = v \<and> ss_heap s' v = None \<and>
    hybris_hook_pthread_rwlock_rdlock h' a s' = Inl (BadObject (RwlockRdlock v)) \<and>
    hybris_hook_pthread_rwlock_destroy h' a s' = Inl (BadObject (RwlockDestroy v))"
proof -
  have v: "v \<noteq> 0" using assms(3) by auto
  let ?s = "s\<lparr>ss_heap := (ss_heap s)(v := None)\<rparr>"
  have dead: "object_at ?s v = None" using assms(6) by (simp add: object_at_def pool_offset_def)
  have "hybris_hook_pthread_rwlock_destroy h a s = Inr (sy_ret h (RwlockDestroy v), ?s)"
    using assms v by (simp add: hybris_hook_pthread_rwlock_destroy_def hybris_read_sync_value_def top_consts host_op_def host_free_def
        call_ok_def object_at_heap)
  moreover have "hybris_hook_pthread_rwlock_rdlock h' a ?s = Inl (BadObject (RwlockRdlock v))"
    using assms dead by (simp add: hybris_hook_pthread_rwlock_rdlock_def hybris_set_realrwlock_def hybris_get_static_rwlock_value_def
        hybris_read_sync_value_def top_consts real_pointer_def host_op_def call_ok_def)
  moreover have "hybris_hook_pthread_rwlock_destroy h' a ?s = Inl (BadObject (RwlockDestroy v))"
    using assms dead by (simp add: hybris_hook_pthread_rwlock_destroy_def hybris_read_sync_value_def top_consts host_op_def call_ok_def)
  ultimately show ?thesis using assms(2) by auto
qed

theorem rwlock_destroy_dangles_witness:
  "\<exists>s'. hybris_hook_pthread_rwlock_destroy demo_sync_host 0x3000 demo_locked_state = Inr (0, s') \<and>
     hybris_hook_pthread_rwlock_rdlock demo_sync_host 0x3000 s' = Inl (BadObject (RwlockRdlock 0x6000000))"
  using rwlock_destroy_dangles[of "0x3000" demo_locked_state "0x6000000" 0 demo_sync_host demo_sync_host]
  by (auto simp: demo_locked_state_def demo_sync_state_def demo_sync_host_def hybris_is_pointer_in_shm_def HYBRIS_SHM_MASK_def)

section \<open>Objects shared with Android\<close>

lemma pulse_one: "pulse_loop 1 [] 1 = 0xFFFFFFFF" "1 AND NOT (mask 32) OR 0xFFFFFFFF = (0xFFFFFFFF :: u64)"
  by code_simp+

text \<open>
  C32: A condition that Android shares is a small odd number.  The first wake-up counts the value 1
  down to minus one, in the four bytes of the \<open>int\<close> only; on 64-bit the word is then neither small nor
  in the range of the negative values, so that the second wake-up takes it for the address of a host
  condition.
\<close>

theorem shared_cond_becomes_pointer:
  assumes "a \<noteq> 0" and "ss_mem s a = 1" and "ss_heap s 0xFFFFFFFF = None" and "ss_shared s (pool_offset s 0xFFFFFFFF) = None"
  shows "\<exists>s'. hybris_hook_pthread_cond_broadcast h [] a s = Inr (0, s') \<and> android_cond_value a s' = 0xFFFFFFFF \<and>
    ss_mem s' a = 0xFFFFFFFF \<and> \<not> hybris_check_android_shared_cond (ss_mem s' a) \<and>
    hybris_hook_pthread_cond_broadcast h' [] a s' = Inl (BadObject (CondBroadcast 0xFFFFFFFF))"
proof -
  let ?s = "s\<lparr>ss_mem := (ss_mem s)(a := 0xFFFFFFFF), ss_wakes := ss_wakes s @ [(a, True, INT_MAX)]\<rparr>"
  have "hybris_hook_pthread_cond_broadcast h [] a s = Inr (0, ?s)"
    using assms(1,2) by (simp add: hybris_hook_pthread_cond_broadcast_def hybris_read_sync_value_def hybris_check_android_shared_cond_def
        top_consts cond_consts android_pthread_cond_broadcast_def android_pthread_cond_pulse_def android_cond_value_def
        set_android_cond_value_def pulse_one Let_def del: pulse_loop.simps)
  moreover have "hybris_hook_pthread_cond_broadcast h' [] a ?s = Inl (BadObject (CondBroadcast 0xFFFFFFFF))"
    using assms by (simp add: hybris_hook_pthread_cond_broadcast_def hybris_read_sync_value_def hybris_check_android_shared_cond_def
        top_consts cond_consts HYBRIS_SHM_MASK_TOP_def HYBRIS_SHM_MASK_def real_pointer_def hybris_is_pointer_in_shm_def host_op_def call_ok_def
        object_at_def pool_offset_def)
  ultimately show ?thesis
    by (intro exI[of _ ?s]) (simp add: android_cond_value_def hybris_check_android_shared_cond_def top_consts cond_consts HYBRIS_SHM_MASK_TOP_def)
qed

theorem shared_cond_becomes_pointer_witness:
  "\<exists>s'. hybris_hook_pthread_cond_broadcast demo_sync_host [] 0x4000 (demo_sync_state\<lparr>ss_mem := (\<lambda>a. 1)\<rparr>) = Inr (0, s') \<and>
     hybris_hook_pthread_cond_broadcast demo_sync_host [] 0x4000 s' = Inl (BadObject (CondBroadcast 0xFFFFFFFF))"
  using shared_cond_becomes_pointer[of "0x4000" "demo_sync_state\<lparr>ss_mem := (\<lambda>a. 1)\<rparr>" demo_sync_host demo_sync_host]
  by (auto simp: demo_sync_state_def)

text \<open>The destruction of a mutex that Android shares takes its small number for the address of a host mutex.\<close>

lemma shared_mutex_destroy_wild:
  assumes "a \<noteq> 0" and "hybris_check_android_shared_mutex (ss_mem s a)" and "object_at s (ss_mem s a) = None"
  shows "hybris_hook_pthread_mutex_destroy h a s = Inl (BadObject (MutexDestroy (ss_mem s a)))"
proof -
  have "ss_mem s a \<le> 0xFFFF" "ss_mem s a \<noteq> 0" using assms(2) by (auto simp: hybris_check_android_shared_mutex_def top_consts)
  then have "\<not> hybris_is_pointer_in_shm (ss_mem s a)" by (intro not_in_shm) (simp add: word_le_nat_alt)
  with assms \<open>ss_mem s a \<noteq> 0\<close> show ?thesis
    by (simp add: hybris_hook_pthread_mutex_destroy_def hybris_read_sync_value_def host_op_def call_ok_def)
qed

end
