(* ===== verification/Spirv_Edit.thy ===== *)
theory Spirv_Edit
  imports Hybris_Prelude
begin

text \<open>
  The SPIR-V editor of the Vulkan compatibility layer, \<open>hybris/vulkan/compat/malibridge/spirv_edit.c\<close>: a shader
  module is parsed into instructions, searched, edited and written back.  A module that was parsed is written
  back word for word, and every edit keeps it well formed: the counts agree with the operands and each id is
  defined once and below the bound.  An access outside of the operands of an instruction is a fault of the
  model.
\<close>

section \<open>Definitions\<close>

subsection \<open>Modules\<close>

datatype spv_fault = SpvBadRead | SpvBadWrite | SpvNull

text \<open>
  \<open>in_w\<close> are the operand words that the instruction was given, \<open>None\<close> the null pointer of a failed
  allocation.  \<open>sm_allocs\<close> counts the allocations made; the parameter \<open>ok\<close> of the operations tells which of them
  succeed.
\<close>

record spv_inst =
  in_op :: u16
  in_n :: u16
  in_w :: "u32 list option"

record spv_mod =
  sm_header :: "u32 list"
  sm_ins :: "spv_inst list"
  sm_cap :: u32
  sm_err :: bool
  sm_allocs :: nat

definition SpvOpUndef :: u16 where "SpvOpUndef = 1"
definition SpvOpString :: u16 where "SpvOpString = 7"
definition SpvOpExtInstImport :: u16 where "SpvOpExtInstImport = 11"
definition SpvOpMemoryModel :: u16 where "SpvOpMemoryModel = 14"
definition SpvOpEntryPoint :: u16 where "SpvOpEntryPoint = 15"
definition SpvOpCapability :: u16 where "SpvOpCapability = 17"
definition SpvOpTypeBool :: u16 where "SpvOpTypeBool = 20"
definition SpvOpTypeInt :: u16 where "SpvOpTypeInt = 21"
definition SpvOpTypeFloat :: u16 where "SpvOpTypeFloat = 22"
definition SpvOpTypeVector :: u16 where "SpvOpTypeVector = 23"
definition SpvOpTypeMatrix :: u16 where "SpvOpTypeMatrix = 24"
definition SpvOpTypeArray :: u16 where "SpvOpTypeArray = 28"
definition SpvOpTypeStruct :: u16 where "SpvOpTypeStruct = 30"
definition SpvOpTypePointer :: u16 where "SpvOpTypePointer = 32"
definition SpvOpConstant :: u16 where "SpvOpConstant = 43"
definition SpvOpFunction :: u16 where "SpvOpFunction = 54"
definition SpvOpVariable :: u16 where "SpvOpVariable = 59"
definition SpvOpDecorate :: u16 where "SpvOpDecorate = 71"
definition SpvOpMemberDecorate :: u16 where "SpvOpMemberDecorate = 72"
definition SpvOpLabel :: u16 where "SpvOpLabel = 248"
definition SpvDecorationLocation :: u32 where "SpvDecorationLocation = 30"
definition SpvDecorationArrayStride :: u32 where "SpvDecorationArrayStride = 6"
definition SpvMagic :: u32 where "SpvMagic = 0x07230203"

lemmas spv_op_defs = SpvOpUndef_def SpvOpString_def SpvOpExtInstImport_def SpvOpMemoryModel_def SpvOpEntryPoint_def
  SpvOpCapability_def SpvOpTypeBool_def SpvOpTypeInt_def SpvOpTypeFloat_def SpvOpTypeVector_def SpvOpTypeMatrix_def
  SpvOpTypeArray_def SpvOpTypeStruct_def SpvOpTypePointer_def SpvOpConstant_def SpvOpFunction_def SpvOpVariable_def
  SpvOpDecorate_def SpvOpMemberDecorate_def SpvOpLabel_def

text \<open>\<open>in->w[k]\<close>.\<close>

definition operand :: "spv_inst \<Rightarrow> nat \<Rightarrow> spv_fault + u32" where
  "operand i k = (case in_w i of None \<Rightarrow> Inl SpvNull | Some w \<Rightarrow> if k < length w then Inr (w ! k) else Inl SpvBadRead)"

subsection \<open>Insertion and removal\<close>

text \<open>The room for one more instruction: the flag is false if the table could not grow.\<close>

definition spv_reserve :: "(nat \<Rightarrow> bool) \<Rightarrow> spv_mod \<Rightarrow> bool \<times> spv_mod" where
  "spv_reserve ok m =
     (if of_nat (length (sm_ins m)) = sm_cap m
      then if ok (sm_allocs m)
           then (True, m\<lparr>sm_cap := (if sm_cap m \<noteq> 0 then sm_cap m * 2 else 1024), sm_allocs := Suc (sm_allocs m)\<rparr>)
           else (False, m\<lparr>sm_err := True, sm_allocs := Suc (sm_allocs m)\<rparr>)
      else (True, m))"

definition insert_at :: "nat \<Rightarrow> 'a \<Rightarrow> 'a list \<Rightarrow> 'a list" where
  "insert_at k x xs = take k xs @ x # drop k xs"

definition spv_insert :: "(nat \<Rightarrow> bool) \<Rightarrow> spv_mod \<Rightarrow> u32 \<Rightarrow> u16 \<Rightarrow> u32 list \<Rightarrow> spv_fault + u32 \<times> spv_mod" where
  "spv_insert ok m at op ops =
     (case spv_reserve ok m of
        (False, m1) \<Rightarrow> Inr (0, m1)
      | (True, m1) \<Rightarrow>
          if unat (sm_cap m1) \<le> length (sm_ins m1) then Inl SpvBadWrite
          else let at1 = (if unat at > length (sm_ins m1) then length (sm_ins m1) else unat at);
                   given = ok (sm_allocs m1);
                   i = \<lparr>in_op = op, in_n = of_nat (length ops) + 1, in_w = (if given then Some ops else None)\<rparr>
               in Inr (of_nat at1, m1\<lparr>sm_ins := insert_at at1 i (sm_ins m1), sm_err := sm_err m1 \<or> \<not> given,
                                      sm_allocs := Suc (sm_allocs m1)\<rparr>))"

definition spv_remove :: "spv_mod \<Rightarrow> nat \<Rightarrow> spv_mod" where
  "spv_remove m at =
     (if at \<ge> length (sm_ins m) then m else m\<lparr>sm_ins := take at (sm_ins m) @ drop (Suc at) (sm_ins m)\<rparr>)"

definition spv_new_id :: "spv_mod \<Rightarrow> u32 \<times> spv_mod" where
  "spv_new_id m = (sm_header m ! 3, m\<lparr>sm_header := (sm_header m)[3 := sm_header m ! 3 + 1]\<rparr>)"

definition spv_version :: "spv_mod \<Rightarrow> u32" where
  "spv_version m = sm_header m ! 1"

subsection \<open>Parsing and writing\<close>

text \<open>The loop of \<open>spv_parse\<close> over the words from \<open>pos\<close> on; the result \<open>False\<close> is \<open>-1\<close>.\<close>

function parse_from :: "(nat \<Rightarrow> bool) \<Rightarrow> u32 list \<Rightarrow> spv_mod \<Rightarrow> spv_fault + bool \<times> spv_mod" where
  "parse_from ok [] m = Inr (True, m)"
| "parse_from ok (w # ws) m =
     (let n = unat (drop_bit 16 w)
      in if n = 0 \<or> n > Suc (length ws) then Inr (False, m)
         else (case spv_insert ok m (of_nat (length (sm_ins m))) (ucast (w AND 0xffff)) (take (n - 1) ws) of
                 Inl e \<Rightarrow> Inl e
               | Inr r \<Rightarrow> if sm_err (snd r) then Inr (False, snd r) else parse_from ok (drop (n - 1) ws) (snd r)))"
  by pat_completeness auto
termination by (relation "measure (\<lambda>(ok, ws, m). length ws)") auto

definition spv_zero :: "spv_mod" where
  "spv_zero = \<lparr>sm_header = replicate 5 0, sm_ins = [], sm_cap = 0, sm_err = False, sm_allocs = 0\<rparr>"

definition spv_parse :: "(nat \<Rightarrow> bool) \<Rightarrow> u32 list \<Rightarrow> nat \<Rightarrow> spv_fault + bool \<times> spv_mod" where
  "spv_parse ok code bytes =
     (if bytes < 20 \<or> bytes mod 4 \<noteq> 0 then Inr (False, spv_zero)
      else if length code < bytes div 4 then Inl SpvBadRead
      else if code ! 0 \<noteq> SpvMagic then Inr (False, spv_zero)
      else parse_from ok (drop 5 (take (bytes div 4) code)) (spv_zero\<lparr>sm_header := take 5 code\<rparr>))"

text \<open>What \<open>spv_write\<close> copies for an instruction: a count of zero makes the length of the copy wrap.\<close>

definition inst_words :: "spv_inst \<Rightarrow> spv_fault + u32 list" where
  "inst_words i =
     (if in_n i = 0 then Inl SpvBadRead
      else case in_w i of
        None \<Rightarrow> Inl SpvNull
      | Some w \<Rightarrow> if length w < unat (in_n i) - 1 then Inl SpvBadRead
                  else Inr ((push_bit 16 (ucast (in_n i)) OR ucast (in_op i)) # take (unat (in_n i) - 1) w))"

fun insts_words :: "spv_inst list \<Rightarrow> spv_fault + u32 list" where
  "insts_words [] = Inr []"
| "insts_words (i # is) = try_then (inst_words i) (\<lambda>ws. try_then (insts_words is) (\<lambda>vs. Inr (ws @ vs)))"

definition spv_write :: "(nat \<Rightarrow> bool) \<Rightarrow> spv_mod \<Rightarrow> spv_fault + u32 list option" where
  "spv_write ok m =
     (if \<not> ok (sm_allocs m) then Inr None
      else try_then (insts_words (sm_ins m)) (\<lambda>ws. Inr (Some (sm_header m @ ws))))"

subsection \<open>Searching\<close>

text \<open>A loop that looks for the first instruction for which a test, which may fault, holds.\<close>

fun search :: "('a \<Rightarrow> 'e + bool) \<Rightarrow> 'a list \<Rightarrow> nat \<Rightarrow> 'e + nat option" where
  "search p [] k = Inr None"
| "search p (x # xs) k = try_then (p x) (\<lambda>b. if b then Inr (Some k) else search p xs (Suc k))"

definition spv_find_op :: "spv_mod \<Rightarrow> u16 \<Rightarrow> nat \<Rightarrow> nat option" where
  "spv_find_op m op start =
     (case search (\<lambda>i. Inr (in_op i = op) :: spv_fault + bool) (drop start (sm_ins m)) start of Inr r \<Rightarrow> r | Inl e \<Rightarrow> None)"

definition is_type :: "u16 \<Rightarrow> bool" where "is_type op \<longleftrightarrow> 19 \<le> op \<and> op \<le> 38"

definition is_const :: "u16 \<Rightarrow> bool" where "is_const op \<longleftrightarrow> 41 \<le> op \<and> op \<le> 46 \<or> 48 \<le> op \<and> op \<le> 52"

text \<open>The instructions without a result.\<close>

definition no_result_ops :: "u16 list" where
  "no_result_ops = [5, 6, 71, 72, 15, 16, 17, 10, 14, 62, 249, 250, 247, 253, 252, 56, 8, 317, 3, 4, 332, 5632, 5633, 330,
     331, 246, 251, 254, 255, 74, 75, 224, 225, 4416]"

definition result_first :: "u16 \<Rightarrow> bool" where
  "result_first op \<longleftrightarrow> is_type op \<or> op = SpvOpLabel \<or> op = SpvOpString \<or> op = SpvOpExtInstImport \<or> op = 73"

definition spv_result_id :: "spv_inst \<Rightarrow> spv_fault + u32" where
  "spv_result_id i =
     (if in_n i < 2 then Inr 0
      else if result_first (in_op i) then operand i 0
      else if in_op i \<in> set no_result_ops then Inr 0
      else if in_n i \<ge> 3 then operand i 1 else Inr 0)"

definition spv_find_def :: "spv_mod \<Rightarrow> u32 \<Rightarrow> spv_fault + nat option" where
  "spv_find_def m target = search (\<lambda>i. try_then (spv_result_id i) (\<lambda>r. Inr (r = target))) (sm_ins m) 0"

definition spv_types_end :: "spv_mod \<Rightarrow> nat" where
  "spv_types_end m = (case spv_find_op m SpvOpFunction 0 of None \<Rightarrow> length (sm_ins m) | Some f \<Rightarrow> f)"

definition is_global :: "u16 \<Rightarrow> bool" where
  "is_global op \<longleftrightarrow> is_type op \<or> is_const op \<or> op = SpvOpVariable \<or> op = SpvOpUndef"

definition spv_annotations_end :: "spv_mod \<Rightarrow> nat" where
  "spv_annotations_end m =
     (case search (\<lambda>i. Inr (is_global (in_op i)) :: spv_fault + bool) (take (spv_types_end m) (sm_ins m)) 0 of
        Inr (Some k) \<Rightarrow> k
      | _ \<Rightarrow> spv_types_end m)"

subsection \<open>Types and constants\<close>

definition add_global :: "(nat \<Rightarrow> bool) \<Rightarrow> spv_mod \<Rightarrow> u16 \<Rightarrow> u32 list \<Rightarrow> spv_fault + spv_mod" where
  "add_global ok m op ops = try_then (spv_insert ok m (of_nat (spv_types_end m)) op ops) (\<lambda>r. Inr (snd r))"

text \<open>
  The common shape of the operations on types and constants: the operand \<open>k\<close> of the first instruction that passes
  the test, or a new instruction with a new id.
\<close>

definition find_or_add ::
    "(nat \<Rightarrow> bool) \<Rightarrow> (spv_inst \<Rightarrow> spv_fault + bool) \<Rightarrow> nat \<Rightarrow> u16 \<Rightarrow> (u32 \<Rightarrow> u32 list) \<Rightarrow> spv_mod \<Rightarrow> spv_fault + u32 \<times> spv_mod" where
  "find_or_add ok p k op ops m =
     try_then (search p (sm_ins m) 0) (\<lambda>r. case r of
        Some j \<Rightarrow> try_then (operand (sm_ins m ! j) k) (\<lambda>id. Inr (id, m))
      | None \<Rightarrow> (case spv_new_id m of (new, m1) \<Rightarrow> try_then (add_global ok m1 op (ops new)) (\<lambda>m2. Inr (new, m2))))"

text \<open>\<open>ins[i].op == op && ins[i].w[k] == v && ...\<close> with the reads of \<open>w\<close> in this order.\<close>

fun operands_are :: "spv_inst \<Rightarrow> (nat \<times> u32) list \<Rightarrow> spv_fault + bool" where
  "operands_are i [] = Inr True"
| "operands_are i ((k, v) # kvs) = try_then (operand i k) (\<lambda>x. if x = v then operands_are i kvs else Inr False)"

definition spv_type_float :: "(nat \<Rightarrow> bool) \<Rightarrow> u32 \<Rightarrow> spv_mod \<Rightarrow> spv_fault + u32 \<times> spv_mod" where
  "spv_type_float ok width =
     find_or_add ok (\<lambda>i. if in_op i = SpvOpTypeFloat then try_then (operands_are i [(1, width)]) (\<lambda>b. Inr (b \<and> in_n i = 3)) else Inr False)
       0 SpvOpTypeFloat (\<lambda>id. [id, width])"

definition spv_type_int :: "(nat \<Rightarrow> bool) \<Rightarrow> u32 \<Rightarrow> u32 \<Rightarrow> spv_mod \<Rightarrow> spv_fault + u32 \<times> spv_mod" where
  "spv_type_int ok width sign =
     find_or_add ok (\<lambda>i. if in_op i = SpvOpTypeInt then operands_are i [(1, width), (2, sign)] else Inr False)
       0 SpvOpTypeInt (\<lambda>id. [id, width, sign])"

definition spv_type_bool :: "(nat \<Rightarrow> bool) \<Rightarrow> spv_mod \<Rightarrow> spv_fault + u32 \<times> spv_mod" where
  "spv_type_bool ok = find_or_add ok (\<lambda>i. Inr (in_op i = SpvOpTypeBool)) 0 SpvOpTypeBool (\<lambda>id. [id])"

definition spv_type_vector :: "(nat \<Rightarrow> bool) \<Rightarrow> u32 \<Rightarrow> u32 \<Rightarrow> spv_mod \<Rightarrow> spv_fault + u32 \<times> spv_mod" where
  "spv_type_vector ok elem n =
     find_or_add ok (\<lambda>i. if in_op i = SpvOpTypeVector then operands_are i [(1, elem), (2, n)] else Inr False)
       0 SpvOpTypeVector (\<lambda>id. [id, elem, n])"

definition spv_type_pointer :: "(nat \<Rightarrow> bool) \<Rightarrow> u32 \<Rightarrow> u32 \<Rightarrow> spv_mod \<Rightarrow> spv_fault + u32 \<times> spv_mod" where
  "spv_type_pointer ok storage pointee =
     find_or_add ok (\<lambda>i. if in_op i = SpvOpTypePointer then operands_are i [(1, storage), (2, pointee)] else Inr False)
       0 SpvOpTypePointer (\<lambda>id. [id, storage, pointee])"

text \<open>The value behind a decoration of an id: zero if it has no value, \<open>None\<close> for \<open>-1\<close>.\<close>

definition spv_get_decoration :: "spv_mod \<Rightarrow> u32 \<Rightarrow> u32 \<Rightarrow> spv_fault + u32 option" where
  "spv_get_decoration m target decoration =
     try_then (search (\<lambda>i. if in_op i = SpvOpDecorate then operands_are i [(0, target), (1, decoration)] else Inr False) (sm_ins m) 0)
       (\<lambda>r. case r of
          None \<Rightarrow> Inr None
        | Some j \<Rightarrow> if in_n (sm_ins m ! j) > 3 then try_then (operand (sm_ins m ! j) 2) (\<lambda>x. Inr (Some x)) else Inr (Some 0))"

definition spv_type_array :: "(nat \<Rightarrow> bool) \<Rightarrow> u32 \<Rightarrow> u32 \<Rightarrow> spv_mod \<Rightarrow> spv_fault + u32 \<times> spv_mod" where
  "spv_type_array ok elem len_const m =
     find_or_add ok
       (\<lambda>i. if in_op i = SpvOpTypeArray
            then try_then (operands_are i [(1, elem), (2, len_const)]) (\<lambda>b.
                   if b then try_then (operand i 0) (\<lambda>id. try_then (spv_get_decoration m id SpvDecorationArrayStride) (\<lambda>d. Inr (d = None)))
                   else Inr False)
            else Inr False)
       0 SpvOpTypeArray (\<lambda>id. [id, elem, len_const]) m"

definition spv_constant :: "(nat \<Rightarrow> bool) \<Rightarrow> u32 \<Rightarrow> u32 \<Rightarrow> spv_mod \<Rightarrow> spv_fault + u32 \<times> spv_mod" where
  "spv_constant ok t v =
     find_or_add ok
       (\<lambda>i. if in_op i = SpvOpConstant
            then try_then (operands_are i [(0, t)]) (\<lambda>b. if b \<and> in_n i = 4 then operands_are i [(2, v)] else Inr False)
            else Inr False)
       1 SpvOpConstant (\<lambda>id. [t, id, v])"

definition spv_const_u32 :: "(nat \<Rightarrow> bool) \<Rightarrow> u32 \<Rightarrow> spv_mod \<Rightarrow> spv_fault + u32 \<times> spv_mod" where
  "spv_const_u32 ok v m = try_then (spv_type_int ok 32 0 m) (\<lambda>(t, m1). spv_constant ok t v m1)"

text \<open>The float is given by its bits.\<close>

definition spv_const_f32 :: "(nat \<Rightarrow> bool) \<Rightarrow> u32 \<Rightarrow> spv_mod \<Rightarrow> spv_fault + u32 \<times> spv_mod" where
  "spv_const_f32 ok bits m = try_then (spv_type_float ok 32 m) (\<lambda>(t, m1). spv_constant ok t bits m1)"

text \<open>The words of \<open>GLSL.std.450\<close>; of the last word the comparison reads the first byte.\<close>

definition glsl_words :: "u32 list" where
  "glsl_words = [0x4c534c47, 0x6474732e, 0x3035342e, 0]"

definition is_glsl_import :: "spv_inst \<Rightarrow> spv_fault + bool" where
  "is_glsl_import i =
     (if in_op i = SpvOpExtInstImport \<and> in_n i \<ge> 6
      then try_then (operand i 1) (\<lambda>a. try_then (operand i 2) (\<lambda>b. try_then (operand i 3) (\<lambda>c. try_then (operand i 4) (\<lambda>d.
             Inr ([a, b, c] = take 3 glsl_words \<and> d AND 0xff = 0)))))
      else Inr False)"

definition spv_glsl_std450 :: "(nat \<Rightarrow> bool) \<Rightarrow> spv_mod \<Rightarrow> spv_fault + u32 \<times> spv_mod" where
  "spv_glsl_std450 ok m =
     try_then (search is_glsl_import (sm_ins m) 0) (\<lambda>r. case r of
        Some j \<Rightarrow> try_then (operand (sm_ins m ! j) 0) (\<lambda>id. Inr (id, m))
      | None \<Rightarrow>
          (case spv_find_op m SpvOpMemoryModel 0 of
             None \<Rightarrow> Inr (0, m\<lparr>sm_err := True\<rparr>)
           | Some at \<Rightarrow>
               (case spv_new_id m of (new, m1) \<Rightarrow>
                  try_then (spv_insert ok m1 (of_nat at) SpvOpExtInstImport (new # glsl_words)) (\<lambda>r. Inr (new, snd r)))))"

subsection \<open>Decorations, capabilities, interfaces\<close>

text \<open>A loop that removes the instructions that pass a test and looks at the same place again.\<close>

function remove_from :: "(spv_inst \<Rightarrow> spv_fault + bool) \<Rightarrow> nat \<Rightarrow> spv_mod \<Rightarrow> spv_fault + spv_mod" where
  "remove_from p k m =
     (if k < length (sm_ins m)
      then (case p (sm_ins m ! k) of
              Inl e \<Rightarrow> Inl e
            | Inr b \<Rightarrow> if b then remove_from p k (spv_remove m k) else remove_from p (Suc k) m)
      else Inr m)"
  by pat_completeness auto
termination by (relation "measure (\<lambda>(p, k, m). length (sm_ins m) - k)") (auto simp: spv_remove_def)

declare remove_from.simps [simp del]

definition spv_remove_decoration :: "u32 \<Rightarrow> u32 \<Rightarrow> spv_mod \<Rightarrow> spv_fault + spv_mod" where
  "spv_remove_decoration target decoration =
     remove_from (\<lambda>i. if in_op i = SpvOpDecorate then operands_are i [(0, target), (1, decoration)] else Inr False) 0"

definition is_capability :: "u32 \<Rightarrow> spv_inst \<Rightarrow> spv_fault + bool" where
  "is_capability cap i = (if in_op i = SpvOpCapability then operands_are i [(0, cap)] else Inr False)"

definition spv_has_capability :: "spv_mod \<Rightarrow> u32 \<Rightarrow> spv_fault + bool" where
  "spv_has_capability m cap = try_then (search (is_capability cap) (sm_ins m) 0) (\<lambda>r. Inr (r \<noteq> None))"

definition spv_remove_capability :: "u32 \<Rightarrow> spv_mod \<Rightarrow> spv_fault + spv_mod" where
  "spv_remove_capability cap = remove_from (is_capability cap) 0"

definition spv_add_capability :: "(nat \<Rightarrow> bool) \<Rightarrow> u32 \<Rightarrow> spv_mod \<Rightarrow> spv_fault + spv_mod" where
  "spv_add_capability ok cap m =
     try_then (spv_has_capability m cap) (\<lambda>b.
       if b then Inr m else try_then (spv_insert ok m 0 SpvOpCapability [cap]) (\<lambda>r. Inr (snd r)))"

definition spv_execution_model :: "spv_mod \<Rightarrow> spv_fault + u32 option" where
  "spv_execution_model m =
     (case spv_find_op m SpvOpEntryPoint 0 of
        None \<Rightarrow> Inr None
      | Some e \<Rightarrow> try_then (operand (sm_ins m ! e) 0) (\<lambda>x. Inr (Some x)))"

text \<open>The write behind the operands is in range as long as the count covers the operands.\<close>

definition extend_inst :: "u32 \<Rightarrow> spv_inst \<Rightarrow> spv_fault + spv_inst" where
  "extend_inst var i =
     (if in_n i = 0 then Inl SpvBadWrite
      else case in_w i of
        None \<Rightarrow> Inl SpvNull
      | Some w \<Rightarrow> Inr (i\<lparr>in_n := in_n i + 1, in_w := Some (take (unat (in_n i) - 1) w @ [var])\<rparr>))"

fun add_interface_from :: "(nat \<Rightarrow> bool) \<Rightarrow> u32 \<Rightarrow> nat \<Rightarrow> spv_inst list \<Rightarrow> spv_fault + bool \<times> nat \<times> spv_inst list" where
  "add_interface_from ok var allocs [] = Inr (True, allocs, [])"
| "add_interface_from ok var allocs (i # is) =
     (if in_op i \<noteq> SpvOpEntryPoint
      then try_then (add_interface_from ok var allocs is) (\<lambda>(b, a, js). Inr (b, a, i # js))
      else if \<not> ok allocs then Inr (False, Suc allocs, i # is)
      else try_then (extend_inst var i) (\<lambda>j.
             try_then (add_interface_from ok var (Suc allocs) is) (\<lambda>(b, a, js). Inr (b, a, j # js))))"

definition spv_add_interface :: "(nat \<Rightarrow> bool) \<Rightarrow> u32 \<Rightarrow> spv_mod \<Rightarrow> spv_fault + spv_mod" where
  "spv_add_interface ok var m =
     try_then (add_interface_from ok var (sm_allocs m) (sm_ins m)) (\<lambda>(b, a, is).
       Inr (m\<lparr>sm_ins := is, sm_allocs := a, sm_err := sm_err m \<or> \<not> b\<rparr>))"

subsection \<open>Locations\<close>

definition spv_array_length :: "spv_mod \<Rightarrow> u32 \<Rightarrow> spv_fault + u32" where
  "spv_array_length m array_type =
     try_then (spv_find_def m array_type) (\<lambda>r. case r of
        None \<Rightarrow> Inr 0
      | Some d \<Rightarrow>
          if in_op (sm_ins m ! d) \<noteq> SpvOpTypeArray then Inr 0
          else try_then (operand (sm_ins m ! d) 2) (\<lambda>len.
               try_then (spv_find_def m len) (\<lambda>q. case q of
                 None \<Rightarrow> Inr 0
               | Some c \<Rightarrow> if in_op (sm_ins m ! c) \<noteq> SpvOpConstant then Inr 0 else operand (sm_ins m ! c) 2)))"

text \<open>
  The number of locations of a type: the first argument counts down from 17 where the source counts its depth up,
  so zero is a depth above 16.
\<close>

fun loc_count :: "spv_mod \<Rightarrow> nat \<Rightarrow> u32 \<Rightarrow> spv_fault + u32"
  and loc_sum :: "spv_mod \<Rightarrow> nat \<Rightarrow> u32 list \<Rightarrow> spv_fault + u32" where
  "loc_count m 0 type = try_then (spv_find_def m type) (\<lambda>r. Inr 1)"
| "loc_count m (Suc n) type =
     try_then (spv_find_def m type) (\<lambda>r. case r of
        None \<Rightarrow> Inr 1
      | Some d \<Rightarrow>
          let i = sm_ins m ! d
          in if in_op i = SpvOpTypeArray
             then try_then (spv_array_length m type) (\<lambda>a. try_then (operand i 1) (\<lambda>t. try_then (loc_count m n t) (\<lambda>c. Inr (a * c))))
             else if in_op i = SpvOpTypeMatrix
             then try_then (operand i 2) (\<lambda>a. try_then (operand i 1) (\<lambda>t. try_then (loc_count m n t) (\<lambda>c. Inr (a * c))))
             else if in_op i = SpvOpTypeStruct
             then (case in_w i of
                     None \<Rightarrow> Inl SpvNull
                   | Some w \<Rightarrow> if in_n i = 0 then Inl SpvBadRead else loc_sum m n (tl (take (unat (in_n i) - 1) w)))
             else if in_op i = SpvOpTypeVector
             then try_then (operand i 1) (\<lambda>t. try_then (spv_find_def m t) (\<lambda>q.
                  try_then (case q of None \<Rightarrow> Inr 32 | Some e \<Rightarrow> operand (sm_ins m ! e) 1) (\<lambda>width.
                    if width = 64 then try_then (operand i 2) (\<lambda>c. Inr (if c > 2 then 2 else 1)) else Inr 1)))
             else Inr 1)"
| "loc_sum m n [] = Inr 0"
| "loc_sum m n (t # ts) = try_then (loc_count m n t) (\<lambda>c. try_then (loc_sum m n ts) (\<lambda>s. Inr (c + s)))"

text \<open>The comparison of locations is signed.\<close>

definition max_location :: "u32 \<Rightarrow> u32 \<Rightarrow> u32" where
  "max_location best highest = (if sint highest > sint best then highest else best)"

fun member_locations :: "spv_mod \<Rightarrow> u32 \<Rightarrow> spv_inst list \<Rightarrow> u32 \<Rightarrow> spv_fault + u32" where
  "member_locations m pointee [] best = Inr best"
| "member_locations m pointee (i # is) best =
     try_then (if in_op i = SpvOpMemberDecorate then operands_are i [(0, pointee), (2, SpvDecorationLocation)] else Inr False) (\<lambda>b.
       if \<not> b then member_locations m pointee is best
       else try_then (spv_find_def m pointee) (\<lambda>st.
            try_then (operand i 1) (\<lambda>k.
            try_then (case st of
                        None \<Rightarrow> Inr 0
                      | Some s \<Rightarrow> if k + 1 < ucast (in_n (sm_ins m ! s)) then operand (sm_ins m ! s) (1 + unat k) else Inr 0) (\<lambda>mt.
            try_then (operand i 3) (\<lambda>loc.
            try_then (loc_count m 17 mt) (\<lambda>c. member_locations m pointee is (max_location best (loc + c - 1))))))))"

definition variable_location :: "spv_mod \<Rightarrow> u32 \<Rightarrow> bool \<Rightarrow> spv_inst \<Rightarrow> u32 \<Rightarrow> spv_fault + u32" where
  "variable_location m storage arrayed i best =
     try_then (if in_op i = SpvOpVariable then operands_are i [(2, storage)] else Inr False) (\<lambda>b.
       if \<not> b then Inr best
       else try_then (operand i 0) (\<lambda>ptr. try_then (spv_find_def m ptr) (\<lambda>q. case q of
         None \<Rightarrow> Inr best
       | Some p \<Rightarrow>
           try_then (operand (sm_ins m ! p) 2) (\<lambda>pointee.
           try_then (if arrayed then spv_find_def m pointee else Inr None) (\<lambda>a.
           try_then (case a of
                       None \<Rightarrow> Inr pointee
                     | Some d \<Rightarrow> if in_op (sm_ins m ! d) = SpvOpTypeArray then operand (sm_ins m ! d) 1 else Inr pointee) (\<lambda>elem.
           try_then (operand i 1) (\<lambda>var.
           try_then (spv_get_decoration m var SpvDecorationLocation) (\<lambda>l. case l of
             Some loc \<Rightarrow> try_then (loc_count m 17 elem) (\<lambda>c. Inr (max_location best (loc + c - 1)))
           | None \<Rightarrow> member_locations m elem (sm_ins m) best))))))))"

text \<open>The result minus one is that no variable of the storage class has a location.\<close>

fun variables_locations :: "spv_mod \<Rightarrow> u32 \<Rightarrow> bool \<Rightarrow> spv_inst list \<Rightarrow> u32 \<Rightarrow> spv_fault + u32" where
  "variables_locations m storage arrayed [] best = Inr best"
| "variables_locations m storage arrayed (i # is) best =
     try_then (variable_location m storage arrayed i best) (variables_locations m storage arrayed is)"

definition spv_max_location_io :: "spv_mod \<Rightarrow> u32 \<Rightarrow> bool \<Rightarrow> spv_fault + u32" where
  "spv_max_location_io m storage arrayed = variables_locations m storage arrayed (sm_ins m) (- 1)"

definition spv_max_location :: "spv_mod \<Rightarrow> u32 \<Rightarrow> spv_fault + u32" where
  "spv_max_location m storage = spv_max_location_io m storage False"

section \<open>Parsing and writing are inverse\<close>

definition inst_ok :: "spv_inst \<Rightarrow> bool" where
  "inst_ok i \<longleftrightarrow> (case in_w i of None \<Rightarrow> False | Some w \<Rightarrow> unat (in_n i) = Suc (length w))"

text \<open>The table has room, and its size is reached by doubling.\<close>

definition cap_ok :: "spv_mod \<Rightarrow> bool" where
  "cap_ok m \<longleftrightarrow> sm_cap m = 0 \<and> sm_ins m = [] \<or>
     (\<exists>k \<le> 21. unat (sm_cap m) = 1024 * 2 ^ k \<and> length (sm_ins m) \<le> unat (sm_cap m))"

lemma inst_okE:
  assumes "inst_ok i"
  obtains w where "in_w i = Some w" "unat (in_n i) = Suc (length w)"
  using assms by (auto simp: inst_ok_def split: option.splits)

lemma unat16: "unat (x :: u16) < 65536"
  using unsigned_less[of x, where ?'a = nat] by simp

lemma unat_of_nat16: "n < 65536 \<Longrightarrow> unat (of_nat n :: u16) = n"
  by (simp add: unsigned_of_nat take_bit_nat_eq_self)

lemma inst_words_ok: "inst_ok i \<Longrightarrow> inst_words i = Inr ((push_bit 16 (ucast (in_n i)) OR ucast (in_op i)) # the (in_w i))"
  by (erule inst_okE) (auto simp: inst_words_def)

lemma insts_words_append:
  "insts_words (is @ js) = try_then (insts_words is) (\<lambda>ws. try_then (insts_words js) (\<lambda>vs. Inr (ws @ vs)))"
  by (induction "is") (simp_all add: try_then_assoc, cases "insts_words js", simp_all)

text \<open>The first word of an instruction holds its count and its opcode.\<close>

lemma and_ffff: "(w :: u32) AND 0xffff = take_bit 16 w"
  using take_bit_eq_mask[of 16 w] by (simp add: mask_eq_exp_minus_1)

lemma bit16_bound: "bit (x :: u16) n \<Longrightarrow> n < 16"
  using bit_imp_le_length[of x n] by simp

lemma first_word_count: "drop_bit 16 (push_bit 16 (ucast (n :: u16)) OR ucast (op :: u16) :: u32) = ucast n"
  by (rule bit_word_eqI) (auto simp: bit_simps dest: bit16_bound)

lemma first_word_op: "ucast ((push_bit 16 (ucast (n :: u16)) OR ucast (op :: u16) :: u32) AND 0xffff) = op"
  unfolding and_ffff by (rule bit_word_eqI) (auto simp: bit_simps)

lemma first_word_join: "push_bit 16 (ucast (ucast (drop_bit 16 w) :: u16)) OR ucast (ucast (w AND 0xffff) :: u16) = (w :: u32)"
  unfolding and_ffff by (rule bit_word_eqI) (auto simp: bit_simps)

lemma first_word_small: "unat (drop_bit 16 (w :: u32)) < 65536"
proof -
  have "unat w < 2 ^ 32" using unsigned_less[of w, where ?'a = nat] by simp
  then show ?thesis by (simp only: unsigned_drop_bit_eq) (simp add: drop_bit_eq_div div_less_iff_less_mult take_bit_nat_eq_self)
qed

text \<open>Appending an instruction, when memory is there.\<close>

lemma reserve_frame:
  assumes "spv_reserve ok m = (b, m1)"
  shows "sm_ins m1 = sm_ins m" "sm_header m1 = sm_header m" "b \<Longrightarrow> sm_err m1 = sm_err m" "\<not> b \<Longrightarrow> sm_err m1"
  using assms by (auto simp: spv_reserve_def split: if_splits)

lemma reserve_cap:
  assumes "cap_ok m" "length (sm_ins m) < 2 ^ 31" "\<And>i. ok i"
  shows "\<exists>m1. spv_reserve ok m = (True, m1) \<and> length (sm_ins m1) < unat (sm_cap m1) \<and>
    (\<exists>k \<le> 21. unat (sm_cap m1) = 1024 * 2 ^ k)"
proof (cases "of_nat (length (sm_ins m)) = sm_cap m")
  case False
  then have ne: "length (sm_ins m) \<noteq> unat (sm_cap m)" by (metis of_nat_unat32)
  have "\<not> (sm_cap m = 0 \<and> sm_ins m = [])" using False by auto
  then obtain k where "k \<le> 21" "unat (sm_cap m) = 1024 * 2 ^ k" "length (sm_ins m) \<le> unat (sm_cap m)"
    using assms(1) unfolding cap_ok_def by blast
  then show ?thesis using ne False unfolding spv_reserve_def by (intro exI[of _ m]) auto
next
  case True
  have eq: "unat (sm_cap m) = length (sm_ins m)" using True assms(2) unat_of_nat32[of "length (sm_ins m)"] by fastforce
  show ?thesis
  proof (cases "sm_cap m = 0")
    case zero: True
    then have "sm_ins m = []" using eq by simp
    then show ?thesis using True assms(3) zero unfolding spv_reserve_def by (auto intro!: exI[of _ 0])
  next
    case False
    then obtain k where k: "k \<le> 21" "unat (sm_cap m) = 1024 * 2 ^ k" using assms(1) unfolding cap_ok_def by blast
    have "k \<noteq> 21" using k(2) eq assms(2) by auto
    then have k': "Suc k \<le> 21" using k(1) by simp
    have "unat (sm_cap m) * unat (2 :: u32) < 2 ^ 32" using eq assms(2) by simp
    then have "unat (sm_cap m * 2) = unat (sm_cap m) * 2" using unat_mult_lem[of "sm_cap m" 2] by simp
    then have "unat (sm_cap m * 2) = 1024 * 2 ^ Suc k" "length (sm_ins m) < unat (sm_cap m * 2)" using k(2) eq False by (simp_all add: unat_gt_0)
    moreover from this(1) k' have "\<exists>j \<le> 21. unat (sm_cap m * 2) = 1024 * 2 ^ j" by blast
    ultimately show ?thesis using True False assms(3) unfolding spv_reserve_def by simp
  qed
qed

lemma spv_insert_ok:
  assumes "cap_ok m" "length (sm_ins m) < 2 ^ 31" "\<And>i. ok i" "k \<le> length (sm_ins m)"
  shows "\<exists>m1. spv_insert ok m (of_nat k) op ops = Inr (of_nat k, m1) \<and> sm_header m1 = sm_header m \<and> sm_err m1 = sm_err m \<and>
    sm_ins m1 = insert_at k \<lparr>in_op = op, in_n = of_nat (length ops) + 1, in_w = Some ops\<rparr> (sm_ins m) \<and> cap_ok m1"
proof -
  obtain m1 j where m1: "spv_reserve ok m = (True, m1)" "length (sm_ins m1) < unat (sm_cap m1)" "j \<le> 21" "unat (sm_cap m1) = 1024 * 2 ^ j"
    using reserve_cap[of m ok] assms by blast
  note f = reserve_frame[OF m1(1)]
  have k: "unat (of_nat k :: u32) = k" using assms(2,4) by (intro unat_of_nat32) simp
  have "length (insert_at k x (sm_ins m)) = Suc (length (sm_ins m))" for x using assms(4) by (simp add: insert_at_def)
  then have "length (insert_at k x (sm_ins m)) \<le> unat (sm_cap m1)" for x using m1(2) f(1) by simp
  then show ?thesis using m1 f k assms(3,4) unfolding spv_insert_def cap_ok_def by (auto simp: Let_def)
qed

lemma spv_insert_append:
  assumes "spv_insert ok m (of_nat (length (sm_ins m))) op ops = Inr r" "\<not> sm_err (snd r)" "length (sm_ins m) < 2 ^ 32"
  shows "sm_ins (snd r) = sm_ins m @ [\<lparr>in_op = op, in_n = of_nat (length ops) + 1, in_w = Some ops\<rparr>]" "sm_header (snd r) = sm_header m"
proof -
  obtain b m1 where m1: "spv_reserve ok m = (b, m1)" by (cases "spv_reserve ok m")
  note f = reserve_frame[OF m1]
  have b using assms(1,2) m1 f(4) by (cases b) (auto simp: spv_insert_def)
  moreover have "unat (of_nat (length (sm_ins m)) :: u32) = length (sm_ins m)" using assms(3) by (rule unat_of_nat32)
  ultimately show "sm_ins (snd r) = sm_ins m @ [\<lparr>in_op = op, in_n = of_nat (length ops) + 1, in_w = Some ops\<rparr>]" "sm_header (snd r) = sm_header m"
    using assms(1,2) m1 f by (auto simp: spv_insert_def insert_at_def Let_def split: if_splits)
qed

lemma parsed_inst:
  fixes w :: u32
  assumes "n = unat (drop_bit 16 w)" "n \<noteq> 0" "n \<le> Suc (length ws)"
  defines "i \<equiv> \<lparr>in_op = ucast (w AND 0xffff), in_n = of_nat (length (take (n - 1) ws)) + 1, in_w = Some (take (n - 1) ws)\<rparr>"
  shows "inst_ok i" "inst_words i = Inr (w # take (n - 1) ws)"
proof -
  have len: "length (take (n - 1) ws) = n - 1" using assms(3) by simp
  have "of_nat (n - 1) + 1 = (of_nat n :: u16)" using assms(2) by (metis One_nat_def Suc_pred neq0_conv of_nat_Suc add.commute)
  then have n: "in_n i = of_nat n" by (simp only: i_def len spv_inst.simps)
  have "unat (of_nat n :: u16) = n" using first_word_small[of w] assms(1) by (intro unat_of_nat16) simp
  then show ok: "inst_ok i" using n len assms(2) by (simp add: inst_ok_def i_def)
  have "(of_nat n :: u16) = ucast (drop_bit 16 w)" using assms(1) by (simp add: of_nat_unat)
  then show "inst_words i = Inr (w # take (n - 1) ws)"
    unfolding inst_words_ok[OF ok] n by (simp only: first_word_join i_def spv_inst.simps option.sel)
qed

lemma parse_from_sound:
  "parse_from ok ws m = Inr (True, m') \<Longrightarrow> \<not> sm_err m \<Longrightarrow> length (sm_ins m) + length ws < 2 ^ 32 \<Longrightarrow>
   \<exists>is. sm_ins m' = sm_ins m @ is \<and> sm_header m' = sm_header m \<and> \<not> sm_err m' \<and> list_all inst_ok is \<and> insts_words is = Inr ws"
proof (induction ok ws m rule: parse_from.induct)
  case (1 ok m)
  then show ?case by (intro exI[of _ "[]"]) simp
next
  case (2 ok w ws m)
  define n where "n = unat (drop_bit 16 w)"
  have n: "n \<noteq> 0" "n \<le> Suc (length ws)" using "2.prems"(1) by (auto simp: Let_def n_def split: if_splits)
  define i where "i = \<lparr>in_op = ucast (w AND 0xffff), in_n = of_nat (length (take (n - 1) ws)) + 1, in_w = Some (take (n - 1) ws)\<rparr>"
  have i: "inst_ok i" "inst_words i = Inr (w # take (n - 1) ws)" using parsed_inst[OF n_def n] by (simp_all only: i_def)
  obtain r where r: "spv_insert ok m (of_nat (length (sm_ins m))) (ucast (w AND 0xffff)) (take (n - 1) ws) = Inr r"
    "\<not> sm_err (snd r)" "parse_from ok (drop (n - 1) ws) (snd r) = Inr (True, m')"
    using "2.prems"(1) n by (auto simp: Let_def n_def split: sum.splits if_splits)
  have app: "sm_ins (snd r) = sm_ins m @ [i]" "sm_header (snd r) = sm_header m"
    using spv_insert_append[OF r(1,2)] "2.prems"(3) by (simp_all add: i_def)
  have "length (sm_ins (snd r)) + length (drop (n - 1) ws) < 2 ^ 32" using app "2.prems"(3) by simp
  then obtain "is" where js: "sm_ins m' = sm_ins (snd r) @ is" "sm_header m' = sm_header (snd r)" "\<not> sm_err m'" "list_all inst_ok is"
    "insts_words is = Inr (drop (n - 1) ws)"
    using "2.IH"[OF n_def _ r(1,2,3)] n r(2) by auto
  then show ?case using app i by (intro exI[of _ "i # is"]) simp
qed

lemma parse_from_complete:
  assumes ok: "\<And>i. ok i"
  shows "list_all inst_ok is \<Longrightarrow> insts_words is = Inr ws \<Longrightarrow> cap_ok m \<Longrightarrow> \<not> sm_err m \<Longrightarrow> length (sm_ins m) + length ws < 2 ^ 31 \<Longrightarrow>
    \<exists>m'. parse_from ok ws m = Inr (True, m') \<and> sm_ins m' = sm_ins m @ is \<and> sm_header m' = sm_header m \<and> \<not> sm_err m' \<and> cap_ok m'"
proof (induction "is" arbitrary: ws m)
  case (Cons i "is")
  obtain w where w: "in_w i = Some w" "unat (in_n i) = Suc (length w)" using Cons.prems(1) by (auto elim: inst_okE)
  define v :: u32 where "v = push_bit 16 (ucast (in_n i)) OR ucast (in_op i)"
  obtain vs where vs: "insts_words is = Inr vs" "ws = v # w @ vs"
    using Cons.prems(1,2) w by (auto simp: inst_words_ok try_then_Inr v_def)
  have v: "unat (drop_bit 16 v) = Suc (length w)" "ucast (v AND 0xffff) = in_op i"
    using w(2) unat16[of "in_n i"] unfolding v_def first_word_count first_word_op by (simp_all add: unsigned_ucast_eq take_bit_nat_eq_self)
  have i: "\<lparr>in_op = in_op i, in_n = of_nat (length w) + 1, in_w = Some w\<rparr> = i"
  proof -
    have "of_nat (length w) + 1 = (of_nat (unat (in_n i)) :: u16)" by (simp only: w(2) of_nat_Suc add.commute)
    then show ?thesis using w(1) by simp
  qed
  obtain m1 where m1: "spv_insert ok m (of_nat (length (sm_ins m))) (in_op i) w = Inr (of_nat (length (sm_ins m)), m1)"
    "sm_header m1 = sm_header m" "sm_err m1 = sm_err m" "sm_ins m1 = sm_ins m @ [i]" "cap_ok m1"
    using spv_insert_ok[where m = m and ok = ok and k = "length (sm_ins m)" and op = "in_op i" and ops = w] ok Cons.prems(3,5) vs(2)
    by (auto simp: insert_at_def i)
  obtain m' where "parse_from ok vs m1 = Inr (True, m')" "sm_ins m' = sm_ins m1 @ is" "sm_header m' = sm_header m1" "\<not> sm_err m'" "cap_ok m'"
    using Cons.IH[OF _ vs(1) m1(5)] Cons.prems(1,4,5) m1 vs(2) by auto
  then show ?case using m1 w vs(2) Cons.prems(4)
    by (intro exI[of _ m']) (simp add: v Let_def)
qed simp

text \<open>The modules that a parsed text can have.\<close>

definition module_text :: "u32 list \<Rightarrow> spv_inst list \<Rightarrow> bool" where
  "module_text h is \<longleftrightarrow> length h = 5 \<and> h ! 0 = SpvMagic \<and> list_all inst_ok is"

lemma cap_ok_zero: "cap_ok (spv_zero\<lparr>sm_header := h\<rparr>)"
  by (simp add: cap_ok_def spv_zero_def)

lemma spv_parse_whole:
  assumes "5 \<le> length code" "code ! 0 = SpvMagic"
  shows "spv_parse ok code (4 * length code) = parse_from ok (drop 5 code) (spv_zero\<lparr>sm_header := take 5 code\<rparr>)"
  using assms by (simp add: spv_parse_def)

lemma insts_words_total: "list_all inst_ok is \<Longrightarrow> \<exists>ws. insts_words is = Inr ws"
  by (induction "is") (auto simp: inst_words_ok)

lemma spv_parse_written:
  assumes "module_text h is" "insts_words is = Inr ws" "length (h @ ws) < 2 ^ 31" "\<forall>i. ok i"
  shows "\<exists>m. spv_parse ok (h @ ws) (4 * length (h @ ws)) = Inr (True, m) \<and> sm_header m = h \<and> sm_ins m = is \<and> \<not> sm_err m"
proof -
  have h: "length h = 5" "h ! 0 = SpvMagic" "list_all inst_ok is" using assms(1) by (simp_all add: module_text_def)
  have "length (sm_ins (spv_zero\<lparr>sm_header := h\<rparr>)) + length ws < 2 ^ 31" "\<not> sm_err (spv_zero\<lparr>sm_header := h\<rparr>)"
    using assms(3) by (simp_all add: spv_zero_def)
  from parse_from_complete[OF _ h(3) assms(2) cap_ok_zero this(2,1), of ok]
  obtain m where m: "parse_from ok ws (spv_zero\<lparr>sm_header := h\<rparr>) = Inr (True, m)" "sm_ins m = is" "sm_header m = h" "\<not> sm_err m"
    using assms(4) by (auto simp: spv_zero_def)
  have "spv_parse ok (h @ ws) (4 * length (h @ ws)) = Inr (True, m)"
    using m(1) h(1,2) by (subst spv_parse_whole) (simp_all add: nth_append)
  then show ?thesis using m by blast
qed

text \<open>
  C16: Parsing and writing are inverse: with enough memory, a text of fewer than 2 to the 31 words is parsed
  into a header and instructions exactly if these are well formed and writing them gives the text.
\<close>
theorem spv_parse_iff_write:
  assumes "\<forall>i. ok i" "length code < 2 ^ 31"
  shows "(\<exists>m. spv_parse ok code (4 * length code) = Inr (True, m) \<and> sm_header m = h \<and> sm_ins m = is \<and> \<not> sm_err m) \<longleftrightarrow>
    module_text h is \<and> (\<forall>m. sm_header m = h \<longrightarrow> sm_ins m = is \<longrightarrow> spv_write ok m = Inr (Some code))"
proof
  assume "\<exists>m. spv_parse ok code (4 * length code) = Inr (True, m) \<and> sm_header m = h \<and> sm_ins m = is \<and> \<not> sm_err m"
  then obtain m where m: "spv_parse ok code (4 * length code) = Inr (True, m)" "sm_header m = h" "sm_ins m = is" by blast
  have len: "5 \<le> length code" "code ! 0 = SpvMagic" using m(1) by (auto simp: spv_parse_def split: if_splits)
  have run: "parse_from ok (drop 5 code) (spv_zero\<lparr>sm_header := take 5 code\<rparr>) = Inr (True, m)" using m(1) spv_parse_whole[OF len] by simp
  have "length (drop 5 code) < 2 ^ 32" using assms(2) by simp
  then obtain js where "sm_ins m = js" "sm_header m = take 5 code" "list_all inst_ok js" "insts_words js = Inr (drop 5 code)"
    using parse_from_sound[OF run] by (auto simp: spv_zero_def)
  then show "module_text h is \<and> (\<forall>m. sm_header m = h \<longrightarrow> sm_ins m = is \<longrightarrow> spv_write ok m = Inr (Some code))"
    using m len assms(1) by (auto simp: module_text_def spv_write_def)
next
  assume w: "module_text h is \<and> (\<forall>m. sm_header m = h \<longrightarrow> sm_ins m = is \<longrightarrow> spv_write ok m = Inr (Some code))"
  then have "spv_write ok (spv_zero\<lparr>sm_header := h, sm_ins := is\<rparr>) = Inr (Some code)" by simp
  then obtain ws where ws: "insts_words is = Inr ws" "code = h @ ws" using assms(1) by (auto simp: spv_write_def try_then_Inr)
  show "\<exists>m. spv_parse ok code (4 * length code) = Inr (True, m) \<and> sm_header m = h \<and> sm_ins m = is \<and> \<not> sm_err m"
    using spv_parse_written[OF _ ws(1) _ assms(1), of h] w assms(2) ws(2) by simp
qed

text \<open>A module with a capability and a type for integers.\<close>

definition demo_spirv :: "u32 list" where
  "demo_spirv = [SpvMagic, 0x10300, 0, 2, 0, 0x20011, 1, 0x40015, 1, 32, 0]"

definition demo_header :: "u32 list" where
  "demo_header = [SpvMagic, 0x10300, 0, 2, 0]"

definition demo_insts :: "spv_inst list" where
  "demo_insts = [\<lparr>in_op = SpvOpCapability, in_n = 2, in_w = Some [1]\<rparr>, \<lparr>in_op = SpvOpTypeInt, in_n = 4, in_w = Some [1, 32, 0]\<rparr>]"

theorem spv_parse_iff_write_witness:
  "\<exists>m. spv_parse (\<lambda>i. True) demo_spirv 44 = Inr (True, m) \<and> sm_header m = demo_header \<and> sm_ins m = demo_insts \<and> \<not> sm_err m"
proof -
  have "module_text demo_header demo_insts" by (simp add: module_text_def demo_header_def demo_insts_def inst_ok_def)
  moreover have "spv_write (\<lambda>i. True) m = Inr (Some demo_spirv)" if "sm_header m = demo_header" "sm_ins m = demo_insts" for m
    using that by (simp add: spv_write_def demo_insts_def demo_header_def demo_spirv_def inst_words_def spv_op_defs push_bit_eq_mult)
  ultimately show ?thesis using spv_parse_iff_write[of "\<lambda>i. True" demo_spirv demo_header demo_insts] by (simp add: demo_spirv_def)
qed

section \<open>Types and constants are found or added\<close>

subsection \<open>Well-formed modules\<close>

text \<open>The operands that the grammar of SPIR-V gives the instructions that the editor looks into.\<close>

definition min_operands :: "u16 \<Rightarrow> nat" where
  "min_operands op =
     (if op \<in> {SpvOpTypeInt, SpvOpTypeVector, SpvOpTypeMatrix, SpvOpTypeArray, SpvOpTypePointer, SpvOpConstant, SpvOpVariable, SpvOpMemberDecorate} then 3
      else if op \<in> {SpvOpTypeFloat, SpvOpDecorate} then 2
      else if op \<in> {SpvOpTypeBool, SpvOpCapability, SpvOpEntryPoint} then 1 else 0)"

definition shape_ok :: "spv_inst \<Rightarrow> bool" where
  "shape_ok i \<longleftrightarrow> inst_ok i \<and> min_operands (in_op i) \<le> length (the (in_w i))"

definition result_id :: "spv_inst \<Rightarrow> u32" where
  "result_id i = (case spv_result_id i of Inr r \<Rightarrow> r | Inl e \<Rightarrow> 0)"

definition globals :: "spv_mod \<Rightarrow> spv_inst list" where
  "globals m = takeWhile (\<lambda>i. in_op i \<noteq> SpvOpFunction) (sm_ins m)"

definition body :: "spv_mod \<Rightarrow> spv_inst list" where
  "body m = dropWhile (\<lambda>i. in_op i \<noteq> SpvOpFunction) (sm_ins m)"

text \<open>
  A well-formed module: the shape of the instructions, ids defined once and below the bound, decorations of ids
  below the bound, and no types and constants inside of functions.
\<close>

definition spv_ok :: "spv_mod \<Rightarrow> bool" where
  "spv_ok m \<longleftrightarrow> length (sm_header m) = 5 \<and> 0 < sm_header m ! 3 \<and> \<not> sm_err m \<and> cap_ok m \<and>
     list_all shape_ok (sm_ins m) \<and> distinct (filter (\<lambda>r. r \<noteq> 0) (map result_id (sm_ins m))) \<and>
     (\<forall>i \<in> set (sm_ins m). result_id i < sm_header m ! 3 \<and>
        (in_op i = SpvOpDecorate \<longrightarrow> the (in_w i) ! 0 < sm_header m ! 3)) \<and>
     (\<forall>i \<in> set (body m). \<not> is_type (in_op i) \<and> \<not> is_const (in_op i))"

lemma globals_body: "sm_ins m = globals m @ body m"
  by (simp add: globals_def body_def)

lemma operand_ok: "inst_ok i \<Longrightarrow> k < length (the (in_w i)) \<Longrightarrow> operand i k = Inr (the (in_w i) ! k)"
  by (erule inst_okE) (simp add: operand_def)

lemma operands_are_ok:
  "inst_ok i \<Longrightarrow> \<forall>(k, v) \<in> set kvs. k < length (the (in_w i)) \<Longrightarrow>
   operands_are i kvs = Inr (\<forall>(k, v) \<in> set kvs. the (in_w i) ! k = v)"
  by (induction kvs) (auto simp: operand_ok)

lemma search_ok:
  "\<forall>x \<in> set xs. p x = Inr (P x) \<Longrightarrow>
   search p xs k = Inr (if \<exists>x \<in> set xs. P x then Some (k + length (takeWhile (\<lambda>x. \<not> P x) xs)) else None)"
  by (induction xs arbitrary: k) auto

lemma find_takeWhile: "\<exists>x \<in> set xs. P x \<Longrightarrow> find P xs = Some (xs ! length (takeWhile (\<lambda>x. \<not> P x) xs))"
  by (induction xs) auto

lemma result_id_ok: "inst_ok i \<Longrightarrow> spv_result_id i = Inr (result_id i)"
proof (erule inst_okE)
  fix w assume w: "in_w i = Some w" "unat (in_n i) = Suc (length w)"
  have "in_n i < 2 \<or> 0 < length w" "in_n i < 3 \<or> 1 < length w" using w(2) by (auto simp: word_less_nat_alt)
  then have "\<exists>r. spv_result_id i = Inr r" using w(1) by (auto simp: spv_result_id_def operand_def)
  then show "spv_result_id i = Inr (result_id i)" by (auto simp: result_id_def)
qed

lemma types_end: "spv_types_end m = length (globals m)"
proof (cases "\<exists>i \<in> set (sm_ins m). in_op i = SpvOpFunction")
  case True
  then show ?thesis by (simp add: spv_types_end_def spv_find_op_def search_ok[where P = "\<lambda>i. in_op i = SpvOpFunction"] globals_def)
next
  case False
  then show ?thesis by (simp add: spv_types_end_def spv_find_op_def search_ok[where P = "\<lambda>i. in_op i = SpvOpFunction"] globals_def takeWhile_eq_all_conv[THEN iffD2])
qed

subsection \<open>Finding or adding\<close>

definition inst_of :: "u16 \<Rightarrow> u32 list \<Rightarrow> spv_inst" where
  "inst_of op ops = \<lparr>in_op = op, in_n = of_nat (length ops) + 1, in_w = Some ops\<rparr>"

text \<open>\<open>m'\<close> is \<open>m\<close> with at most \<open>n\<close> instructions added at the end of the globals, each with a new id.\<close>

definition grows :: "nat \<Rightarrow> spv_mod \<Rightarrow> spv_mod \<Rightarrow> bool" where
  "grows n m m' \<longleftrightarrow> (\<exists>added. length added \<le> n \<and> globals m' = globals m @ added \<and> body m' = body m \<and>
     (\<forall>i \<in> set added. in_op i \<noteq> SpvOpDecorate) \<and> unat (sm_header m' ! 3) = unat (sm_header m ! 3) + length added)"

lemma grows_refl: "grows n m m"
  unfolding grows_def by (intro exI[of _ "[]"]) simp

lemma grows_trans: "grows a m m1 \<Longrightarrow> grows b m1 m2 \<Longrightarrow> grows (a + b) m m2"
  unfolding grows_def
proof (elim exE conjE)
  fix xs ys
  assume "length xs \<le> a" "globals m1 = globals m @ xs" "body m1 = body m" "\<forall>i \<in> set xs. in_op i \<noteq> SpvOpDecorate"
    "unat (sm_header m1 ! 3) = unat (sm_header m ! 3) + length xs" "length ys \<le> b" "globals m2 = globals m1 @ ys" "body m2 = body m1"
    "\<forall>i \<in> set ys. in_op i \<noteq> SpvOpDecorate" "unat (sm_header m2 ! 3) = unat (sm_header m1 ! 3) + length ys"
  then show "\<exists>added. length added \<le> a + b \<and> globals m2 = globals m @ added \<and> body m2 = body m \<and>
      (\<forall>i \<in> set added. in_op i \<noteq> SpvOpDecorate) \<and> unat (sm_header m2 ! 3) = unat (sm_header m ! 3) + length added"
    by (intro exI[of _ "xs @ ys"]) auto
qed

lemma grows_mono: "grows a m m' \<Longrightarrow> a \<le> b \<Longrightarrow> grows b m m'"
  unfolding grows_def by (meson order_trans)

lemma grows_length: "grows n m m' \<Longrightarrow> length (sm_ins m') \<le> length (sm_ins m) + n \<and> unat (sm_header m' ! 3) \<le> unat (sm_header m ! 3) + n"
  unfolding grows_def globals_body[of m] globals_body[of m'] by auto

lemma find_or_add_eq:
  assumes "\<forall>i \<in> set (sm_ins m). p i = Inr (P i)"
  shows "find_or_add ok p k op ops m =
    (case find P (sm_ins m) of
       Some i \<Rightarrow> try_then (operand i k) (\<lambda>t. Inr (t, m))
     | None \<Rightarrow> try_then (add_global ok (snd (spv_new_id m)) op (ops (sm_header m ! 3))) (\<lambda>m2. Inr (sm_header m ! 3, m2)))"
proof (cases "\<exists>i \<in> set (sm_ins m). P i")
  case True
  then show ?thesis by (simp add: find_or_add_def search_ok[OF assms] find_takeWhile[OF True])
next
  case False
  then have "find P (sm_ins m) = None" by (simp add: find_None_iff)
  then show ?thesis using False by (simp add: find_or_add_def search_ok[OF assms] spv_new_id_def)
qed

lemma globals_insert:
  assumes "in_op i \<noteq> SpvOpFunction" "sm_ins m' = insert_at (length (globals m)) i (sm_ins m)"
  shows "globals m' = globals m @ [i]" "body m' = body m"
proof -
  have ins: "sm_ins m' = globals m @ i # body m" unfolding assms(2) globals_body[of m] insert_at_def by simp
  have g: "\<forall>x \<in> set (globals m). in_op x \<noteq> SpvOpFunction" unfolding globals_def using set_takeWhileD by fastforce
  have b: "takeWhile (\<lambda>i. in_op i \<noteq> SpvOpFunction) (body m) = []" "dropWhile (\<lambda>i. in_op i \<noteq> SpvOpFunction) (body m) = body m"
    unfolding body_def using hd_dropWhile[of "\<lambda>i. in_op i \<noteq> SpvOpFunction" "sm_ins m"] by (auto simp: takeWhile_eq_Nil_iff dropWhile_eq_self_iff)
  show "globals m' = globals m @ [i]" unfolding globals_def[of m'] ins using g assms(1) b(1) by (simp add: takeWhile_append2)
  show "body m' = body m" unfolding body_def[of m'] ins using g assms(1) b(2) by (simp add: dropWhile_append2)
qed

lemma spv_ok_inst: "spv_ok m \<Longrightarrow> i \<in> set (sm_ins m) \<Longrightarrow> shape_ok i \<and> result_id i < sm_header m ! 3"
  by (auto simp: spv_ok_def list_all_iff)

text \<open>The ids of a module with an instruction for the next id.\<close>

lemma distinct_ids_insert:
  assumes "distinct (filter (\<lambda>r. r \<noteq> 0) (map result_id (xs @ ys)))" "\<forall>i \<in> set (xs @ ys). result_id i < (b :: u32)" "result_id n = b"
  shows "distinct (filter (\<lambda>r. r \<noteq> 0) (map result_id (xs @ n # ys)))"
  using assms by (auto simp: filter_map)

lemma add_global_ok:
  assumes m: "spv_ok m" "length (sm_ins m) < 2 ^ 31" "unat (sm_header m ! 3) < 2 ^ 32 - 1" and ok: "\<And>i. ok i"
    and n: "shape_ok (inst_of op ops)" "result_id (inst_of op ops) = sm_header m ! 3" "op \<noteq> SpvOpFunction" "op \<noteq> SpvOpDecorate"
  shows "\<exists>m'. add_global ok (snd (spv_new_id m)) op ops = Inr m' \<and> spv_ok m' \<and> globals m' = globals m @ [inst_of op ops] \<and>
    body m' = body m \<and> unat (sm_header m' ! 3) = unat (sm_header m ! 3) + 1"
proof -
  let ?m = "snd (spv_new_id m)" and ?b = "sm_header m ! 3"
  have frame: "sm_ins ?m = sm_ins m" "sm_header ?m = (sm_header m)[3 := ?b + 1]" "sm_err ?m = sm_err m" "cap_ok ?m = cap_ok m" "globals ?m = globals m"
    by (simp_all add: spv_new_id_def cap_ok_def globals_def)
  have "length (globals m) \<le> length (sm_ins m)" by (simp add: globals_body[of m])
  then obtain m' where m': "spv_insert ok ?m (of_nat (length (globals m))) op ops = Inr (of_nat (length (globals m)), m')"
    "sm_header m' = sm_header ?m" "sm_err m' = sm_err ?m" "sm_ins m' = insert_at (length (globals m)) (inst_of op ops) (sm_ins m)" "cap_ok m'"
    using spv_insert_ok[where m = "?m" and ok = ok and k = "length (globals m)" and op = op and ops = ops] m ok
    unfolding frame inst_of_def spv_ok_def by blast
  have gb: "globals m' = globals m @ [inst_of op ops]" "body m' = body m"
    using globals_insert[OF _ m'(4)] n(3) by (simp_all add: inst_of_def)
  have len: "length (sm_header m) = 5" using m(1) by (simp add: spv_ok_def)
  have "unat (?b + 1) = unat ?b + 1" using m(3) unat_add_lem[of ?b 1] by simp
  moreover have h3: "sm_header m' ! 3 = ?b + 1" using m'(2) frame(2) len by simp
  ultimately have bound: "unat (sm_header m' ! 3) = unat ?b + 1" by simp
  have less: "?b < sm_header m' ! 3" "\<And>r. r < ?b \<Longrightarrow> r < sm_header m' ! 3" using bound by (simp_all add: word_less_nat_alt)
  have ins: "sm_ins m' = globals m @ inst_of op ops # body m" using globals_body[of m'] gb by simp
  have "\<forall>i \<in> set (globals m @ body m). result_id i < ?b" using m(1) globals_body[of m] by (simp add: spv_ok_def)
  then have "distinct (filter (\<lambda>r. r \<noteq> 0) (map result_id (sm_ins m')))"
    unfolding ins using m(1) n(2) by (intro distinct_ids_insert) (simp_all add: spv_ok_def globals_body[of m, symmetric])
  moreover have "list_all shape_ok (sm_ins m')" using m(1) n(1) globals_body[of m] unfolding ins by (simp add: spv_ok_def)
  moreover have "\<forall>i \<in> set (sm_ins m'). result_id i < sm_header m' ! 3 \<and> (in_op i = SpvOpDecorate \<longrightarrow> the (in_w i) ! 0 < sm_header m' ! 3)"
    using m(1) n(2,4) less globals_body[of m] unfolding ins spv_ok_def by (auto simp: inst_of_def)
  moreover have "0 < sm_header m' ! 3" using less(1) by (metis word_gt_0_no order.strict_trans1 word_zero_le word_not_simps(1))
  ultimately have "spv_ok m'" using m(1) m' frame len gb(2) by (simp add: spv_ok_def)
  then show ?thesis using m'(1) gb bound by (simp add: add_global_def types_end frame(5))
qed

text \<open>The first instruction that passes a test, by one of its operands.\<close>

definition resolves :: "(spv_inst \<Rightarrow> bool) \<Rightarrow> nat \<Rightarrow> spv_mod \<Rightarrow> u32 \<Rightarrow> bool" where
  "resolves P k m t \<longleftrightarrow> (\<exists>i. find P (globals m) = Some i \<and> the (in_w i) ! k = t)"

lemma resolves_grows: "resolves P k m t \<Longrightarrow> grows n m m' \<Longrightarrow> resolves P k m' t"
  unfolding resolves_def grows_def by (auto simp: find_append)

text \<open>A test that tells types or constants by their operands.\<close>

definition selects :: "(spv_inst \<Rightarrow> spv_fault + bool) \<Rightarrow> (spv_inst \<Rightarrow> bool) \<Rightarrow> nat \<Rightarrow> bool" where
  "selects p P k \<longleftrightarrow> (\<forall>i. shape_ok i \<longrightarrow> p i = Inr (P i) \<and> (P i \<longrightarrow> (is_type (in_op i) \<or> is_const (in_op i)) \<and> k < length (the (in_w i))))"

lemma find_globals:
  assumes "spv_ok m" "selects p P k"
  shows "find P (sm_ins m) = find P (globals m)"
proof -
  have "find P (body m) = None"
    using assms globals_body[of m] unfolding find_None_iff selects_def spv_ok_def list_all_iff by auto
  then show ?thesis unfolding globals_body[of m] find_append by (simp split: option.splits)
qed

lemma resolves_hit:
  assumes m: "spv_ok m" and p: "selects p P k" and r: "resolves P k m t"
  shows "find_or_add ok p k op ops m = Inr (t, m)"
proof -
  have sel: "\<forall>i \<in> set (sm_ins m). p i = Inr (P i)" using m p by (auto simp: selects_def dest: spv_ok_inst)
  obtain i where i: "find P (globals m) = Some i" "the (in_w i) ! k = t" using r by (auto simp: resolves_def)
  have "i \<in> set (globals m)" "P i" using i(1) by (auto simp: find_Some_iff)
  then have "shape_ok i" "P i" using m globals_body[of m] by (auto dest: spv_ok_inst)
  then have "operand i k = Inr t" using p i(2) by (auto simp: selects_def shape_ok_def intro: operand_ok)
  then show ?thesis by (simp add: find_or_add_eq[OF sel] find_globals[OF m p] i(1))
qed

lemma find_or_add_ok:
  assumes m: "spv_ok m" "length (sm_ins m) < 2 ^ 31" "unat (sm_header m ! 3) < 2 ^ 32 - 1" and ok: "\<And>i. ok i" and p: "selects p P k"
    and n: "shape_ok (inst_of op (ops (sm_header m ! 3)))" "result_id (inst_of op (ops (sm_header m ! 3))) = sm_header m ! 3"
      "P (inst_of op (ops (sm_header m ! 3)))" "ops (sm_header m ! 3) ! k = sm_header m ! 3"
  shows "\<exists>t m'. find_or_add ok p k op ops m = Inr (t, m') \<and> spv_ok m' \<and> grows 1 m m' \<and> resolves P k m' t"
proof (cases "find P (globals m)")
  case (Some i)
  then have "resolves P k m (the (in_w i) ! k)" by (simp add: resolves_def)
  then show ?thesis using resolves_hit[OF m(1) p] m(1) grows_refl by blast
next
  case None
  let ?ops = "ops (sm_header m ! 3)"
  have sel: "\<forall>i \<in> set (sm_ins m). p i = Inr (P i)" using m(1) p by (auto simp: selects_def dest: spv_ok_inst)
  have "is_type op \<or> is_const op" using p n(1,3) by (auto simp: selects_def inst_of_def)
  then have op: "op \<noteq> SpvOpFunction" "op \<noteq> SpvOpDecorate" by (auto simp: is_type_def is_const_def spv_op_defs)
  obtain m' where m': "add_global ok (snd (spv_new_id m)) op ?ops = Inr m'" "spv_ok m'" "globals m' = globals m @ [inst_of op ?ops]"
    "body m' = body m" "unat (sm_header m' ! 3) = unat (sm_header m ! 3) + 1"
    using add_global_ok[OF m, of ok, OF ok n(1,2) op] by blast
  have "find_or_add ok p k op ops m = Inr (sm_header m ! 3, m')"
    by (simp add: find_or_add_eq[OF sel] find_globals[OF m(1) p] None m'(1))
  moreover have "resolves P k m' (sm_header m ! 3)"
    unfolding resolves_def m'(3) find_append using None n(3,4) by (simp add: inst_of_def)
  moreover have "grows 1 m m'" unfolding grows_def using m' op by (intro exI[of _ "[inst_of op ?ops]"]) (simp add: inst_of_def)
  ultimately show ?thesis using m'(2) by blast
qed

subsection \<open>Requests\<close>

datatype spv_request =
    ReqFloat u32
  | ReqInt u32 u32
  | ReqBool
  | ReqVector u32 u32
  | ReqPointer u32 u32
  | ReqArray u32 u32
  | ReqU32 u32
  | ReqF32 u32

fun spv_serve :: "(nat \<Rightarrow> bool) \<Rightarrow> spv_request \<Rightarrow> spv_mod \<Rightarrow> spv_fault + u32 \<times> spv_mod" where
  "spv_serve ok (ReqFloat width) m = spv_type_float ok width m"
| "spv_serve ok (ReqInt width sign) m = spv_type_int ok width sign m"
| "spv_serve ok ReqBool m = spv_type_bool ok m"
| "spv_serve ok (ReqVector elem n) m = spv_type_vector ok elem n m"
| "spv_serve ok (ReqPointer storage pointee) m = spv_type_pointer ok storage pointee m"
| "spv_serve ok (ReqArray elem len) m = spv_type_array ok elem len m"
| "spv_serve ok (ReqU32 v) m = spv_const_u32 ok v m"
| "spv_serve ok (ReqF32 bits) m = spv_const_f32 ok bits m"

fun spv_serve_all :: "(nat \<Rightarrow> bool) \<Rightarrow> spv_request list \<Rightarrow> spv_mod \<Rightarrow> spv_fault + u32 list \<times> spv_mod" where
  "spv_serve_all ok [] m = Inr ([], m)"
| "spv_serve_all ok (r # rs) m =
     try_then (spv_serve ok r m) (\<lambda>(t, m1). try_then (spv_serve_all ok rs m1) (\<lambda>(ts, m2). Inr (t # ts, m2)))"

text \<open>The instruction that a request asks for.\<close>

definition is_inst :: "u16 \<Rightarrow> (nat \<times> u32) list \<Rightarrow> spv_inst \<Rightarrow> bool" where
  "is_inst op kvs i \<longleftrightarrow> in_op i = op \<and> (\<forall>(k, v) \<in> set kvs. the (in_w i) ! k = v)"

definition is_float :: "u32 \<Rightarrow> spv_inst \<Rightarrow> bool" where
  "is_float width i \<longleftrightarrow> is_inst SpvOpTypeFloat [(1, width)] i \<and> in_n i = 3"

definition is_constant :: "u32 \<Rightarrow> u32 \<Rightarrow> spv_inst \<Rightarrow> bool" where
  "is_constant t v i \<longleftrightarrow> is_inst SpvOpConstant [(0, t), (2, v)] i \<and> in_n i = 4"

definition strided :: "spv_mod \<Rightarrow> u32 \<Rightarrow> bool" where
  "strided m t \<longleftrightarrow> (\<exists>i \<in> set (sm_ins m). is_inst SpvOpDecorate [(0, t), (1, SpvDecorationArrayStride)] i)"

definition is_array :: "spv_mod \<Rightarrow> u32 \<Rightarrow> u32 \<Rightarrow> spv_inst \<Rightarrow> bool" where
  "is_array m elem len i \<longleftrightarrow> is_inst SpvOpTypeArray [(1, elem), (2, len)] i \<and> \<not> strided m (the (in_w i) ! 0)"

fun request_denotes :: "spv_mod \<Rightarrow> spv_request \<Rightarrow> u32 \<Rightarrow> bool" where
  "request_denotes m (ReqFloat width) t = resolves (is_float width) 0 m t"
| "request_denotes m (ReqInt width sign) t = resolves (is_inst SpvOpTypeInt [(1, width), (2, sign)]) 0 m t"
| "request_denotes m ReqBool t = resolves (is_inst SpvOpTypeBool []) 0 m t"
| "request_denotes m (ReqVector elem n) t = resolves (is_inst SpvOpTypeVector [(1, elem), (2, n)]) 0 m t"
| "request_denotes m (ReqPointer storage pointee) t = resolves (is_inst SpvOpTypePointer [(1, storage), (2, pointee)]) 0 m t"
| "request_denotes m (ReqArray elem len) t = resolves (is_array m elem len) 0 m t"
| "request_denotes m (ReqU32 v) t =
     (\<exists>c. resolves (is_inst SpvOpTypeInt [(1, 32), (2, 0)]) 0 m c \<and> resolves (is_constant c v) 1 m t)"
| "request_denotes m (ReqF32 bits) t = (\<exists>c. resolves (is_float 32) 0 m c \<and> resolves (is_constant c bits) 1 m t)"

lemma strided_grows: "grows n m m' \<Longrightarrow> strided m' = strided m"
  unfolding grows_def strided_def globals_body[of m] globals_body[of m'] is_inst_def by (auto simp: fun_eq_iff)

lemma denotes_grows:
  assumes "grows n m m'" "request_denotes m r t"
  shows "request_denotes m' r t"
proof (cases r)
  case (ReqArray elem len)
  have "is_array m' elem len = is_array m elem len" unfolding is_array_def strided_grows[OF assms(1)] by simp
  then show ?thesis using assms(2) resolves_grows[OF _ assms(1)] ReqArray by simp
qed (use assms resolves_grows[OF _ assms(1)] in auto)

text \<open>The tests of the operations on instructions of the right shape.\<close>

lemma shape_operands: "shape_ok i \<Longrightarrow> k < min_operands (in_op i) \<Longrightarrow> k < length (the (in_w i))"
  by (simp add: shape_ok_def)

lemma operands_are_shape:
  assumes "shape_ok i" "\<forall>(k, v) \<in> set kvs. k < min_operands (in_op i)"
  shows "operands_are i kvs = Inr (\<forall>(k, v) \<in> set kvs. the (in_w i) ! k = v)"
  using assms shape_operands[OF assms(1)] by (intro operands_are_ok) (auto simp: shape_ok_def)

lemma selects_inst:
  assumes "is_type op \<or> is_const op" "\<forall>(k, v) \<in> set kvs. k < min_operands op" "k < min_operands op"
  shows "selects (\<lambda>i. if in_op i = op then operands_are i kvs else Inr False) (is_inst op kvs) k"
  unfolding selects_def is_inst_def using assms operands_are_shape shape_operands by auto

lemma selects_bool: "selects (\<lambda>i. Inr (in_op i = SpvOpTypeBool)) (is_inst SpvOpTypeBool []) 0"
  unfolding selects_def is_inst_def using shape_operands[of _ 0] by (auto simp: min_operands_def is_type_def spv_op_defs)

lemma selects_float:
  "selects (\<lambda>i. if in_op i = SpvOpTypeFloat then try_then (operands_are i [(1, width)]) (\<lambda>b. Inr (b \<and> in_n i = 3)) else Inr False) (is_float width) 0"
  unfolding selects_def is_float_def is_inst_def using operands_are_shape[of _ "[(1, width)]"] shape_operands[of _ 0]
  by (auto simp: min_operands_def is_type_def spv_op_defs)

lemma selects_constant:
  "selects (\<lambda>i. if in_op i = SpvOpConstant
                then try_then (operands_are i [(0, t)]) (\<lambda>b. if b \<and> in_n i = 4 then operands_are i [(2, v)] else Inr False)
                else Inr False) (is_constant t v) 1"
  unfolding selects_def is_constant_def is_inst_def
  using operands_are_shape[of _ "[(0, t)]"] operands_are_shape[of _ "[(2, v)]"] shape_operands[of _ 1]
  by (auto simp: min_operands_def is_const_def spv_op_defs)

lemma get_stride:
  assumes "spv_ok m"
  shows "\<exists>d. spv_get_decoration m t SpvDecorationArrayStride = Inr d \<and> (d = None) = (\<not> strided m t)"
proof -
  define p where "p = (\<lambda>i. if in_op i = SpvOpDecorate then operands_are i [(0, t), (1, SpvDecorationArrayStride)] else Inr False)"
  define P where "P = is_inst SpvOpDecorate [(0, t), (1, SpvDecorationArrayStride)]"
  define j where "j = length (takeWhile (\<lambda>i. \<not> P i) (sm_ins m))"
  have "p i = Inr (P i)" if "shape_ok i" for i
    using that operands_are_shape[of i "[(0, t), (1, SpvDecorationArrayStride)]"] by (auto simp: p_def P_def is_inst_def min_operands_def spv_op_defs)
  then have sel: "\<forall>i \<in> set (sm_ins m). p i = Inr (P i)" using spv_ok_inst[OF assms] by blast
  have run: "spv_get_decoration m t SpvDecorationArrayStride =
      try_then (search p (sm_ins m) 0) (\<lambda>r. case r of
          None \<Rightarrow> Inr None
        | Some j \<Rightarrow> if in_n (sm_ins m ! j) > 3 then try_then (operand (sm_ins m ! j) 2) (\<lambda>x. Inr (Some x)) else Inr (Some 0))"
    unfolding spv_get_decoration_def p_def ..
  have strided: "strided m t \<longleftrightarrow> (\<exists>i \<in> set (sm_ins m). P i)" by (simp add: strided_def P_def)
  show ?thesis
  proof (cases "strided m t")
    case True
    then have ex: "\<exists>i \<in> set (sm_ins m). P i" by (simp only: strided)
    have "find P (sm_ins m) = Some (sm_ins m ! j)" using find_takeWhile[OF ex] by (simp only: j_def)
    then have "sm_ins m ! j \<in> set (sm_ins m)" by (auto simp: find_Some_iff)
    then have "inst_ok (sm_ins m ! j)" using spv_ok_inst[OF assms] by (auto simp: shape_ok_def)
    then obtain w where "in_w (sm_ins m ! j) = Some w" "unat (in_n (sm_ins m ! j)) = Suc (length w)" by (rule inst_okE)
    then have "\<exists>x. operand (sm_ins m ! j) 2 = Inr x" if "in_n (sm_ins m ! j) > 3" using that by (simp add: operand_def word_less_nat_alt)
    moreover have "search p (sm_ins m) 0 = Inr (Some j)" using ex by (simp only: search_ok[OF sel] j_def if_P add_0)
    ultimately show ?thesis using True unfolding run by auto
  next
    case False
    then have "search p (sm_ins m) 0 = Inr None" by (simp only: search_ok[OF sel] strided if_False)
    then show ?thesis using False unfolding run by simp
  qed
qed

lemma selects_array:
  assumes "spv_ok m"
  shows "selects (\<lambda>i. if in_op i = SpvOpTypeArray
            then try_then (operands_are i [(1, elem), (2, len)]) (\<lambda>b.
                   if b then try_then (operand i 0) (\<lambda>id. try_then (spv_get_decoration m id SpvDecorationArrayStride) (\<lambda>d. Inr (d = None)))
                   else Inr False)
            else Inr False) (is_array m elem len) 0"
proof -
  have "try_then (spv_get_decoration m x SpvDecorationArrayStride) (\<lambda>d. Inr (d = None)) = (Inr (\<not> strided m x) :: spv_fault + bool)" for x
  proof -
    obtain d where d: "spv_get_decoration m x SpvDecorationArrayStride = Inr d" "(d = None) = (\<not> strided m x)" using get_stride[OF assms] by blast
    show ?thesis unfolding d(1) try_then_simps(2) d(2) ..
  qed
  note stride = this
  show ?thesis
    unfolding selects_def
  proof (intro allI impI)
    fix i assume i: "shape_ok i"
    show "(if in_op i = SpvOpTypeArray
            then try_then (operands_are i [(1, elem), (2, len)]) (\<lambda>b.
                   if b then try_then (operand i 0) (\<lambda>id. try_then (spv_get_decoration m id SpvDecorationArrayStride) (\<lambda>d. Inr (d = None)))
                   else Inr False)
            else Inr False) = Inr (is_array m elem len i) \<and>
          (is_array m elem len i \<longrightarrow> (is_type (in_op i) \<or> is_const (in_op i)) \<and> 0 < length (the (in_w i)))"
    proof (cases "in_op i = SpvOpTypeArray")
      case True
      then have min: "min_operands (in_op i) = 3" by (simp add: min_operands_def)
      then have len: "0 < length (the (in_w i))" using shape_operands[OF i, of 0] by simp
      have "operands_are i [(1, elem), (2, len)] = Inr (the (in_w i) ! 1 = elem \<and> the (in_w i) ! 2 = len)"
        using operands_are_shape[OF i, of "[(1, elem), (2, len)]"] min by simp
      moreover have "operand i 0 = Inr (the (in_w i) ! 0)" using i len by (intro operand_ok) (simp_all add: shape_ok_def)
      ultimately show ?thesis using True len by (auto simp: stride is_array_def is_inst_def is_type_def SpvOpTypeArray_def simp del: operands_are.simps)
    qed (simp add: is_array_def is_inst_def)
  qed
qed

text \<open>A request that request_denotes an id is answered with it and changes nothing.\<close>

lemmas serve_defs = spv_type_float_def spv_type_int_def spv_type_bool_def spv_type_vector_def spv_type_pointer_def spv_type_array_def
  spv_constant_def spv_const_u32_def spv_const_f32_def

lemma selects_three:
  "op \<in> {SpvOpTypeInt, SpvOpTypeVector, SpvOpTypePointer} \<Longrightarrow>
   selects (\<lambda>i. if in_op i = op then operands_are i [(1, a), (2, b)] else Inr False) (is_inst op [(1, a), (2, b)]) 0"
  by (rule selects_inst) (auto simp: min_operands_def is_type_def spv_op_defs)

lemma denotes_serve:
  assumes "spv_ok m" "request_denotes m r t"
  shows "spv_serve ok r m = Inr (t, m)"
proof (cases r)
  case (ReqArray elem len)
  then show ?thesis using assms resolves_hit[OF assms(1) selects_array[OF assms(1)]] by (simp add: spv_type_array_def)
next
  case (ReqU32 v)
  then obtain c where "resolves (is_inst SpvOpTypeInt [(1, 32), (2, 0)]) 0 m c" "resolves (is_constant c v) 1 m t" using assms(2) by auto
  then show ?thesis using ReqU32 resolves_hit[OF assms(1) selects_three[of SpvOpTypeInt]] resolves_hit[OF assms(1) selects_constant]
    by (simp add: spv_const_u32_def spv_type_int_def spv_constant_def)
next
  case (ReqF32 v)
  then obtain c where "resolves (is_float 32) 0 m c" "resolves (is_constant c v) 1 m t" using assms(2) by auto
  then show ?thesis using ReqF32 resolves_hit[OF assms(1) selects_float] resolves_hit[OF assms(1) selects_constant]
    by (simp add: spv_const_f32_def spv_type_float_def spv_constant_def)
next
  case (ReqFloat width)
  then show ?thesis using assms resolves_hit[OF assms(1) selects_float] by (simp add: spv_type_float_def)
next
  case ReqBool
  then show ?thesis using assms resolves_hit[OF assms(1) selects_bool] by (simp add: spv_type_bool_def)
next
  case (ReqInt width sign)
  then show ?thesis using assms resolves_hit[OF assms(1) selects_three[of SpvOpTypeInt]] by (simp add: spv_type_int_def)
next
  case (ReqVector elem n)
  then show ?thesis using assms resolves_hit[OF assms(1) selects_three[of SpvOpTypeVector]] by (simp add: spv_type_vector_def)
next
  case (ReqPointer storage pointee)
  then show ?thesis using assms resolves_hit[OF assms(1) selects_three[of SpvOpTypePointer]] by (simp add: spv_type_pointer_def)
qed

text \<open>The instructions that requests add.\<close>

lemma new_type:
  assumes "is_type op" "min_operands op \<le> Suc (length rest)" "length rest \<le> 2"
  shows "shape_ok (inst_of op (x # rest))" "result_id (inst_of op (x # rest)) = x" "in_n (inst_of op (x # rest)) = of_nat (length rest) + 2"
proof -
  have n: "unat (of_nat (length rest) + 2 :: u16) = length rest + 2"
    using assms(3) unat_of_nat16[of "length rest + 2"] by (simp add: add.commute)
  show n': "in_n (inst_of op (x # rest)) = of_nat (length rest) + 2" by (simp add: inst_of_def)
  then show "shape_ok (inst_of op (x # rest))" using assms n by (simp add: shape_ok_def inst_ok_def inst_of_def add.commute)
  have "\<not> of_nat (length rest) + 2 < (2 :: u16)" using n by (simp add: word_less_nat_alt)
  then show "result_id (inst_of op (x # rest)) = x"
    using assms(1) n' by (simp add: result_id_def spv_result_id_def result_first_def operand_def inst_of_def add.commute)
qed

lemma new_constant: "shape_ok (inst_of SpvOpConstant [t, x, v])" "result_id (inst_of SpvOpConstant [t, x, v]) = x" "in_n (inst_of SpvOpConstant [t, x, v]) = 4"
  by (simp_all add: shape_ok_def inst_ok_def inst_of_def min_operands_def result_id_def spv_result_id_def result_first_def operand_def
      no_result_ops_def is_type_def spv_op_defs)

text \<open>A module with room for \<open>n\<close> more instructions and ids.\<close>

definition has_room :: "nat \<Rightarrow> spv_mod \<Rightarrow> bool" where
  "has_room n m \<longleftrightarrow> length (sm_ins m) + n \<le> 2 ^ 31 \<and> unat (sm_header m ! 3) + n < 2 ^ 32"

lemma has_room_grows: "has_room (a + b) m \<Longrightarrow> grows a m m' \<Longrightarrow> has_room b m'"
  using grows_length[of a m m'] by (auto simp: has_room_def)

lemma serve_type:
  assumes m: "spv_ok m" "has_room 1 m" and ok: "\<forall>i. ok i" and p: "selects p P 0"
    and n: "is_type op" "min_operands op \<le> Suc (length rest)" "length rest \<le> 2" "P (inst_of op (sm_header m ! 3 # rest))"
  shows "\<exists>t m'. find_or_add ok p 0 op (\<lambda>x. x # rest) m = Inr (t, m') \<and> spv_ok m' \<and> grows 1 m m' \<and> resolves P 0 m' t"
proof (rule find_or_add_ok[OF m(1)])
  show "length (sm_ins m) < 2 ^ 31" "unat (sm_header m ! 3) < 2 ^ 32 - 1" using m(2) by (simp_all add: has_room_def)
  show "shape_ok (inst_of op (sm_header m ! 3 # rest))" "result_id (inst_of op (sm_header m ! 3 # rest)) = sm_header m ! 3"
    using new_type(1,2)[OF n(1-3)] by blast+
qed (use ok p n(4) in simp_all)

lemma serve_constant:
  assumes m: "spv_ok m" "has_room 1 m" and ok: "\<forall>i. ok i"
  shows "\<exists>t m'. spv_constant ok c v m = Inr (t, m') \<and> spv_ok m' \<and> grows 1 m m' \<and> resolves (is_constant c v) 1 m' t"
  unfolding spv_constant_def
proof (rule find_or_add_ok[OF m(1) _ _ _ selects_constant])
  show "length (sm_ins m) < 2 ^ 31" "unat (sm_header m ! 3) < 2 ^ 32 - 1" using m(2) by (simp_all add: has_room_def)
  show "is_constant c v (inst_of SpvOpConstant [c, sm_header m ! 3, v])" using new_constant(3) by (simp add: is_constant_def is_inst_def inst_of_def)
qed (use ok new_constant in simp_all)

lemma new_array_undecorated:
  assumes "spv_ok m"
  shows "\<not> strided m (sm_header m ! 3)"
proof
  assume "strided m (sm_header m ! 3)"
  then obtain i where i: "i \<in> set (sm_ins m)" "in_op i = SpvOpDecorate" "the (in_w i) ! 0 = sm_header m ! 3"
    by (auto simp: strided_def is_inst_def)
  have "the (in_w i) ! 0 < sm_header m ! 3" using assms i(1,2) unfolding spv_ok_def by blast
  then show False using i(3) by simp
qed

lemma serve_array:
  assumes m: "spv_ok m" "has_room 1 m" and ok: "\<forall>i. ok i"
  shows "\<exists>t m'. spv_type_array ok elem len m = Inr (t, m') \<and> spv_ok m' \<and> grows 1 m m' \<and> request_denotes m' (ReqArray elem len) t"
proof -
  have "is_array m elem len (inst_of SpvOpTypeArray [sm_header m ! 3, elem, len])"
    using new_array_undecorated[OF m(1)] by (simp add: is_array_def is_inst_def inst_of_def)
  then obtain t m' where "spv_type_array ok elem len m = Inr (t, m')" "spv_ok m'" "grows 1 m m'" "resolves (is_array m elem len) 0 m' t"
    using serve_type[OF m ok selects_array[OF m(1)], of SpvOpTypeArray "[elem, len]" elem len]
    unfolding spv_type_array_def by (auto simp: min_operands_def is_type_def spv_op_defs)
  moreover have "is_array m' elem len = is_array m elem len"
    unfolding is_array_def strided_grows[OF \<open>grows 1 m m'\<close>] by simp
  ultimately show ?thesis by auto
qed

lemma serve_ok:
  assumes m: "spv_ok m" "has_room 2 m" and ok: "\<forall>i. ok i"
  shows "\<exists>t m'. spv_serve ok r m = Inr (t, m') \<and> spv_ok m' \<and> grows 2 m m' \<and> request_denotes m' r t"
proof -
  have room: "has_room 1 m" using m(2) by (simp add: has_room_def)
  have small: ?thesis if "\<exists>t m'. spv_serve ok r m = Inr (t, m') \<and> spv_ok m' \<and> grows 1 m m' \<and> request_denotes m' r t"
    using that grows_mono[of 1 m _ 2] by (metis one_le_numeral)
  have float: "\<exists>t m'. spv_type_float ok width m = Inr (t, m') \<and> spv_ok m' \<and> grows 1 m m' \<and> resolves (is_float width) 0 m' t" for width
    using serve_type[OF m(1) room ok selects_float, of SpvOpTypeFloat "[width]" width] new_type(3)[of SpvOpTypeFloat "[width]"]
    unfolding spv_type_float_def by (auto simp: is_float_def is_inst_def inst_of_def min_operands_def is_type_def spv_op_defs)
  have int: "\<exists>t m'. spv_type_int ok width sign m = Inr (t, m') \<and> spv_ok m' \<and> grows 1 m m' \<and> resolves (is_inst SpvOpTypeInt [(1, width), (2, sign)]) 0 m' t" for width sign
    using serve_type[OF m(1) room ok selects_three[of SpvOpTypeInt], of SpvOpTypeInt "[width, sign]" width sign]
    unfolding spv_type_int_def by (auto simp: is_inst_def inst_of_def min_operands_def is_type_def spv_op_defs)
  have const: "\<exists>t m'. spv_constant ok c v m1 = Inr (t, m') \<and> spv_ok m' \<and> grows 2 m m' \<and> resolves P 0 m' c \<and> resolves (is_constant c v) 1 m' t"
    if m1: "spv_ok m1" "grows 1 m m1" "resolves P 0 m1 c" for P c v m1
  proof -
    have "has_room 1 m1" using has_room_grows[of 1 1 m m1] m(2) m1(2) by (simp add: has_room_def)
    then obtain t m' where "spv_constant ok c v m1 = Inr (t, m')" "spv_ok m'" "grows 1 m1 m'" "resolves (is_constant c v) 1 m' t"
      using serve_constant[OF m1(1) _ ok] by blast
    moreover have "grows 2 m m'" using grows_trans[OF m1(2) \<open>grows 1 m1 m'\<close>] by (simp add: numeral_2_eq_2)
    ultimately show ?thesis using resolves_grows[OF m1(3)] by blast
  qed
  show ?thesis
  proof (cases r)
    case (ReqFloat width) then show ?thesis using float[of width] by (intro small) simp
  next
    case (ReqInt width sign) then show ?thesis using int[of width sign] by (intro small) simp
  next
    case ReqBool
    then show ?thesis using serve_type[OF m(1) room ok selects_bool, of SpvOpTypeBool "[]"]
      by (intro small) (auto simp: spv_type_bool_def is_inst_def inst_of_def min_operands_def is_type_def spv_op_defs)
  next
    case (ReqVector a b)
    then show ?thesis using serve_type[OF m(1) room ok selects_three[of SpvOpTypeVector], of SpvOpTypeVector "[a, b]" a b]
      by (intro small) (auto simp: spv_type_vector_def is_inst_def inst_of_def min_operands_def is_type_def spv_op_defs)
  next
    case (ReqPointer a b)
    then show ?thesis using serve_type[OF m(1) room ok selects_three[of SpvOpTypePointer], of SpvOpTypePointer "[a, b]" a b]
      by (intro small) (auto simp: spv_type_pointer_def is_inst_def inst_of_def min_operands_def is_type_def spv_op_defs)
  next
    case (ReqArray a b) then show ?thesis using serve_array[OF m(1) room ok, of a b] by (intro small) simp
  next
    case (ReqU32 v)
    obtain c m1 where "spv_type_int ok 32 0 m = Inr (c, m1)" "spv_ok m1" "grows 1 m m1" "resolves (is_inst SpvOpTypeInt [(1, 32), (2, 0)]) 0 m1 c"
      using int[of 32 0] by blast
    then show ?thesis using const[of m1 _ c v] ReqU32 by (fastforce simp: spv_const_u32_def)
  next
    case (ReqF32 v)
    obtain c m1 where "spv_type_float ok 32 m = Inr (c, m1)" "spv_ok m1" "grows 1 m m1" "resolves (is_float 32) 0 m1 c" using float[of 32] by blast
    then show ?thesis using const[of m1 _ c v] ReqF32 by (fastforce simp: spv_const_f32_def)
  qed
qed

lemma serve_all_ok:
  "spv_ok m \<Longrightarrow> has_room (2 * length rs) m \<Longrightarrow> \<forall>i. ok i \<Longrightarrow>
   \<exists>ts m'. spv_serve_all ok rs m = Inr (ts, m') \<and> length ts = length rs \<and> spv_ok m' \<and> grows (2 * length rs) m m' \<and>
     (\<forall>j < length rs. request_denotes m' (rs ! j) (ts ! j))"
proof (induction rs arbitrary: m)
  case Nil
  then show ?case using grows_refl by auto
next
  case (Cons r rs)
  have "has_room 2 m" using Cons.prems(2) by (simp add: has_room_def)
  then obtain t m1 where m1: "spv_serve ok r m = Inr (t, m1)" "spv_ok m1" "grows 2 m m1" "request_denotes m1 r t"
    using serve_ok[OF Cons.prems(1) _ Cons.prems(3)] by blast
  have "has_room (2 * length rs) m1" using has_room_grows[of 2 "2 * length rs" m m1] Cons.prems(2) m1(3) by simp
  then obtain ts m' where m': "spv_serve_all ok rs m1 = Inr (ts, m')" "length ts = length rs" "spv_ok m'" "grows (2 * length rs) m1 m'"
    "\<forall>j < length rs. request_denotes m' (rs ! j) (ts ! j)"
    using Cons.IH[OF m1(2) _ Cons.prems(3)] by blast
  have "request_denotes m' ((r # rs) ! j) ((t # ts) ! j)" if "j < length (r # rs)" for j
    using that m'(5) denotes_grows[OF m'(4) m1(4)] by (cases j) auto
  moreover have "grows (2 * length (r # rs)) m m'" using grows_trans[OF m1(3) m'(4)] by simp
  ultimately show ?case using m1(1) m'(1,2,3) by auto
qed


definition demo_module :: spv_mod where
  "demo_module = \<lparr>sm_header = demo_header, sm_ins = demo_insts, sm_cap = 1024, sm_err = False, sm_allocs = 0\<rparr>"

lemma demo_module_ok: "spv_ok demo_module"
proof -
  have ids: "map result_id demo_insts = [0, 1]"
    by (simp add: demo_insts_def result_id_def spv_result_id_def result_first_def operand_def no_result_ops_def is_type_def spv_op_defs)
  have "body demo_module = []" by (simp add: body_def demo_module_def demo_insts_def spv_op_defs)
  moreover have "cap_ok demo_module" unfolding cap_ok_def by (intro disjI2 exI[of _ 0]) (simp add: demo_module_def demo_insts_def)
  moreover have "list_all shape_ok demo_insts" by (simp add: demo_insts_def shape_ok_def inst_ok_def min_operands_def spv_op_defs)
  moreover have "\<forall>i \<in> set demo_insts. result_id i < 2" using ids by (simp add: demo_insts_def)
  moreover have "\<forall>i \<in> set demo_insts. in_op i \<noteq> SpvOpDecorate" by (simp add: demo_insts_def spv_op_defs)
  ultimately show ?thesis using ids unfolding spv_ok_def by (simp add: demo_module_def demo_header_def)
qed


section \<open>Removal\<close>

lemma remove_from_filter:
  "\<forall>i \<in> set (sm_ins m). p i = Inr (P i) \<Longrightarrow> k \<le> length (sm_ins m) \<Longrightarrow>
   remove_from p k m = Inr (m\<lparr>sm_ins := take k (sm_ins m) @ filter (\<lambda>i. \<not> P i) (drop k (sm_ins m))\<rparr>)"
proof (induction p k m rule: remove_from.induct)
  case (1 p k m)
  show ?case
  proof (cases "k < length (sm_ins m)")
    case k: True
    have drop: "drop k (sm_ins m) = sm_ins m ! k # drop (Suc k) (sm_ins m)" using k by (rule Cons_nth_drop_Suc[symmetric])
    have test: "p (sm_ins m ! k) = Inr (P (sm_ins m ! k))" using "1.prems"(1) k by simp
    show ?thesis
    proof (cases "P (sm_ins m ! k)")
      case True
      have rm: "sm_ins (spv_remove m k) = take k (sm_ins m) @ drop (Suc k) (sm_ins m)" using k by (simp add: spv_remove_def)
      then have "\<forall>i \<in> set (sm_ins (spv_remove m k)). p i = Inr (P i)" using "1.prems"(1) by (auto dest: in_set_takeD in_set_dropD)
      moreover have "k \<le> length (sm_ins (spv_remove m k))" using rm k by simp
      ultimately have "remove_from p k (spv_remove m k) =
          Inr ((spv_remove m k)\<lparr>sm_ins := take k (sm_ins m) @ filter (\<lambda>i. \<not> P i) (drop (Suc k) (sm_ins m))\<rparr>)"
        using "1.IH"(1)[OF k test True] rm k by simp
      then show ?thesis using k test True drop by (simp add: remove_from.simps[of p k m] spv_remove_def)
    next
      case False
      have "remove_from p (Suc k) m = Inr (m\<lparr>sm_ins := take (Suc k) (sm_ins m) @ filter (\<lambda>i. \<not> P i) (drop (Suc k) (sm_ins m))\<rparr>)"
        using "1.IH"(2)[OF k test False "1.prems"(1)] k by simp
      then show ?thesis using k test False drop by (simp add: remove_from.simps[of p k m] take_Suc_conv_app_nth)
    qed
  next
    case False
    then show ?thesis using "1.prems"(2) by (subst remove_from.simps) simp
  qed
qed

lemma distinct_map_filter: "distinct (filter p (map f xs)) \<Longrightarrow> distinct (filter p (map f (filter q xs)))"
  by (induction xs) auto

lemma dropWhile_filter: "(\<And>x. \<not> f x \<Longrightarrow> q x) \<Longrightarrow> dropWhile f (filter q xs) = filter q (dropWhile f xs)"
  by (induction xs) auto

lemma spv_ok_filter:
  assumes "spv_ok m" "\<And>i. in_op i = SpvOpFunction \<Longrightarrow> Q i"
  shows "spv_ok (m\<lparr>sm_ins := filter Q (sm_ins m)\<rparr>)"
proof -
  let ?m = "m\<lparr>sm_ins := filter Q (sm_ins m)\<rparr>"
  have "body ?m = filter Q (body m)" unfolding body_def using assms(2) dropWhile_filter[of "\<lambda>i. in_op i \<noteq> SpvOpFunction" Q "sm_ins m"] by simp
  moreover have "cap_ok ?m" using assms(1) order_trans[OF length_filter_le] unfolding spv_ok_def cap_ok_def by fastforce
  ultimately show ?thesis using assms(1) distinct_map_filter[of "\<lambda>r. r \<noteq> 0" result_id "sm_ins m" Q] unfolding spv_ok_def by (auto simp: list_all_iff)
qed

datatype spv_edit =
    EditRequest spv_request
  | EditAddCapability u32
  | EditRemoveCapability u32
  | EditRemoveDecoration u32 u32

fun spv_edit_step :: "(nat \<Rightarrow> bool) \<Rightarrow> spv_edit \<Rightarrow> spv_mod \<Rightarrow> spv_fault + spv_mod" where
  "spv_edit_step ok (EditRequest r) m = try_then (spv_serve ok r m) (\<lambda>(t, m1). Inr m1)"
| "spv_edit_step ok (EditAddCapability cap) m = spv_add_capability ok cap m"
| "spv_edit_step ok (EditRemoveCapability cap) m = spv_remove_capability cap m"
| "spv_edit_step ok (EditRemoveDecoration target d) m = spv_remove_decoration target d m"

fun spv_edits :: "(nat \<Rightarrow> bool) \<Rightarrow> spv_edit list \<Rightarrow> spv_mod \<Rightarrow> spv_fault + spv_mod" where
  "spv_edits ok [] m = Inr m"
| "spv_edits ok (e # es) m = try_then (spv_edit_step ok e m) (spv_edits ok es)"

lemma capability_test: "shape_ok i \<Longrightarrow> is_capability cap i = Inr (is_inst SpvOpCapability [(0, cap)] i)"
  using operands_are_shape[of i "[(0, cap)]"] by (auto simp: is_capability_def is_inst_def min_operands_def spv_op_defs)

lemma remove_capability_eq:
  assumes "spv_ok m"
  shows "spv_remove_capability cap m = Inr (m\<lparr>sm_ins := filter (\<lambda>i. \<not> is_inst SpvOpCapability [(0, cap)] i) (sm_ins m)\<rparr>)"
  using remove_from_filter[of m "is_capability cap" "is_inst SpvOpCapability [(0, cap)]" 0] capability_test spv_ok_inst[OF assms]
  by (simp add: spv_remove_capability_def)

lemma remove_decoration_eq:
  assumes "spv_ok m"
  shows "spv_remove_decoration t d m = Inr (m\<lparr>sm_ins := filter (\<lambda>i. \<not> is_inst SpvOpDecorate [(0, t), (1, d)] i) (sm_ins m)\<rparr>)"
proof -
  have "(if in_op i = SpvOpDecorate then operands_are i [(0, t), (1, d)] else Inr False) = Inr (is_inst SpvOpDecorate [(0, t), (1, d)] i)"
    if "shape_ok i" for i
    using that operands_are_shape[of i "[(0, t), (1, d)]"] by (auto simp: is_inst_def min_operands_def spv_op_defs)
  then show ?thesis
    using remove_from_filter[of m _ "is_inst SpvOpDecorate [(0, t), (1, d)]" 0] spv_ok_inst[OF assms] by (simp add: spv_remove_decoration_def)
qed

lemma has_capability_eq:
  assumes "spv_ok m"
  shows "spv_has_capability m cap = Inr (\<exists>i \<in> set (sm_ins m). is_inst SpvOpCapability [(0, cap)] i)"
proof -
  have "\<forall>i \<in> set (sm_ins m). is_capability cap i = Inr (is_inst SpvOpCapability [(0, cap)] i)" using capability_test spv_ok_inst[OF assms] by blast
  from search_ok[OF this, of 0] show ?thesis by (simp add: spv_has_capability_def)
qed

lemma spv_ok_cons:
  assumes "spv_ok m" "sm_header m' = sm_header m" "sm_err m' = sm_err m" "cap_ok m'" "sm_ins m' = i # sm_ins m"
    and "shape_ok i" "result_id i = 0" "in_op i \<noteq> SpvOpFunction" "in_op i \<noteq> SpvOpDecorate"
  shows "spv_ok m'"
proof -
  have "body m' = body m" using assms(5,8) by (simp add: body_def)
  then show ?thesis using assms unfolding spv_ok_def by simp
qed

lemma add_capability_ok:
  assumes m: "spv_ok m" "has_room 1 m" and ok: "\<forall>i. ok i"
  shows "\<exists>m'. spv_add_capability ok cap m = Inr m' \<and> spv_ok m' \<and> length (sm_ins m') \<le> Suc (length (sm_ins m)) \<and>
    sm_header m' = sm_header m \<and> spv_has_capability m' cap = Inr True"
proof (cases "\<exists>i \<in> set (sm_ins m). is_inst SpvOpCapability [(0, cap)] i")
  case True
  then show ?thesis using m(1) by (auto simp: spv_add_capability_def has_capability_eq)
next
  case False
  let ?i = "\<lparr>in_op = SpvOpCapability, in_n = 2, in_w = Some [cap]\<rparr>"
  have i: "shape_ok ?i" "result_id ?i = 0" "is_inst SpvOpCapability [(0, cap)] ?i"
    by (simp_all add: shape_ok_def inst_ok_def min_operands_def result_id_def spv_result_id_def result_first_def no_result_ops_def
        is_type_def is_inst_def spv_op_defs)
  obtain m' where m': "spv_insert ok m 0 SpvOpCapability [cap] = Inr (0, m')" "sm_header m' = sm_header m" "sm_err m' = sm_err m"
    "sm_ins m' = ?i # sm_ins m" "cap_ok m'"
    using spv_insert_ok[where m = m and ok = ok and k = 0 and op = SpvOpCapability and ops = "[cap]"] m ok
    by (auto simp: insert_at_def spv_ok_def has_room_def)
  have "spv_ok m'" using m(1) m' i by (intro spv_ok_cons[of m m' ?i]) (simp_all add: spv_op_defs)
  moreover from this have "spv_has_capability m' cap = Inr True" using m'(4) i(3) by (simp add: has_capability_eq)
  ultimately show ?thesis using m' False m(1) by (auto simp: spv_add_capability_def has_capability_eq)
qed

lemma insert_header: "spv_insert ok m at op ops = Inr (k, m') \<Longrightarrow> sm_header m' = sm_header m"
  using reserve_frame(2)[of ok m] by (auto simp: spv_insert_def Let_def split: prod.splits bool.splits if_splits)

lemma find_or_add_header: "find_or_add ok p k op ops m = Inr (t, m') \<Longrightarrow> sm_header m' ! 0 = sm_header m ! 0"
  by (auto simp: find_or_add_def try_then_Inr spv_new_id_def add_global_def dest!: insert_header split: option.splits)

lemma serve_header: "spv_serve ok r m = Inr (t, m') \<Longrightarrow> sm_header m' ! 0 = sm_header m ! 0"
  by (cases r) (auto simp: serve_defs try_then_Inr dest!: find_or_add_header)

lemma room_filter: "has_room (2 + n) m \<Longrightarrow> has_room n (m\<lparr>sm_ins := filter Q (sm_ins m)\<rparr>)"
  using length_filter_le[of Q "sm_ins m"] unfolding has_room_def by (auto simp del: length_filter_le)

lemma edit_step_ok:
  assumes m: "spv_ok m" "has_room (2 + n) m" and ok: "\<forall>i. ok i"
  shows "\<exists>m'. spv_edit_step ok e m = Inr m' \<and> spv_ok m' \<and> has_room n m' \<and> sm_header m' ! 0 = sm_header m ! 0"
proof (cases e)
  case (EditRequest r)
  have "has_room 2 m" using m(2) by (simp add: has_room_def)
  then obtain t m' where m': "spv_serve ok r m = Inr (t, m')" "spv_ok m'" "grows 2 m m'" using serve_ok[OF m(1) _ ok] by blast
  then have "has_room n m'" using m(2) has_room_grows by blast
  moreover have "sm_header m' ! 0 = sm_header m ! 0" using serve_header[OF m'(1)] .
  ultimately show ?thesis using EditRequest m' by simp
next
  case (EditAddCapability cap)
  have "has_room 1 m" using m(2) by (simp add: has_room_def)
  then show ?thesis using add_capability_ok[OF m(1) _ ok, of cap] m(2) EditAddCapability by (auto simp: has_room_def)
next
  case (EditRemoveCapability cap)
  have "spv_ok (m\<lparr>sm_ins := filter (\<lambda>i. \<not> is_inst SpvOpCapability [(0, cap)] i) (sm_ins m)\<rparr>)"
    by (rule spv_ok_filter[OF m(1)]) (simp add: is_inst_def spv_op_defs)
  then show ?thesis using EditRemoveCapability room_filter[OF m(2)] by (simp add: remove_capability_eq[OF m(1)])
next
  case (EditRemoveDecoration t d)
  have "spv_ok (m\<lparr>sm_ins := filter (\<lambda>i. \<not> is_inst SpvOpDecorate [(0, t), (1, d)] i) (sm_ins m)\<rparr>)"
    by (rule spv_ok_filter[OF m(1)]) (simp add: is_inst_def spv_op_defs)
  then show ?thesis using EditRemoveDecoration room_filter[OF m(2)] by (simp add: remove_decoration_eq[OF m(1)])
qed

lemma edits_ok:
  "spv_ok m \<Longrightarrow> has_room (2 * length es) m \<Longrightarrow> \<forall>i. ok i \<Longrightarrow>
   \<exists>m'. spv_edits ok es m = Inr m' \<and> spv_ok m' \<and> sm_header m' ! 0 = sm_header m ! 0"
proof (induction es arbitrary: m)
  case (Cons e es)
  obtain m1 where "spv_edit_step ok e m = Inr m1" "spv_ok m1" "has_room (2 * length es) m1" "sm_header m1 ! 0 = sm_header m ! 0"
    using edit_step_ok[of m "2 * length es" ok e, OF Cons.prems(1) _ Cons.prems(3)] Cons.prems(2) by auto
  moreover from this obtain m' where "spv_edits ok es m1 = Inr m'" "spv_ok m'" "sm_header m' ! 0 = sm_header m1 ! 0"
    using Cons.IH[of m1, OF _ _ Cons.prems(3)] by blast
  ultimately show ?case by simp
qed simp



section \<open>Faults\<close>

text \<open>A module of one float type without its width.\<close>

definition short_float_code :: "u32 list" where
  "short_float_code = [SpvMagic, 0x10300, 0, 2, 0, 0x20016, 1]"

text \<open>
  A float type without a width is accepted by the parser, and a request for a float type then reads
  behind its operands, because the count is compared only after the operand.
\<close>
theorem spv_short_float_overread:
  "\<exists>m. spv_parse (\<lambda>i. True) short_float_code 28 = Inr (True, m) \<and> spv_type_float (\<lambda>i. True) width m = Inl SpvBadRead"
  by (simp add: spv_parse_def short_float_code_def spv_zero_def spv_insert_def spv_reserve_def insert_at_def drop_bit_eq_div
      spv_type_float_def find_or_add_def operand_def spv_op_defs Let_def)

text \<open>
  The count of an entry point that has the largest number of words wraps to zero when an interface variable is added,
  and writing the module then copies without bound.
\<close>

lemma spv_interface_wraps:
  assumes "in_op i = SpvOpEntryPoint" "in_n i = 0xffff" "in_w i = Some w" "ok (sm_allocs m)" "sm_ins m = [i]"
  shows "\<exists>m'. spv_add_interface ok var m = Inr m' \<and> (ok (sm_allocs m') \<longrightarrow> spv_write ok m' = Inl SpvBadRead)"
  using assms by (simp add: spv_add_interface_def extend_inst_def spv_write_def inst_words_def)

end
