(* ===== verification/Handle_Map.thy ===== *)
theory Handle_Map
  imports Hybris_Prelude "HOL-Library.Multiset"
begin

text \<open>
  The handle maps of the Vulkan compatibility layer, \<open>hybris/vulkan/compat/null_map.h\<close>: hash tables with chains that
  grow fourfold.  A locale states what a client may rely on, and the table provides it: to a client the table
  is a finite map, whatever the hash values, the growth and the failures of allocation.
\<close>

section \<open>Definitions\<close>

type_synonym nd_ent = "u64 \<times> u64"

text \<open>\<open>nm_b\<close> are the chains, \<open>None\<close> before the first entry.\<close>

record nd_map =
  nm_b :: "nd_ent list list option"
  nm_mask :: u32
  nm_count :: u32

definition slot_of :: "u32 \<Rightarrow> u64 \<Rightarrow> nat" where
  "slot_of mask_w key = unat ((ucast (drop_bit 40 (key * 0x9e3779b97f4a7c15)) :: u32) AND mask_w)"

definition map_find :: "nd_map \<Rightarrow> u64 \<Rightarrow> u64 option" where
  "map_find m key = (case nm_b m of None \<Rightarrow> None | Some b \<Rightarrow> map_of (b ! slot_of (nm_mask m) key) key)"

definition MAP_MAX_BUCKETS :: u32 where "MAP_MAX_BUCKETS = 0x100000"

text \<open>An entry is put at the front of its chain.\<close>

definition push_entry :: "u32 \<Rightarrow> nd_ent \<Rightarrow> nd_ent list list \<Rightarrow> nd_ent list list" where
  "push_entry mask_w e b = b[slot_of mask_w (fst e) := e # b ! slot_of mask_w (fst e)]"

text \<open>The flag tells whether the larger table could be allocated.\<close>

definition map_grow :: "bool \<Rightarrow> nd_map \<Rightarrow> nd_map" where
  "map_grow ok m =
     (let nb = (nm_mask m + 1) * 4
      in if nb > MAP_MAX_BUCKETS \<or> nb \<le> nm_mask m + 1 then m
         else if \<not> ok then m
         else case nm_b m of
           None \<Rightarrow> m
         | Some b \<Rightarrow> m\<lparr>nm_b := Some (fold (push_entry (nb - 1)) (concat b) (replicate (unat nb) [])), nm_mask := nb - 1\<rparr>)"

text \<open>
  \<open>map_get\<close> with the answers to its allocations: of the table, of a larger table and of the entry.  The result is
  false for a null pointer; otherwise the entry with the key is there.
\<close>

definition map_get :: "(nat \<Rightarrow> bool) \<Rightarrow> u32 \<Rightarrow> nd_map \<Rightarrow> u64 \<Rightarrow> bool \<times> nd_map" where
  "map_get ok buckets m key =
     (let m0 = (if nm_b m = None \<and> ok 0 then m\<lparr>nm_b := Some (replicate (unat buckets) []), nm_mask := buckets - 1\<rparr> else m)
      in if nm_b m0 = None then (False, m0)
         else if map_find m0 key \<noteq> None then (True, m0)
         else let m1 = (if nm_count m0 \<ge> 2 * (nm_mask m0 + 1) then map_grow (ok 1) m0 else m0)
              in if \<not> ok 2 then (False, m1)
                 else (True, m1\<lparr>nm_b := map_option (push_entry (nm_mask m1) (key, 0)) (nm_b m1), nm_count := nm_count m1 + 1\<rparr>))"

text \<open>The assignment of a value to the entry with a key, as in \<open>e->val = v\<close>.\<close>

definition set_entry :: "u64 \<Rightarrow> u64 \<Rightarrow> nd_ent \<Rightarrow> nd_ent" where
  "set_entry key v e = (if fst e = key then (key, v) else e)"

definition map_set :: "nd_map \<Rightarrow> u64 \<Rightarrow> u64 \<Rightarrow> nd_map" where
  "map_set m key v =
     m\<lparr>nm_b := map_option (\<lambda>b. b[slot_of (nm_mask m) key := map (set_entry key v) (b ! slot_of (nm_mask m) key)]) (nm_b m)\<rparr>"

fun unlink_entry :: "u64 \<Rightarrow> nd_ent list \<Rightarrow> nd_ent list" where
  "unlink_entry key [] = []"
| "unlink_entry key (e # es) = (if fst e = key then es else e # unlink_entry key es)"

definition map_take :: "nd_map \<Rightarrow> u64 \<Rightarrow> u64 \<times> nd_map" where
  "map_take m key =
     (case nm_b m of
        None \<Rightarrow> (0, m)
      | Some b \<Rightarrow>
          (case map_of (b ! slot_of (nm_mask m) key) key of
             None \<Rightarrow> (0, m)
           | Some v \<Rightarrow> (v, m\<lparr>nm_b := Some (b[slot_of (nm_mask m) key := unlink_entry key (b ! slot_of (nm_mask m) key)]),
                            nm_count := nm_count m - 1\<rparr>)))"

text \<open>The values that \<open>map_clear\<close> frees, in order, and the empty table.\<close>

definition map_clear :: "nd_map \<Rightarrow> bool \<Rightarrow> u64 list \<times> nd_map" where
  "map_clear m vals =
     (case nm_b m of
        None \<Rightarrow> ([], m\<lparr>nm_count := 0\<rparr>)
      | Some b \<Rightarrow> (if vals then map snd (concat b) else [], m\<lparr>nm_b := Some (map (\<lambda>c. []) b), nm_count := 0\<rparr>))"

definition map_free :: "nd_map \<Rightarrow> bool \<Rightarrow> u64 list \<times> nd_map" where
  "map_free m vals = (fst (map_clear m vals), (snd (map_clear m vals))\<lparr>nm_b := None\<rparr>)"

section \<open>The interface\<close>

text \<open>
  A dictionary with handles as keys.  \<open>get_op\<close> makes a missing entry with value zero and may fail, then it answers
  false; \<open>set_op\<close> writes through the entry that \<open>get_op\<close> returned.
\<close>

locale dictionary =
  fixes inv :: "'m \<Rightarrow> bool"
    and entries :: "'m \<Rightarrow> u64 \<rightharpoonup> u64"
    and find_op :: "'m \<Rightarrow> u64 \<Rightarrow> u64 option"
    and get_op :: "(nat \<Rightarrow> bool) \<Rightarrow> 'm \<Rightarrow> u64 \<Rightarrow> bool \<times> 'm"
    and set_op :: "'m \<Rightarrow> u64 \<Rightarrow> u64 \<Rightarrow> 'm"
    and take_op :: "'m \<Rightarrow> u64 \<Rightarrow> u64 \<times> 'm"
  assumes find_entries: "inv m \<Longrightarrow> find_op m k = entries m k"
    and get_inv: "inv m \<Longrightarrow> inv (snd (get_op ok m k))"
    and get_entries: "inv m \<Longrightarrow> entries (snd (get_op ok m k)) =
      (if fst (get_op ok m k) \<and> entries m k = None then (entries m)(k \<mapsto> 0) else entries m)"
    and get_succeeds: "inv m \<Longrightarrow> \<forall>i. ok i \<Longrightarrow> fst (get_op ok m k)"
    and set_inv: "inv m \<Longrightarrow> entries m k \<noteq> None \<Longrightarrow> inv (set_op m k v)"
    and set_entries: "inv m \<Longrightarrow> entries m k \<noteq> None \<Longrightarrow> entries (set_op m k v) = (entries m)(k \<mapsto> v)"
    and take_inv: "inv m \<Longrightarrow> inv (snd (take_op m k))"
    and take_entries: "inv m \<Longrightarrow> entries (snd (take_op m k)) = (entries m)(k := None)"
    and take_value: "inv m \<Longrightarrow> fst (take_op m k) = (case entries m k of None \<Rightarrow> 0 | Some v \<Rightarrow> v)"
begin

text \<open>The idiom of the clients: get the entry of a key and, if there is one, write its value.\<close>

lemma put_entry:
  assumes "inv m" "get_op ok m k = (b, m1)"
  shows "inv (if b then set_op m1 k v else m1)"
    and "entries (if b then set_op m1 k v else m1) = (if b then (entries m)(k \<mapsto> v) else entries m)"
proof -
  have i: "inv m1" using get_inv[OF assms(1), of ok k] assms(2) by simp
  have e: "entries m1 = (if b \<and> entries m k = None then (entries m)(k \<mapsto> 0) else entries m)"
    using get_entries[OF assms(1), of ok k] assms(2) by simp
  then have present: "b \<Longrightarrow> entries m1 k \<noteq> None" by auto
  then show "inv (if b then set_op m1 k v else m1)" using i set_inv[OF i] by simp
  show "entries (if b then set_op m1 k v else m1) = (if b then (entries m)(k \<mapsto> v) else entries m)"
    using present set_entries[OF i] e by auto
qed

lemma take_missing: "inv m \<Longrightarrow> entries m k = None \<Longrightarrow> entries (snd (take_op m k)) = entries m"
  by (simp add: take_entries fun_upd_idem)

end

section \<open>The table is a finite map\<close>

definition nd_entries :: "nd_map \<Rightarrow> u64 \<rightharpoonup> u64" where
  "nd_entries m = (case nm_b m of None \<Rightarrow> Map.empty | Some b \<Rightarrow> map_of (concat b))"

text \<open>Every entry is in the chain of its key, no key occurs twice, and the count is right as long as it fits.\<close>

definition chains_ok :: "u32 \<Rightarrow> nd_ent list list \<Rightarrow> bool" where
  "chains_ok mask_w b \<longleftrightarrow> length b = Suc (unat mask_w) \<and> (\<forall>j < length b. \<forall>e \<in> set (b ! j). slot_of mask_w (fst e) = j) \<and>
     distinct (map fst (concat b))"

definition nd_ok :: "nd_map \<Rightarrow> bool" where
  "nd_ok m \<longleftrightarrow> (case nm_b m of
      None \<Rightarrow> nm_count m = 0
    | Some b \<Rightarrow> chains_ok (nm_mask m) b \<and> nm_count m = of_nat (length (concat b)))"

lemma chains_len: "chains_ok mask_w b \<Longrightarrow> length b = Suc (unat mask_w)"
  unfolding chains_ok_def by blast

lemma chains_distinct: "chains_ok mask_w b \<Longrightarrow> distinct (map fst (concat b))"
  unfolding chains_ok_def by blast

lemma slot_less: "slot_of mask_w key < Suc (unat mask_w)"
proof -
  have "unat (x AND mask_w) \<le> unat mask_w" for x :: u32 by (simp add: word_and_le1 flip: word_le_nat_alt)
  then show ?thesis by (simp add: slot_of_def less_Suc_eq_le)
qed

lemma mset_concat_update: "j < length b \<Longrightarrow> mset (concat (b[j := c])) + mset (b ! j) = mset (concat b) + mset c"
proof (induction b arbitrary: j)
  case (Cons a b)
  then show ?case by (cases j) (simp_all add: ac_simps)
qed simp

lemma map_of_mset:
  assumes "mset xs = mset ys" "distinct (map fst xs)"
  shows "map_of xs = map_of ys" "distinct (map fst ys)"
proof -
  have "mset (map fst xs) = mset (map fst ys)" using assms(1) by (simp only: mset_map)
  then show d: "distinct (map fst ys)" using assms(2) by (metis mset_eq_imp_distinct_iff)
  show "map_of xs = map_of ys" using map_of_inject_set[OF assms(2) d] mset_eq_setD[OF assms(1)] by blast
qed

lemma chain_lookup:
  assumes "chains_ok mask_w b"
  shows "map_of (b ! slot_of mask_w key) key = map_of (concat b) key"
proof (cases "map_of (concat b) key")
  case None
  have "slot_of mask_w key < length b" using chains_len[OF assms] slot_less by simp
  then have "set (b ! slot_of mask_w key) \<subseteq> set (concat b)" using nth_mem by fastforce
  moreover have "key \<notin> fst ` set (concat b)" using None map_of_eq_None_iff[of "concat b" key] by blast
  ultimately have "key \<notin> fst ` set (b ! slot_of mask_w key)" by blast
  then show ?thesis unfolding None using map_of_eq_None_iff[of "b ! slot_of mask_w key" key] by blast
next
  case (Some v)
  then have "(key, v) \<in> set (concat b)" by (rule map_of_SomeD)
  then obtain c where c: "c \<in> set b" "(key, v) \<in> set c" by auto
  then obtain j where j: "j < length b" "(key, v) \<in> set (b ! j)" unfolding in_set_conv_nth[of c b] by blast
  then have "slot_of mask_w (fst (key, v)) = j" using assms unfolding chains_ok_def by blast
  then have slot: "slot_of mask_w key = j" by simp
  have "distinct (concat (map (map fst) b))" using chains_distinct[OF assms] by (simp only: map_concat)
  then have "distinct (map fst (b ! j))" using j(1) by (simp only: distinct_concat_iff) simp
  then have "map_of (b ! j) key = Some v" using j(2) by (rule map_of_is_SomeI)
  then show ?thesis unfolding slot Some .
qed

lemma find_ok: "nd_ok m \<Longrightarrow> map_find m key = nd_entries m key"
  by (auto simp: nd_ok_def map_find_def nd_entries_def chain_lookup split: option.splits)

lemma push_entry_ok:
  assumes "chains_ok mask_w b" "fst e \<notin> fst ` set (concat b)"
  shows "chains_ok mask_w (push_entry mask_w e b)" "mset (concat (push_entry mask_w e b)) = add_mset e (mset (concat b))"
proof -
  let ?j = "slot_of mask_w (fst e)"
  have j: "?j < length b" using chains_len[OF assms(1)] slot_less by simp
  have slots: "\<forall>k < length b. \<forall>x \<in> set (b ! k). slot_of mask_w (fst x) = k" using assms(1) unfolding chains_ok_def by blast
  show ms: "mset (concat (push_entry mask_w e b)) = add_mset e (mset (concat b))"
    using mset_concat_update[OF j, of "e # b ! ?j"] by (simp add: push_entry_def)
  have "distinct (map fst (e # concat b))" using chains_distinct[OF assms(1)] assms(2) by simp
  moreover have "mset (e # concat b) = mset (concat (push_entry mask_w e b))" using ms by simp
  ultimately have dist: "distinct (map fst (concat (push_entry mask_w e b)))" using map_of_mset(2) by blast
  have in_slot: "slot_of mask_w (fst x) = k" if "k < length b" "x \<in> set (push_entry mask_w e b ! k)" for k x
  proof (cases "k = ?j")
    case True
    then have "x = e \<or> x \<in> set (b ! k)" using that j by (simp add: push_entry_def)
    then show ?thesis using True slots that(1) by blast
  next
    case False
    then have "x \<in> set (b ! k)" using that by (simp add: push_entry_def)
    then show ?thesis using slots that(1) by blast
  qed
  have len: "length (push_entry mask_w e b) = length b" "length b = Suc (unat mask_w)" using chains_len[OF assms(1)] by (simp_all add: push_entry_def)
  show "chains_ok mask_w (push_entry mask_w e b)" unfolding chains_ok_def len(1) using len(2) in_slot dist by blast
qed

lemma rehash_ok:
  "chains_ok mask_w b \<Longrightarrow> distinct (map fst (es @ concat b)) \<Longrightarrow>
   chains_ok mask_w (fold (push_entry mask_w) es b) \<and> mset (concat (fold (push_entry mask_w) es b)) = mset es + mset (concat b)"
proof (induction es arbitrary: b)
  case (Cons e es)
  have new: "fst e \<notin> fst ` set (concat b)" using Cons.prems(2) by auto
  note p = push_entry_ok[OF Cons.prems(1) new]
  have "mset (e # es @ concat b) = mset (es @ concat (push_entry mask_w e b))" using p(2) by simp
  then have "distinct (map fst (es @ concat (push_entry mask_w e b)))" by (rule map_of_mset(2)) (use Cons.prems(2) in simp)
  from Cons.IH[OF p(1) this] show ?case using p(2) by simp
qed simp

lemma chains_ok_empty: "n = Suc (unat mask_w) \<Longrightarrow> chains_ok mask_w (replicate n [])"
  by (auto simp: chains_ok_def concat_replicate_trivial simp del: replicate_Suc)

lemma unat_pred: "(x :: u32) \<noteq> 0 \<Longrightarrow> unat x = Suc (unat (x - 1))"
  by (simp add: unat_minus_one unat_gt_0)

lemma grow_ok:
  assumes "nd_ok m"
  shows "nd_ok (map_grow ok m)" "nd_entries (map_grow ok m) = nd_entries m" "nm_b m \<noteq> None \<Longrightarrow> nm_b (map_grow ok m) \<noteq> None"
proof -
  define nb where "nb = (nm_mask m + 1) * 4"
  have "nd_ok (map_grow ok m) \<and> nd_entries (map_grow ok m) = nd_entries m \<and> (nm_b m \<noteq> None \<longrightarrow> nm_b (map_grow ok m) \<noteq> None)"
  proof (cases "nb > MAP_MAX_BUCKETS \<or> nb \<le> nm_mask m + 1 \<or> \<not> ok \<or> nm_b m = None")
    case True
    then have "map_grow ok m = m" unfolding map_grow_def Let_def nb_def[symmetric] by auto
    then show ?thesis using assms by simp
  next
    case False
    then obtain b where b: "nm_b m = Some b" by blast
    define g where "g = fold (push_entry (nb - 1)) (concat b) (replicate (unat nb) [])"
    have run: "map_grow ok m = m\<lparr>nm_b := Some g, nm_mask := nb - 1\<rparr>"
      using False b unfolding map_grow_def Let_def nb_def[symmetric] g_def by simp
    have m: "chains_ok (nm_mask m) b" "nm_count m = of_nat (length (concat b))" using assms b by (simp_all add: nd_ok_def)
    have "nb \<noteq> 0" using False word_zero_le by blast
    then have e: "chains_ok (nb - 1) (replicate (unat nb) [])" by (intro chains_ok_empty unat_pred)
    have d: "distinct (map fst (concat b @ concat (replicate (unat nb) [])))" using chains_distinct[OF m(1)] by (simp add: concat_replicate_trivial)
    have g: "chains_ok (nb - 1) g" "mset (concat g) = mset (concat b)"
      using rehash_ok[OF e d] unfolding g_def[symmetric] by (simp_all add: concat_replicate_trivial)
    have "map_of (concat g) = map_of (concat b)" using map_of_mset(1)[OF g(2) chains_distinct[OF g(1)]] .
    moreover have "length (concat g) = length (concat b)" using g(2) by (rule mset_eq_length)
    ultimately show ?thesis using g(1) m(2) b unfolding run by (simp add: nd_ok_def nd_entries_def)
  qed
  then show "nd_ok (map_grow ok m)" "nd_entries (map_grow ok m) = nd_entries m" "nm_b m \<noteq> None \<Longrightarrow> nm_b (map_grow ok m) \<noteq> None" by blast+
qed

lemma add_entry_ok:
  assumes "nd_ok m" "nm_b m \<noteq> None" "nd_entries m key = None"
  defines "m' \<equiv> m\<lparr>nm_b := map_option (push_entry (nm_mask m) (key, 0)) (nm_b m), nm_count := nm_count m + 1\<rparr>"
  shows "nd_ok m'" "nd_entries m' = (nd_entries m)(key \<mapsto> 0)"
proof -
  obtain b where b: "nm_b m = Some b" using assms(2) by blast
  have m: "chains_ok (nm_mask m) b" "nm_count m = of_nat (length (concat b))" using assms(1) b by (simp_all add: nd_ok_def)
  have new: "fst (key, 0) \<notin> fst ` set (concat b)" using assms(3) b by (simp add: nd_entries_def map_of_eq_None_iff)
  note p = push_entry_ok[OF m(1) new]
  have "length (concat (push_entry (nm_mask m) (key, 0) b)) = Suc (length (concat b))" using arg_cong[OF p(2), of size] by (simp only: size_mset size_add_mset)
  then show "nd_ok m'" using p(1) m b by (simp add: nd_ok_def m'_def)
  have "mset (concat (push_entry (nm_mask m) (key, 0) b)) = mset ((key, 0) # concat b)" using p(2) by simp
  then have "map_of (concat (push_entry (nm_mask m) (key, 0) b)) = map_of ((key, 0) # concat b)"
    using chains_distinct[OF p(1)] by (rule map_of_mset(1))
  then show "nd_entries m' = (nd_entries m)(key \<mapsto> 0)" using b by (simp add: nd_entries_def m'_def)
qed

lemma get_ok:
  assumes m: "nd_ok m" and buckets: "buckets \<noteq> 0"
  shows "nd_ok (snd (map_get ok buckets m key))"
    and "nd_entries (snd (map_get ok buckets m key)) =
      (if fst (map_get ok buckets m key) \<and> nd_entries m key = None then (nd_entries m)(key \<mapsto> 0) else nd_entries m)"
    and "\<forall>i. ok i \<Longrightarrow> fst (map_get ok buckets m key)"
proof -
  define m0 where "m0 = (if nm_b m = None \<and> ok 0 then m\<lparr>nm_b := Some (replicate (unat buckets) []), nm_mask := buckets - 1\<rparr> else m)"
  have "unat buckets = Suc (unat (buckets - 1))" using buckets by (rule unat_pred)
  then have "chains_ok (buckets - 1) (replicate (unat buckets) [])" by (rule chains_ok_empty)
  then have m0: "nd_ok m0" "nd_entries m0 = nd_entries m" "ok 0 \<Longrightarrow> nm_b m0 \<noteq> None"
    using m by (auto simp: m0_def nd_ok_def nd_entries_def concat_replicate_trivial split: option.splits)
  define m1 where "m1 = (if nm_count m0 \<ge> 2 * (nm_mask m0 + 1) then map_grow (ok 1) m0 else m0)"
  have m1: "nd_ok m1" "nd_entries m1 = nd_entries m" "nm_b m0 \<noteq> None \<Longrightarrow> nm_b m1 \<noteq> None"
    using m0 grow_ok[OF m0(1), of "ok 1"] by (simp_all add: m1_def)
  have run: "map_get ok buckets m key = (if nm_b m0 = None then (False, m0) else if map_find m0 key \<noteq> None then (True, m0)
      else if \<not> ok 2 then (False, m1)
      else (True, m1\<lparr>nm_b := map_option (push_entry (nm_mask m1) (key, 0)) (nm_b m1), nm_count := nm_count m1 + 1\<rparr>))"
    unfolding map_get_def Let_def m0_def[symmetric] m1_def[symmetric] ..
  have find: "map_find m0 key = nd_entries m key" using find_ok[OF m0(1)] m0(2) by simp
  note add = add_entry_ok[OF m1(1), of key]
  consider "nm_b m0 = None" | "nm_b m0 \<noteq> None" "nd_entries m key \<noteq> None" | "nm_b m0 \<noteq> None" "nd_entries m key = None" "\<not> ok 2"
    | "nm_b m0 \<noteq> None" "nd_entries m key = None" "ok 2" by blast
  then have "nd_ok (snd (map_get ok buckets m key)) \<and> nd_entries (snd (map_get ok buckets m key)) =
      (if fst (map_get ok buckets m key) \<and> nd_entries m key = None then (nd_entries m)(key \<mapsto> 0) else nd_entries m)"
  proof cases
    case 1
    then show ?thesis using m0(1,2) unfolding run by simp
  next
    case 2
    then obtain b v where "nm_b m0 = Some b" "nd_entries m key = Some v" by blast
    then show ?thesis using m0(1,2) unfolding run find by simp
  next
    case 3
    then obtain b where "nm_b m0 = Some b" by blast
    then show ?thesis using 3 m1(1,2) unfolding run find by simp
  next
    case 4
    then obtain b where b: "nm_b m0 = Some b" by blast
    have "nm_b m1 \<noteq> None" "nd_entries m1 key = None" using 4 m1 by simp_all
    note new = add[OF this]
    show ?thesis using 4(2,3) b new m1(2) unfolding run find by simp
  qed
  then show "nd_ok (snd (map_get ok buckets m key))" "nd_entries (snd (map_get ok buckets m key)) =
      (if fst (map_get ok buckets m key) \<and> nd_entries m key = None then (nd_entries m)(key \<mapsto> 0) else nd_entries m)" by blast+
  show "fst (map_get ok buckets m key)" if all: "\<forall>i. ok i"
  proof -
    have "ok 0" "ok 2" using all by blast+
    then obtain b where "nm_b m0 = Some b" using m0(3) by blast
    then show ?thesis using \<open>ok 2\<close> unfolding run by simp
  qed
qed

text \<open>A change of the chain of a key that leaves other keys alone is the same change of all chains.\<close>

lemma chain_update_all:
  assumes "chains_ok mask_w b" "\<And>c. \<forall>e \<in> set c. fst e \<noteq> key \<Longrightarrow> f c = c"
  shows "b[slot_of mask_w key := f (b ! slot_of mask_w key)] = map f b"
proof (rule nth_equalityI)
  fix k assume k: "k < length (b[slot_of mask_w key := f (b ! slot_of mask_w key)])"
  show "b[slot_of mask_w key := f (b ! slot_of mask_w key)] ! k = map f b ! k"
  proof (cases "k = slot_of mask_w key")
    case False
    have "\<forall>e \<in> set (b ! k). slot_of mask_w (fst e) = k" using assms(1) k unfolding chains_ok_def by simp
    then have "\<forall>e \<in> set (b ! k). fst e \<noteq> key" using False by metis
    from assms(2)[OF this] show ?thesis using False k by simp
  qed (use k in simp)
qed simp

lemma chains_ok_map:
  assumes "chains_ok mask_w b" "\<And>c e. e \<in> set (f c) \<Longrightarrow> fst e \<in> fst ` set c" "distinct (map fst (concat (map f b)))"
  shows "chains_ok mask_w (map f b)"
  unfolding chains_ok_def
proof (intro conjI allI impI ballI)
  fix k e assume k: "k < length (map f b)" "e \<in> set (map f b ! k)"
  then obtain x where "x \<in> set (b ! k)" "fst e = fst x" using assms(2)[of e "b ! k"] by auto
  then show "slot_of mask_w (fst e) = k" using assms(1) k(1) unfolding chains_ok_def by simp
qed (use assms(3) chains_len[OF assms(1)] in simp_all)

lemma set_ok:
  assumes "nd_ok m" "nd_entries m key \<noteq> None"
  shows "nd_ok (map_set m key v)" "nd_entries (map_set m key v) = (nd_entries m)(key \<mapsto> v)"
proof -
  obtain b where b: "nm_b m = Some b" using assms(2) by (auto simp: nd_entries_def split: option.splits)
  have m: "chains_ok (nm_mask m) b" "nm_count m = of_nat (length (concat b))" using assms(1) b by (simp_all add: nd_ok_def)
  have "map (set_entry key v) c = c" if "\<forall>e \<in> set c. fst e \<noteq> key" for c using that by (induction c) (auto simp: set_entry_def)
  then have run: "map_set m key v = m\<lparr>nm_b := Some (map (map (set_entry key v)) b)\<rparr>"
    using chain_update_all[OF m(1), of key "map (set_entry key v)"] b by (simp add: map_set_def)
  have cat: "concat (map (map (set_entry key v)) b) = map (set_entry key v) (concat b)" by (simp add: map_concat)
  have fst: "fst \<circ> set_entry key v = fst" by (auto simp: set_entry_def)
  have "chains_ok (nm_mask m) (map (map (set_entry key v)) b)"
  proof (rule chains_ok_map[OF m(1)])
    show "distinct (map fst (concat (map (map (set_entry key v)) b)))" unfolding cat map_map fst using chains_distinct[OF m(1)] .
    show "fst e \<in> fst ` set c" if "e \<in> set (map (set_entry key v) c)" for c e using that by (force simp: set_entry_def split: if_splits)
  qed
  then show "nd_ok (map_set m key v)" using m(2) unfolding run by (simp add: nd_ok_def cat)
  have "map_of (map (set_entry key v) es) = (\<lambda>k. if k = key \<and> map_of es key \<noteq> None then Some v else map_of es k)" for es
    by (induction es) (auto simp: set_entry_def fun_eq_iff)
  then have "map_of (map (set_entry key v) (concat b)) = (map_of (concat b))(key \<mapsto> v)"
    using assms(2) b by (auto simp: nd_entries_def fun_eq_iff)
  then show "nd_entries (map_set m key v) = (nd_entries m)(key \<mapsto> v)" using b unfolding run by (simp add: nd_entries_def cat)
qed

lemma unlink_filter: "distinct (map fst c) \<Longrightarrow> unlink_entry key c = filter (\<lambda>e. fst e \<noteq> key) c"
proof (induction c)
  case (Cons e c)
  have "filter (\<lambda>e. fst e \<noteq> key) c = c" if "key \<notin> fst ` set c" using that by (induction c) auto
  then show ?case using Cons by auto
qed simp

lemma map_of_remove: "map_of (filter (\<lambda>e. fst e \<noteq> key) es) = (map_of es)(key := None)"
  by (induction es) (auto simp: fun_eq_iff)

lemma length_remove: "distinct (map fst es) \<Longrightarrow> map_of es key = Some v \<Longrightarrow> length es = Suc (length (filter (\<lambda>e. fst e \<noteq> key) es))"
proof (induction es)
  case (Cons e es)
  have "filter (\<lambda>e. fst e \<noteq> key) es = es" if "key \<notin> fst ` set es" using that by (induction es) auto
  then show ?case using Cons by (auto split: if_splits)
qed simp

lemma distinct_filter_keys: "distinct (map fst es) \<Longrightarrow> distinct (map fst (filter P es))"
  by (induction es) auto

lemma filter_ok:
  assumes "chains_ok mask_w b"
  shows "chains_ok mask_w (map (filter P) b)"
proof (rule chains_ok_map[OF assms])
  have "concat (map (filter P) b) = filter P (concat b)" by (simp add: filter_concat)
  then show "distinct (map fst (concat (map (filter P) b)))" using distinct_filter_keys[OF chains_distinct[OF assms]] by simp
qed auto

lemma take_ok:
  assumes "nd_ok m"
  shows "nd_ok (snd (map_take m key))" "nd_entries (snd (map_take m key)) = (nd_entries m)(key := None)"
    "fst (map_take m key) = (case nd_entries m key of None \<Rightarrow> 0 | Some v \<Rightarrow> v)"
proof -
  have "nd_ok (snd (map_take m key)) \<and> nd_entries (snd (map_take m key)) = (nd_entries m)(key := None) \<and>
      fst (map_take m key) = (case nd_entries m key of None \<Rightarrow> 0 | Some v \<Rightarrow> v)"
  proof (cases "nd_entries m key")
    case None
    have "map_take m key = (0, m)"
      using find_ok[OF assms, of key] None by (auto simp: map_take_def map_find_def split: option.splits)
    then show ?thesis using assms None by (simp add: fun_upd_idem)
  next
    case (Some v)
    then obtain b where b: "nm_b m = Some b" by (auto simp: nd_entries_def split: option.splits)
    have m: "chains_ok (nm_mask m) b" "nm_count m = of_nat (length (concat b))" using assms b by (simp_all add: nd_ok_def)
    have found: "map_of (concat b) key = Some v" using Some b by (simp add: nd_entries_def)
    let ?f = "filter (\<lambda>e. fst e \<noteq> key)" and ?j = "slot_of (nm_mask m) key"
    have "?j < length b" using chains_len[OF m(1)] slot_less by simp
    moreover have "distinct (concat (map (map fst) b))" using chains_distinct[OF m(1)] by (simp only: map_concat)
    ultimately have "distinct (map fst (b ! ?j))" by (simp only: distinct_concat_iff) simp
    then have "unlink_entry key (b ! ?j) = ?f (b ! ?j)" by (rule unlink_filter)
    moreover have "?f c = c" if "\<forall>e \<in> set c. fst e \<noteq> key" for c using that by (induction c) auto
    ultimately have upd: "b[?j := unlink_entry key (b ! ?j)] = map ?f b" using chain_update_all[OF m(1), of key ?f] by simp
    have run: "map_take m key = (v, m\<lparr>nm_b := Some (map ?f b), nm_count := nm_count m - 1\<rparr>)"
      using chain_lookup[OF m(1), of key] found b upd by (simp add: map_take_def)
    have cat: "concat (map ?f b) = ?f (concat b)" by (simp add: filter_concat)
    have "nm_count m - 1 = of_nat (length (?f (concat b)))"
      using length_remove[OF chains_distinct[OF m(1)] found] m(2) by simp
    then show ?thesis using filter_ok[OF m(1)] Some b unfolding run
      by (simp add: nd_ok_def nd_entries_def cat map_of_remove)
  qed
  then show "nd_ok (snd (map_take m key))" "nd_entries (snd (map_take m key)) = (nd_entries m)(key := None)"
    "fst (map_take m key) = (case nd_entries m key of None \<Rightarrow> 0 | Some v \<Rightarrow> v)" by blast+
qed

lemma nd_dictionary: "buckets \<noteq> 0 \<Longrightarrow> dictionary nd_ok nd_entries map_find (\<lambda>ok. map_get ok buckets) map_set map_take"
  by unfold_locales (simp_all add: find_ok get_ok set_ok take_ok)

text \<open>The tables of descriptor sets, of other objects and of queues start with different numbers of chains.\<close>

interpretation set_map: dictionary nd_ok nd_entries map_find "\<lambda>ok. map_get ok 8192" map_set map_take
  by (rule nd_dictionary) simp

interpretation object_map: dictionary nd_ok nd_entries map_find "\<lambda>ok. map_get ok 1024" map_set map_take
  by (rule nd_dictionary) simp

interpretation queue_map: dictionary nd_ok nd_entries map_find "\<lambda>ok. map_get ok 64" map_set map_take
  by (rule nd_dictionary) simp

subsection \<open>Runs of operations\<close>

lemma clear_ok:
  assumes "nd_ok m"
  shows "nd_ok (snd (map_clear m vals))" "nd_entries (snd (map_clear m vals)) = Map.empty"
    and "nd_ok (snd (map_free m vals))" "nd_entries (snd (map_free m vals)) = Map.empty"
proof -
  have clear: "nd_ok (snd (map_clear m vals)) \<and> nd_entries (snd (map_clear m vals)) = Map.empty \<and> nm_count (snd (map_clear m vals)) = 0"
  proof (cases "nm_b m")
    case None
    then show ?thesis by (simp add: map_clear_def nd_ok_def nd_entries_def)
  next
    case (Some b)
    have b: "chains_ok (nm_mask m) b" using assms Some by (simp add: nd_ok_def)
    have cat: "concat (map (\<lambda>c. []) b) = []" by (induction b) simp_all
    have "distinct (map fst (concat (map (\<lambda>c. []) b)))" unfolding cat by simp
    from chains_ok_map[OF b _ this] have "chains_ok (nm_mask m) (map (\<lambda>c. []) b)" by simp
    then show ?thesis using Some by (simp add: map_clear_def nd_ok_def nd_entries_def cat)
  qed
  then show "nd_ok (snd (map_clear m vals))" "nd_entries (snd (map_clear m vals)) = Map.empty"
    "nd_ok (snd (map_free m vals))" "nd_entries (snd (map_free m vals)) = Map.empty"
    by (simp_all add: map_free_def nd_ok_def nd_entries_def)
qed

datatype map_op = MFind u64 | MPut u64 u64 | MTake u64 | MClear bool

text \<open>A call of a client with the answers to its allocations; a put is \<open>map_get\<close> and a write through the entry.\<close>

fun map_step :: "u32 \<Rightarrow> (nat \<Rightarrow> bool) \<Rightarrow> map_op \<Rightarrow> nd_map \<Rightarrow> u64 option \<times> nd_map" where
  "map_step buckets ok (MFind k) m = (map_find m k, m)"
| "map_step buckets ok (MPut k v) m =
     (case map_get ok buckets m k of (b, m1) \<Rightarrow> (if b then Some v else None, if b then map_set m1 k v else m1))"
| "map_step buckets ok (MTake k) m = (case map_take m k of (v, m1) \<Rightarrow> (Some v, m1))"
| "map_step buckets ok (MClear vals) m = (None, snd (map_clear m vals))"

fun map_run :: "u32 \<Rightarrow> ((nat \<Rightarrow> bool) \<times> map_op) list \<Rightarrow> nd_map \<Rightarrow> u64 option list \<times> nd_map" where
  "map_run buckets [] m = ([], m)"
| "map_run buckets ((ok, op) # ops) m =
     (case map_step buckets ok op m of (a, m1) \<Rightarrow> case map_run buckets ops m1 of (as, m2) \<Rightarrow> (a # as, m2))"

text \<open>The same calls on a finite map; a put that is refused has no effect.\<close>

fun spec_step :: "bool \<Rightarrow> map_op \<Rightarrow> (u64 \<rightharpoonup> u64) \<Rightarrow> u64 option \<times> (u64 \<rightharpoonup> u64)" where
  "spec_step b (MFind k) f = (f k, f)"
| "spec_step b (MPut k v) f = (if b then Some v else None, if b then f(k \<mapsto> v) else f)"
| "spec_step b (MTake k) f = (Some (case f k of None \<Rightarrow> 0 | Some v \<Rightarrow> v), f(k := None))"
| "spec_step b (MClear vals) f = (None, Map.empty)"

fun spec_run :: "(bool \<times> map_op) list \<Rightarrow> (u64 \<rightharpoonup> u64) \<Rightarrow> u64 option list \<times> (u64 \<rightharpoonup> u64)" where
  "spec_run [] f = ([], f)"
| "spec_run ((b, op) # ops) f = (case spec_step b op f of (a, f1) \<Rightarrow> case spec_run ops f1 of (as, f2) \<Rightarrow> (a # as, f2))"

lemmas put_ok = dictionary.put_entry[OF nd_dictionary]

lemma map_step_refines:
  assumes "nd_ok m" "buckets \<noteq> 0"
  shows "\<exists>b. ((\<forall>i. ok i) \<longrightarrow> b) \<and> spec_step b op (nd_entries m) = map_prod (\<lambda>a. a) nd_entries (map_step buckets ok op m) \<and>
    nd_ok (snd (map_step buckets ok op m))"
proof (cases op)
  case (MFind k)
  then show ?thesis using assms(1) find_ok[OF assms(1)] by auto
next
  case (MPut k v)
  obtain b m1 where g: "map_get ok buckets m k = (b, m1)" by (cases "map_get ok buckets m k")
  have "(\<forall>i. ok i) \<longrightarrow> b" using get_ok(3)[OF assms, of ok k] g by simp
  then show ?thesis using MPut g put_ok[OF assms(2,1) g, of v] by (intro exI[of _ b]) simp
next
  case (MTake k)
  obtain v m1 where g: "map_take m k = (v, m1)" by (cases "map_take m k")
  show ?thesis using MTake g take_ok[OF assms(1), of k] by (intro exI[of _ True]) simp
next
  case (MClear vals)
  then show ?thesis using clear_ok(1,2)[OF assms(1), of vals] by (intro exI[of _ True]) simp
qed

text \<open>
  C15: The table refines a finite map: for any sequence of finds, puts, takes and clears, and whichever allocations
  fail, the answers and the entries are those of the same calls on a finite map, where a put without a failed
  allocation always takes effect.
\<close>
theorem handle_map_refines:
  assumes "nd_ok m" "buckets \<noteq> 0"
  shows "\<exists>bs. length bs = length ops \<and> (\<forall>j < length ops. (\<forall>i. fst (ops ! j) i) \<longrightarrow> bs ! j) \<and>
    spec_run (zip bs (map snd ops)) (nd_entries m) = map_prod (\<lambda>as. as) nd_entries (map_run buckets ops m) \<and> nd_ok (snd (map_run buckets ops m))"
  using assms(1)
proof (induction ops arbitrary: m)
  case (Cons c ops)
  obtain ok op where c: "c = (ok, op)" by (cases c)
  obtain a m1 where s: "map_step buckets ok op m = (a, m1)" by (cases "map_step buckets ok op m")
  obtain b where b: "(\<forall>i. ok i) \<longrightarrow> b" "spec_step b op (nd_entries m) = (a, nd_entries m1)" "nd_ok m1"
    using map_step_refines[OF Cons.prems assms(2), of ok op] s by auto
  obtain bs where bs: "length bs = length ops" "\<forall>j < length ops. (\<forall>i. fst (ops ! j) i) \<longrightarrow> bs ! j"
    "spec_run (zip bs (map snd ops)) (nd_entries m1) = map_prod (\<lambda>as. as) nd_entries (map_run buckets ops m1)" "nd_ok (snd (map_run buckets ops m1))"
    using Cons.IH[OF b(3)] by blast
  have "\<forall>j < length (c # ops). (\<forall>i. fst ((c # ops) ! j) i) \<longrightarrow> (b # bs) ! j"
    using bs(2) b(1) c by (simp add: All_less_Suc2)
  moreover have "spec_run (zip (b # bs) (map snd (c # ops))) (nd_entries m) = map_prod (\<lambda>as. as) nd_entries (map_run buckets (c # ops) m)"
    using b(2) bs(3) s c by (simp add: case_prod_beta map_prod_def)
  moreover have "nd_ok (snd (map_run buckets (c # ops) m))" using bs(4) s c by (simp add: case_prod_beta)
  ultimately show ?case using bs(1) by (intro exI[of _ "b # bs"]) simp
qed simp

definition empty_map :: nd_map where
  "empty_map = \<lparr>nm_b = None, nm_mask = 0, nm_count = 0\<rparr>"

lemma empty_map_ok: "nd_ok empty_map" "nd_entries empty_map = Map.empty"
  by (simp_all add: empty_map_def nd_ok_def nd_entries_def)

theorem handle_map_refines_witness:
  "fst (map_run 64 [(\<lambda>i. True, MPut 5 7), (\<lambda>i. True, MFind 5), (\<lambda>i. True, MTake 5), (\<lambda>i. True, MFind 5)] empty_map) = [Some 7, Some 7, Some 7, None]"
proof -
  let ?ops = "[(\<lambda>i. True, MPut 5 7), (\<lambda>i. True, MFind 5), (\<lambda>i. True, MTake 5), (\<lambda>i. True, MFind 5)] :: ((nat \<Rightarrow> bool) \<times> map_op) list"
  obtain bs where bs: "length bs = length ?ops" "\<forall>j < length ?ops. (\<forall>i. fst (?ops ! j) i) \<longrightarrow> bs ! j"
    "spec_run (zip bs (map snd ?ops)) (nd_entries empty_map) = map_prod (\<lambda>as. as) nd_entries (map_run 64 ?ops empty_map)"
    using handle_map_refines[OF empty_map_ok(1), of 64 ?ops] by auto
  have "bs ! 0" "bs ! 1" "bs ! 2" "bs ! 3" using bs(2) by simp_all
  moreover obtain b0 b1 b2 b3 where "bs = [b0, b1, b2, b3]" using bs(1) by (auto simp: length_Suc_conv)
  ultimately have "bs = [True, True, True, True]" by simp
  then have "map_prod (\<lambda>as. as) nd_entries (map_run 64 ?ops empty_map) = spec_run (zip [True, True, True, True] (map snd ?ops)) Map.empty"
    using bs(3) empty_map_ok(2) by simp
  then have "fst (map_prod (\<lambda>as. as) nd_entries (map_run 64 ?ops empty_map)) = [Some 7, Some 7, Some 7, None]" by simp
  then show ?thesis by simp
qed

end
