(* ===== verification/Null_Descriptors.thy ===== *)
theory Null_Descriptors
  imports Handle_Map
begin

text \<open>
  The descriptor sets that the Vulkan compatibility layer tracks: \<open>set_layout\<close>, \<open>nd_AllocateDescriptorSets\<close>,
  \<open>forget_pool\<close>, \<open>nd_FreeDescriptorSets\<close>, \<open>nd_ResetDescriptorPool\<close> and \<open>nd_DestroyDescriptorPool\<close> of
  \<open>hybris/vulkan/compat/null_descriptors.c\<close>.  Two tables hold the layout and the pool of each live set.  Called one
  after the other the operations keep them exact; called from several threads a set can be forgotten that is
  in use, because the driver frees handles before the tables forget them.
\<close>

section \<open>Definitions\<close>

record nd_tables =
  nt_sets :: nd_map
  nt_set_pools :: nd_map
  nt_lost :: bool

definition set_layout :: "nd_tables \<Rightarrow> u64 \<Rightarrow> u64" where
  "set_layout t s = (case map_find (nt_sets t) s of Some l \<Rightarrow> l | None \<Rightarrow> 0)"

text \<open>\<open>map_get\<close> and, if there is an entry, the write of its value.\<close>

definition put_handle :: "(nat \<Rightarrow> bool) \<Rightarrow> u64 \<Rightarrow> u64 \<Rightarrow> nd_map \<Rightarrow> bool \<times> nd_map" where
  "put_handle ok key v m = (case map_get ok 8192 m key of (b, m1) \<Rightarrow> (b, if b then map_set m1 key v else m1))"

text \<open>
  The loop of \<open>nd_AllocateDescriptorSets\<close> over the new sets and their layouts; \<open>ok i False\<close> and \<open>ok i True\<close> are the
  allocations that round \<open>i\<close> makes for the two tables.
\<close>

fun record_sets :: "(nat \<Rightarrow> bool \<Rightarrow> nat \<Rightarrow> bool) \<Rightarrow> u64 \<Rightarrow> nat \<Rightarrow> (u64 \<times> u64) list \<Rightarrow> nd_tables \<Rightarrow> nd_tables" where
  "record_sets ok pool i [] t = t"
| "record_sets ok pool i ((s, layout) # sls) t =
     (case put_handle (ok i False) s layout (nt_sets t) of (e, sets) \<Rightarrow>
      case put_handle (ok i True) s pool (nt_set_pools t) of (p, pools) \<Rightarrow>
        record_sets ok pool (Suc i) sls \<lparr>nt_sets = sets, nt_set_pools = pools, nt_lost = nt_lost t \<or> \<not> e \<or> \<not> p\<rparr>)"

definition forget_pool :: "u64 \<Rightarrow> nd_tables \<Rightarrow> nd_tables" where
  "forget_pool pool t =
     (case nm_b (nt_set_pools t) of
        None \<Rightarrow> t
      | Some b \<Rightarrow>
          let gone = filter (\<lambda>e. snd e = pool) (concat b)
          in t\<lparr>nt_sets := fold (\<lambda>e m. snd (map_take m (fst e))) gone (nt_sets t),
               nt_set_pools := (nt_set_pools t)\<lparr>nm_b := Some (map (filter (\<lambda>e. snd e \<noteq> pool)) b),
                                                nm_count := nm_count (nt_set_pools t) - of_nat (length gone)\<rparr>\<rparr>)"

definition forget_sets :: "u64 list \<Rightarrow> nd_tables \<Rightarrow> nd_tables" where
  "forget_sets ss t =
     fold (\<lambda>s t. t\<lparr>nt_sets := snd (map_take (nt_sets t) s), nt_set_pools := snd (map_take (nt_set_pools t) s)\<rparr>) ss t"

section \<open>The handlers\<close>

text \<open>
  A handler is a call of the driver and a change of the tables under the lock, in the order of its code; other
  threads can run in between.  The driver knows the live sets with their layouts and pools.
\<close>

type_synonym live_sets = "u64 \<rightharpoonup> u64 \<times> u64"

datatype nd_part =
    DriverAllocate u64 "(u64 \<times> u64) list" | RecordSets u64 "(u64 \<times> u64) list"
  | DriverFree "u64 list" | ForgetSets "u64 list"
  | DriverFreePool u64 | ForgetPool u64

definition nd_AllocateDescriptorSets :: "bool \<Rightarrow> u64 \<Rightarrow> (u64 \<times> u64) list \<Rightarrow> nd_part list" where
  "nd_AllocateDescriptorSets r pool sls = (if r then [DriverAllocate pool sls, RecordSets pool sls] else [])"

definition nd_FreeDescriptorSets :: "bool \<Rightarrow> u64 list \<Rightarrow> nd_part list" where
  "nd_FreeDescriptorSets r ss = (if r then [DriverFree ss, ForgetSets ss] else [])"

definition nd_ResetDescriptorPool :: "bool \<Rightarrow> u64 \<Rightarrow> nd_part list" where
  "nd_ResetDescriptorPool r pool = (if r then [DriverFreePool pool, ForgetPool pool] else [])"

definition nd_DestroyDescriptorPool :: "u64 \<Rightarrow> nd_part list" where
  "nd_DestroyDescriptorPool pool = [ForgetPool pool, DriverFreePool pool]"

datatype nd_call = AllocateSets bool u64 "(u64 \<times> u64) list" | FreeSets bool "u64 list" | ResetPool bool u64 | DestroyPool u64

fun nd_handler :: "nd_call \<Rightarrow> nd_part list" where
  "nd_handler (AllocateSets r pool sls) = nd_AllocateDescriptorSets r pool sls"
| "nd_handler (FreeSets r ss) = nd_FreeDescriptorSets r ss"
| "nd_handler (ResetPool r pool) = nd_ResetDescriptorPool r pool"
| "nd_handler (DestroyPool pool) = nd_DestroyDescriptorPool pool"

lemmas handler_defs = nd_AllocateDescriptorSets_def nd_FreeDescriptorSets_def nd_ResetDescriptorPool_def nd_DestroyDescriptorPool_def

definition live_record :: "u64 \<Rightarrow> (u64 \<times> u64) list \<Rightarrow> live_sets \<Rightarrow> live_sets" where
  "live_record pool sls live = fold (\<lambda>(s, layout) f. f(s \<mapsto> (layout, pool))) sls live"

definition live_free :: "u64 list \<Rightarrow> live_sets \<Rightarrow> live_sets" where
  "live_free ss live = (\<lambda>s. if s \<in> set ss then None else live s)"

definition live_free_pool :: "u64 \<Rightarrow> live_sets \<Rightarrow> live_sets" where
  "live_free_pool pool live = (\<lambda>s. case live s of Some (l, p) \<Rightarrow> if p = pool then None else Some (l, p) | None \<Rightarrow> None)"

text \<open>One part; the driver never hands out a handle that is live, so such an allocation is no behaviour.\<close>

fun part_step :: "(nat \<Rightarrow> bool \<Rightarrow> nat \<Rightarrow> bool) \<Rightarrow> nd_part \<Rightarrow> live_sets \<times> nd_tables \<Rightarrow> (live_sets \<times> nd_tables) option" where
  "part_step ok (DriverAllocate pool sls) (live, t) =
     (if distinct (map fst sls) \<and> list_all (\<lambda>sl. live (fst sl) = None) sls then Some (live_record pool sls live, t) else None)"
| "part_step ok (RecordSets pool sls) (live, t) = Some (live, record_sets ok pool 0 sls t)"
| "part_step ok (DriverFree ss) (live, t) = Some (live_free ss live, t)"
| "part_step ok (ForgetSets ss) (live, t) = Some (live, forget_sets ss t)"
| "part_step ok (DriverFreePool pool) (live, t) = Some (live_free_pool pool live, t)"
| "part_step ok (ForgetPool pool) (live, t) = Some (live, forget_pool pool t)"

fun parts_run :: "(nat \<Rightarrow> bool \<Rightarrow> nat \<Rightarrow> bool) \<Rightarrow> nd_part list \<Rightarrow> live_sets \<times> nd_tables \<Rightarrow> (live_sets \<times> nd_tables) option" where
  "parts_run ok [] w = Some w"
| "parts_run ok (p # ps) w = (case part_step ok p w of None \<Rightarrow> None | Some w1 \<Rightarrow> parts_run ok ps w1)"

text \<open>The calls one after the other, each with the answers to its allocations.\<close>

fun calls_run :: "((nat \<Rightarrow> bool \<Rightarrow> nat \<Rightarrow> bool) \<times> nd_call) list \<Rightarrow> live_sets \<times> nd_tables \<Rightarrow> (live_sets \<times> nd_tables) option" where
  "calls_run [] w = Some w"
| "calls_run ((ok, c) # cs) w = (case parts_run ok (nd_handler c) w of None \<Rightarrow> None | Some w1 \<Rightarrow> calls_run cs w1)"

section \<open>One call after the other\<close>

definition tables_for :: "live_sets \<Rightarrow> nd_tables \<Rightarrow> bool" where
  "tables_for live t \<longleftrightarrow> nd_entries (nt_sets t) = (\<lambda>s. map_option fst (live s)) \<and>
     nd_entries (nt_set_pools t) = (\<lambda>s. map_option snd (live s))"

text \<open>Both tables are well formed, and they are exact unless an allocation failed and the device is lost.\<close>

definition tracks :: "live_sets \<Rightarrow> nd_tables \<Rightarrow> bool" where
  "tracks live t \<longleftrightarrow> nd_ok (nt_sets t) \<and> nd_ok (nt_set_pools t) \<and> (nt_lost t \<or> tables_for live t)"

lemma put_handle_ok:
  assumes "nd_ok m" "put_handle ok key v m = (b, m')"
  shows "nd_ok m'" "nd_entries m' = (if b then (nd_entries m)(key \<mapsto> v) else nd_entries m)" "(\<forall>i. ok i) \<longrightarrow> b"
proof -
  obtain m1 where g: "map_get ok 8192 m key = (b, m1)" "m' = (if b then map_set m1 key v else m1)"
    using assms(2) by (auto simp: put_handle_def split: prod.splits)
  show "nd_ok m'" "nd_entries m' = (if b then (nd_entries m)(key \<mapsto> v) else nd_entries m)"
    using set_map.put_entry[OF assms(1) g(1), of v] unfolding g(2) by simp_all
  show "(\<forall>i. ok i) \<longrightarrow> b" using set_map.get_succeeds[OF assms(1), of ok key] g(1) by simp
qed

lemma record_sets_tracks:
  "tracks live t \<Longrightarrow> tracks (live_record pool sls live) (record_sets ok pool i sls t) \<and>
   ((\<forall>i b j. ok i b j) \<longrightarrow> nt_lost (record_sets ok pool i sls t) = nt_lost t)"
proof (induction sls arbitrary: live t i)
  case (Cons sl sls)
  obtain s layout where sl: "sl = (s, layout)" by (cases sl)
  obtain e sets where e: "put_handle (ok i False) s layout (nt_sets t) = (e, sets)" by (cases "put_handle (ok i False) s layout (nt_sets t)")
  obtain p pools where p: "put_handle (ok i True) s pool (nt_set_pools t) = (p, pools)" by (cases "put_handle (ok i True) s pool (nt_set_pools t)")
  have t: "nd_ok (nt_sets t)" "nd_ok (nt_set_pools t)" "nt_lost t \<or> tables_for live t" using Cons.prems by (simp_all add: tracks_def)
  let ?t = "\<lparr>nt_sets = sets, nt_set_pools = pools, nt_lost = nt_lost t \<or> \<not> e \<or> \<not> p\<rparr>"
  note E = put_handle_ok[OF t(1) e] and P = put_handle_ok[OF t(2) p]
  have "tracks (live(s \<mapsto> (layout, pool))) ?t"
    using E(1,2) P(1,2) t(3) by (auto simp: tracks_def tables_for_def fun_eq_iff)
  then have "tracks (live_record pool sls (live(s \<mapsto> (layout, pool)))) (record_sets ok pool (Suc i) sls ?t)"
    "(\<forall>i b j. ok i b j) \<longrightarrow> nt_lost (record_sets ok pool (Suc i) sls ?t) = nt_lost ?t" using Cons.IH by blast+
  moreover have "live_record pool (sl # sls) live = live_record pool sls (live(s \<mapsto> (layout, pool)))" by (simp add: live_record_def sl)
  moreover have "record_sets ok pool i (sl # sls) t = record_sets ok pool (Suc i) sls ?t" by (simp add: sl e p)
  moreover have "(\<forall>i b j. ok i b j) \<longrightarrow> nt_lost ?t = nt_lost t" using E(3) P(3) by fastforce
  ultimately show ?case by metis
qed (simp add: live_record_def)

lemma forget_sets_tracks:
  "tracks live t \<Longrightarrow> tracks (live_free ss live) (forget_sets ss t) \<and> nt_lost (forget_sets ss t) = nt_lost t"
proof (induction ss arbitrary: live t)
  case Nil
  then show ?case by (simp add: forget_sets_def live_free_def)
next
  case (Cons s ss)
  let ?t = "t\<lparr>nt_sets := snd (map_take (nt_sets t) s), nt_set_pools := snd (map_take (nt_set_pools t) s)\<rparr>"
  have t: "nd_ok (nt_sets t)" "nd_ok (nt_set_pools t)" "nt_lost t \<or> tables_for live t" using Cons.prems by (simp_all add: tracks_def)
  have "tracks (live(s := None)) ?t"
    using t set_map.take_inv set_map.take_entries by (auto simp: tracks_def tables_for_def fun_eq_iff)
  from Cons.IH[OF this] have "tracks (live_free ss (live(s := None))) (forget_sets ss ?t)" "nt_lost (forget_sets ss ?t) = nt_lost ?t" by blast+
  moreover have "live_free ss (live(s := None)) = live_free (s # ss) live" by (auto simp: live_free_def fun_eq_iff)
  moreover have "forget_sets (s # ss) t = forget_sets ss ?t" by (simp add: forget_sets_def)
  ultimately show ?case by simp
qed

lemma take_all:
  "nd_ok m \<Longrightarrow> nd_ok (fold (\<lambda>e m. snd (map_take m (fst e))) es m) \<and>
   nd_entries (fold (\<lambda>e m. snd (map_take m (fst e))) es m) = (\<lambda>k. if k \<in> fst ` set es then None else nd_entries m k)"
proof (induction es arbitrary: m)
  case (Cons e es)
  note t = set_map.take_inv[OF Cons.prems, of "fst e"] set_map.take_entries[OF Cons.prems, of "fst e"]
  from Cons.IH[OF t(1)] show ?case using t(2) by (auto simp: fun_eq_iff)
qed simp

lemma map_of_drop_value:
  "distinct (map fst es) \<Longrightarrow> map_of (filter (\<lambda>e. snd e \<noteq> v) es) = (\<lambda>k. if map_of es k = Some v then None else map_of es k)"
proof (induction es)
  case (Cons e es)
  then have "map_of es (fst e) = None" by (simp add: map_of_eq_None_iff)
  with Cons show ?case by (auto simp: fun_eq_iff)
qed simp

lemma forget_chains:
  assumes "chains_ok mask_w b"
    and gone_def: "gone = filter (\<lambda>e. snd e = pool) (concat b)"
  shows "length (concat b) = length (concat (map (filter (\<lambda>e. snd e \<noteq> pool)) b)) + length gone"
    and "map_of (concat (map (filter (\<lambda>e. snd e \<noteq> pool)) b)) = (\<lambda>s. if map_of (concat b) s = Some pool then None else map_of (concat b) s)"
    and "fst ` set gone = {s. map_of (concat b) s = Some pool}"
proof -
  have d: "distinct (map fst (concat b))" using chains_distinct[OF assms(1)] .
  have c: "concat (map (filter (\<lambda>e. snd e \<noteq> pool)) b) = filter (\<lambda>e. snd e \<noteq> pool) (concat b)" by (simp add: filter_concat)
  show "length (concat b) = length (concat (map (filter (\<lambda>e. snd e \<noteq> pool)) b)) + length gone"
    unfolding c gone_def using sum_length_filter_compl[of "\<lambda>e. snd e = pool" "concat b"] by simp
  show "map_of (concat (map (filter (\<lambda>e. snd e \<noteq> pool)) b)) = (\<lambda>s. if map_of (concat b) s = Some pool then None else map_of (concat b) s)"
    unfolding c using d by (rule map_of_drop_value)
  show "fst ` set gone = {s. map_of (concat b) s = Some pool}"
    unfolding gone_def using d by (force simp: map_of_eq_Some_iff)
qed

lemma drop_pool:
  assumes "es = (\<lambda>s. map_option fst (live s))" "ps = (\<lambda>s. map_option snd (live s))"
  shows "(\<lambda>s. if ps s = Some pool then None else es s) = (\<lambda>s. map_option fst (live_free_pool pool live s)) \<and>
    (\<lambda>s. if ps s = Some pool then None else ps s) = (\<lambda>s. map_option snd (live_free_pool pool live s))"
  by (auto simp: assms live_free_pool_def fun_eq_iff split: option.splits)

lemma forget_pool_tracks:
  assumes "tracks live t"
  shows "tracks (live_free_pool pool live) (forget_pool pool t)" "nt_lost (forget_pool pool t) = nt_lost t"
proof -
  show "nt_lost (forget_pool pool t) = nt_lost t" by (simp add: forget_pool_def Let_def split: option.split)
  have t: "nd_ok (nt_sets t)" "nd_ok (nt_set_pools t)" "nt_lost t \<or> tables_for live t" using assms by (simp_all add: tracks_def)
  show "tracks (live_free_pool pool live) (forget_pool pool t)"
  proof (cases "nm_b (nt_set_pools t)")
    case None
    then have "tables_for live t \<Longrightarrow> live = Map.empty" by (auto simp: tables_for_def nd_entries_def fun_eq_iff)
    then have "tables_for live t \<Longrightarrow> live_free_pool pool live = live" by (auto simp: live_free_pool_def)
    then show ?thesis using None t by (auto simp: forget_pool_def tracks_def)
  next
    case (Some b)
    define gone where "gone = filter (\<lambda>e. snd e = pool) (concat b)"
    let ?sets = "fold (\<lambda>e m. snd (map_take m (fst e))) gone (nt_sets t)"
    let ?pools = "(nt_set_pools t)\<lparr>nm_b := Some (map (filter (\<lambda>e. snd e \<noteq> pool)) b), nm_count := nm_count (nt_set_pools t) - of_nat (length gone)\<rparr>"
    have f: "forget_pool pool t = t\<lparr>nt_sets := ?sets, nt_set_pools := ?pools\<rparr>" by (simp add: forget_pool_def Some gone_def Let_def)
    have c: "chains_ok (nm_mask (nt_set_pools t)) b" "nm_count (nt_set_pools t) = of_nat (length (concat b))" using t(2) Some by (simp_all add: nd_ok_def)
    note keep = forget_chains[OF c(1) gone_def]
    have es: "nd_entries (nt_set_pools t) = map_of (concat b)" by (simp add: nd_entries_def Some)
    have pools: "nd_ok ?pools" "nd_entries ?pools = (\<lambda>s. if nd_entries (nt_set_pools t) s = Some pool then None else nd_entries (nt_set_pools t) s)"
      unfolding es using filter_ok[OF c(1)] keep(1,2) c(2) by (simp_all add: nd_ok_def nd_entries_def)
    have sets: "nd_ok ?sets" "nd_entries ?sets = (\<lambda>s. if nd_entries (nt_set_pools t) s = Some pool then None else nd_entries (nt_sets t) s)"
      unfolding es using take_all[OF t(1), of gone] keep(3) by auto
    have now: "nt_sets (forget_pool pool t) = ?sets" "nt_set_pools (forget_pool pool t) = ?pools" by (simp_all add: f)
    have "tables_for live t \<Longrightarrow> tables_for (live_free_pool pool live) (forget_pool pool t)"
      unfolding tables_for_def now pools(2) sets(2) by (rule drop_pool) simp_all
    then show ?thesis using t(3) sets(1) pools(1) by (auto simp: tracks_def f)
  qed
qed

lemma handler_tracks:
  assumes "tracks live t" "parts_run ok (nd_handler c) (live, t) = Some (live', t')"
  shows "tracks live' t'" "(\<forall>i b j. ok i b j) \<longrightarrow> nt_lost t' = nt_lost t"
proof -
  have "tracks live' t' \<and> ((\<forall>i b j. ok i b j) \<longrightarrow> nt_lost t' = nt_lost t)"
  proof (cases c)
    case (AllocateSets r pool sls)
    then show ?thesis using assms record_sets_tracks[OF assms(1), of pool sls ok 0]
      by (cases r) (simp_all add: handler_defs split: if_split_asm)
  next
    case (FreeSets r ss)
    then show ?thesis using assms forget_sets_tracks[OF assms(1), of ss] by (cases r) (auto simp: handler_defs)
  next
    case (ResetPool r pool)
    then show ?thesis using assms forget_pool_tracks[OF assms(1), of pool] by (cases r) (auto simp: handler_defs)
  next
    case (DestroyPool pool)
    then show ?thesis using assms forget_pool_tracks[OF assms(1), of pool] by (auto simp: handler_defs)
  qed
  then show "tracks live' t'" "(\<forall>i b j. ok i b j) \<longrightarrow> nt_lost t' = nt_lost t" by blast+
qed

lemma calls_track:
  "tracks live t \<Longrightarrow> calls_run cs (live, t) = Some (live', t') \<Longrightarrow>
   tracks live' t' \<and> ((\<forall>ok \<in> fst ` set cs. \<forall>i b j. ok i b j) \<longrightarrow> nt_lost t' = nt_lost t)"
proof (induction cs arbitrary: live t)
  case (Cons oc cs)
  obtain ok c where oc: "oc = (ok, c)" by (cases oc)
  obtain live1 t1 where r: "parts_run ok (nd_handler c) (live, t) = Some (live1, t1)" "calls_run cs (live1, t1) = Some (live', t')"
    using Cons.prems(2) by (auto simp: oc split: option.splits)
  note H = handler_tracks[OF Cons.prems(1) r(1)]
  have "tracks live' t'" "(\<forall>ok \<in> fst ` set cs. \<forall>i b j. ok i b j) \<longrightarrow> nt_lost t' = nt_lost t1" using Cons.IH[OF H(1) r(2)] by blast+
  moreover have "(\<forall>f \<in> fst ` set (oc # cs). \<forall>i b j. f i b j) \<longrightarrow> (\<forall>i b j. ok i b j) \<and> (\<forall>f \<in> fst ` set cs. \<forall>i b j. f i b j)"
    unfolding oc list.set image_insert fst_conv by blast
  ultimately show ?case using H(2) by argo
qed simp

lemma set_layout_tracks:
  assumes "tracks live t" "\<not> nt_lost t"
  shows "set_layout t s = (case live s of Some (l, p) \<Rightarrow> l | None \<Rightarrow> 0)"
proof -
  have "map_find (nt_sets t) s = map_option fst (live s)"
    using assms set_map.find_entries[of "nt_sets t" s] by (simp add: tracks_def tables_for_def)
  then show ?thesis by (auto simp: set_layout_def split: option.split)
qed

definition fresh_tables :: nd_tables where
  "fresh_tables = \<lparr>nt_sets = empty_map, nt_set_pools = empty_map, nt_lost = False\<rparr>"

lemma fresh_tables_track: "tracks Map.empty fresh_tables"
  by (simp add: tracks_def fresh_tables_def tables_for_def empty_map_ok)

text \<open>
  C17: Whatever allocations, frees, resets and destructions a device has made one after the other, the layout
  that \<open>set_layout\<close> gives for a set is the one it was last allocated with if it is live, and none if it is not;
  the only exception is a device that is marked lost, and it is marked only after a failed allocation of memory.
\<close>

theorem descriptor_sets_tracked:
  assumes "calls_run cs (Map.empty, fresh_tables) = Some (live, t)"
  shows "(nt_lost t \<or> (\<forall>s. set_layout t s = (case live s of Some (l, p) \<Rightarrow> l | None \<Rightarrow> 0))) \<and>
    ((\<forall>ok \<in> fst ` set cs. \<forall>i b j. ok i b j) \<longrightarrow> \<not> nt_lost t)"
proof -
  have c: "tracks live t" "(\<forall>ok \<in> fst ` set cs. \<forall>i b j. ok i b j) \<longrightarrow> nt_lost t = nt_lost fresh_tables"
    using calls_track[OF fresh_tables_track assms] by blast+
  moreover have "\<not> nt_lost fresh_tables" by (simp add: fresh_tables_def)
  ultimately show ?thesis using set_layout_tracks[OF c(1)] by metis
qed

section \<open>Two threads\<close>

text \<open>What is left of one set by a call that forgets it.\<close>

lemma forgotten_layout:
  assumes "tracks live t" "\<not> nt_lost t" "s \<in> set ss"
  shows "set_layout (forget_sets ss t) s = 0" "\<not> nt_lost (forget_sets ss t)"
proof -
  note f = forget_sets_tracks[OF assms(1), of ss]
  show n: "\<not> nt_lost (forget_sets ss t)" using f assms(2) by simp
  show "set_layout (forget_sets ss t) s = 0"
    using set_layout_tracks[OF _ n, of "live_free ss live"] f assms(3) by (simp add: live_free_def)
qed

text \<open>The same parts with the tables first, the order of \<open>nd_DestroyDescriptorPool\<close>.\<close>

definition free_forgetting_first :: "u64 list \<Rightarrow> nd_part list" where
  "free_forgetting_first ss = [ForgetSets ss, DriverFree ss]"

text \<open>
  C21: One thread frees a live set while another allocates from the same or another pool, and no memory
  allocation fails.  The driver may give the handle that it has just freed to the other thread, which records it
  before the first thread forgets it: then the set is live, its layout is unknown, and the device is not lost.
  If the free forgot the set before it called the driver, every interleaving of the two calls would end with
  exact tables.
\<close>

theorem free_allocate_race:
  assumes "tracks live t" "\<not> nt_lost t" "live s \<noteq> None" "\<forall>i b j. ok i b j"
  shows "(\<exists>sched \<in> shuffles (nd_FreeDescriptorSets True [s]) (nd_AllocateDescriptorSets True pool [(s, layout)]).
       \<exists>live' t'. parts_run ok sched (live, t) = Some (live', t') \<and> live' s = Some (layout, pool) \<and> set_layout t' s = 0 \<and> \<not> nt_lost t') \<and>
    (\<forall>sched \<in> shuffles (free_forgetting_first [s]) (nd_AllocateDescriptorSets True pool [(s, layout)]).
       \<forall>live' t'. parts_run ok sched (live, t) = Some (live', t') \<longrightarrow> tracks live' t')"
proof (intro conjI ballI allI impI)
  let ?live = "live_record pool [(s, layout)] (live_free [s] live)" and ?rec = "record_sets ok pool 0 [(s, layout)] t"
  let ?sched = "[DriverFree [s], DriverAllocate pool [(s, layout)], RecordSets pool [(s, layout)], ForgetSets [s]]"
  have r: "tracks (live_record pool [(s, layout)] live) ?rec" "\<not> nt_lost ?rec"
    using record_sets_tracks[OF assms(1), of pool "[(s, layout)]" ok 0] assms(2,4) by blast+
  have "set_layout (forget_sets [s] ?rec) s = 0" "\<not> nt_lost (forget_sets [s] ?rec)"
    using forgotten_layout[OF r, of s "[s]"] by simp_all
  moreover have "?live s = Some (layout, pool)" by (simp add: live_record_def)
  moreover have "parts_run ok ?sched (live, t) = Some (?live, forget_sets [s] ?rec)" by (simp add: live_free_def del: record_sets.simps)
  moreover have "?sched \<in> shuffles (nd_FreeDescriptorSets True [s]) (nd_AllocateDescriptorSets True pool [(s, layout)])"
    by (simp add: handler_defs Cons_in_shuffles_iff)
  ultimately show "\<exists>sched \<in> shuffles (nd_FreeDescriptorSets True [s]) (nd_AllocateDescriptorSets True pool [(s, layout)]).
      \<exists>live' t'. parts_run ok sched (live, t) = Some (live', t') \<and> live' s = Some (layout, pool) \<and> set_layout t' s = 0 \<and> \<not> nt_lost t'"
    by blast
next
  fix sched live' t'
  assume s: "sched \<in> shuffles (free_forgetting_first [s]) (nd_AllocateDescriptorSets True pool [(s, layout)])"
    "parts_run ok sched (live, t) = Some (live', t')"
  have f: "tracks (live_free [s] live) (forget_sets [s] t)" using forget_sets_tracks[OF assms(1)] by blast
  have "sched = [ForgetSets [s], DriverFree [s], DriverAllocate pool [(s, layout)], RecordSets pool [(s, layout)]]"
    using s assms(3) by (auto simp: handler_defs free_forgetting_first_def split: if_split_asm)
  then have "live' = live_record pool [(s, layout)] (live_free [s] live)" "t' = record_sets ok pool 0 [(s, layout)] (forget_sets [s] t)"
    using s(2) by (auto split: if_split_asm)
  then show "tracks live' t'" using record_sets_tracks[OF f] by blast
qed

section \<open>Witnesses\<close>

theorem descriptor_sets_tracked_witness:
  "\<exists>live t. calls_run [(\<lambda>i b j. True, AllocateSets True 9 [(5, 7), (6, 8)]), (\<lambda>i b j. True, FreeSets True [6])] (Map.empty, fresh_tables) =
     Some (live, t) \<and> set_layout t 5 = 7 \<and> set_layout t 6 = 0"
proof -
  let ?cs = "[(\<lambda>i b j. True, AllocateSets True 9 [(5, 7), (6, 8)]), (\<lambda>i b j. True, FreeSets True [6])]"
  let ?t = "forget_sets [6] (record_sets (\<lambda>i b j. True) 9 0 [(5, 7), (6, 8)] fresh_tables)"
  let ?live = "live_free [6] (live_record 9 [(5, 7), (6, 8)] Map.empty)"
  have r: "calls_run ?cs (Map.empty, fresh_tables) = Some (?live, ?t)" by (simp add: handler_defs del: record_sets.simps)
  have "\<not> nt_lost ?t" using descriptor_sets_tracked[OF r] by simp
  then have l: "set_layout ?t s = (case ?live s of Some (l, p) \<Rightarrow> l | None \<Rightarrow> 0)" for s using descriptor_sets_tracked[OF r] by blast
  have "set_layout ?t 5 = 7" "set_layout ?t 6 = 0" unfolding l by (simp_all add: live_free_def live_record_def)
  with r show ?thesis by blast
qed

theorem free_allocate_race_witness:
  "\<exists>live t. tracks live t \<and> (\<exists>sched \<in> shuffles (nd_FreeDescriptorSets True [5]) (nd_AllocateDescriptorSets True 10 [(5, 8)]).
     \<exists>live' t'. parts_run (\<lambda>i b j. True) sched (live, t) = Some (live', t') \<and> live' 5 = Some (8, 10) \<and> set_layout t' 5 = 0)"
proof -
  let ?t = "record_sets (\<lambda>i b j. True) 9 0 [(5, 7)] fresh_tables" and ?live = "live_record 9 [(5, 7)] Map.empty"
  have t: "tracks ?live ?t" "nt_lost ?t = nt_lost fresh_tables" using record_sets_tracks[OF fresh_tables_track, of 9 "[(5, 7)]" "\<lambda>i b j. True" 0] by blast+
  have "\<not> nt_lost ?t" using t(2) by (simp add: fresh_tables_def)
  moreover have "?live 5 \<noteq> None" by (simp add: live_record_def)
  ultimately show ?thesis using free_allocate_race[OF t(1), of 5 "\<lambda>i b j. True" 10 8] t(1) by blast
qed

end
