(* ===== verification/Spec2Isabelle.thy ===== *)
theory Spec2Isabelle
  imports Linker_Integrity Linker_Tls Linker_Walk Linker_Init Sync_Safety Spirv_Edit Null_Descriptors
begin

text \<open>
  A verification development for libhybris, which loads drivers built for Android into processes of an
  ordinary Linux distribution.  It is about the parts of \<open>hybris/common\<close> that make this work on AArch64: the
  linker taken from Android Q (\<open>hybris/common/q\<close>), the code that lets Android objects live with the thread
  pointer of the host, and the hooks that give Android code the synchronisation objects of the host.  Of the Vulkan
  compatibility layer (\<open>hybris/vulkan/compat\<close>) it covers the shader editor and the tracking of descriptor sets.

  \<^bold>\<open>The program.\<close>  The linker reads an ELF file, checks it, reserves address space and maps its segments.  Android
  code reads the thread pointer with an \<open>MRS\<close> instruction and expects the thread-local storage of bionic behind
  it.  Each such instruction of an executable segment is replaced by a branch to a thunk near the object, which
  calls a hook for the thread's arena.  Objects whose integrity hash covers their code get the hash recomputed.
  The linker gives every object with thread-local variables a range of the arena and publishes its initial
  data, and a thread copies them when it runs through the hook.  References between objects are resolved
  through hash tables in the search order of the namespaces; constructors run, handles are given out, and
  when the last reference to a load group goes away its destructors run and it is released.  Android code
  calls mutexes, conditions and read-write locks through hooks that keep a host object behind each word of
  Android storage, on the heap, or in a pool of shared memory if processes share it.  The Vulkan layer edits the
  shaders it passes to a driver that lacks a feature, and remembers the layout of each descriptor set so that it
  can replace null descriptors.

  \<^bold>\<open>The theories.\<close>
    \<^item> \<open>Hybris_Prelude\<close>: words for the integers of C, the sequencing \<open>try_then\<close> of computations that fail, little-endian
      bytes, powers of two and the generic facts.
    \<^item> \<open>Bump_Allocator\<close>: locales \<open>bump_allocator\<close> and \<open>total_bump_allocator\<close>, the contract of an allocator that moves
      an offset forward: blocks are disjoint and inside the region.  The thunk region and the shared pool
      interpret them.
    \<^item> \<open>Tls_Patcher\<close> (\<open>tls_patcher.c\<close>, \<open>tls_patcher_aarch64.c\<close>): the thunk region, the scan for \<open>MRS\<close>, the words of a
      thunk, the branch.  Every site of a patched segment branches to its own thunk, which returns behind the
      site, and no other word changes.
    \<^item> \<open>Integrity_Sha256\<close> (\<open>q/integrity_sha256.c\<close>): the streaming hash, equal to FIPS 180-4 for every way of
      cutting the message; \<open>streaming_hash\<close> is the contract on which its client rests.
    \<^item> \<open>Linker_Utils\<close> (\<open>q/linker_utils.cpp\<close>): paths, lists and page arithmetic.
    \<^item> \<open>Linker_Phdr\<close> (\<open>q/linker_phdr.cpp\<close>, \<open>q/linker_mapped_file_fragment.cpp\<close>): reading and checking of the headers,
      reservation, protection and relro.  What is read lies in the file, no malformed file trips a \<open>CHECK\<close>, no
      segment becomes writable and executable at once.
    \<^item> \<open>Linker_Load\<close> (\<open>q/linker_phdr.cpp\<close>): the mapping of segments and the two passes of patching, composed of
      \<open>Tls_Patcher\<close> and \<open>Linker_Phdr\<close>; the journal of patches undoes them.
    \<^item> \<open>Linker_Integrity\<close> (\<open>q/linker_integrity.cpp\<close>): the hash of a module is replaced only if the unpatched image
      verifies, and then the self-test holds for memory as it is.
    \<^item> \<open>Bionic_Tls\<close> (\<open>bionic_tls.c\<close>): arenas, the registry of initial data, first touch, replay and exit, with any
      number of threads as a step relation; a value a thread has written is never overwritten by a replay.
    \<^item> \<open>Elf_Tls\<close> (\<open>q/bionic/libc/bionic/bionic_elf_tls.cpp\<close>): static layout and thread vectors.
    \<^item> \<open>Linker_Tls\<close> (\<open>q/linker_tls.cpp\<close> and the TLS relocations of \<open>q/linker.cpp\<close>): the table of modules and promotion to
      static storage.  The linker and the threads together are a step relation that refines the one of
      \<open>Bionic_Tls\<close>; a relocated variable reads as its initial value in every thread.
    \<^item> \<open>Linker_Lookup\<close> (\<open>q/linker_soinfo.cpp\<close>, \<open>q/linker.cpp\<close>): hash tables, versions, lookup by name and by address.
    \<^item> \<open>Linker_Soinfo\<close> (\<open>q/linker_soinfo.{h,cpp}\<close>, \<open>q/linker_namespaces.{h,cpp}\<close>, \<open>q/linker_main.cpp\<close>, \<open>q/linker.cpp\<close>):
      objects, namespaces, handles and links, with all pointers as keys of a map so that using a freed
      object is the error \<open>Dangling\<close>.
    \<^item> \<open>Linker_Unload\<close>: reference counts, destructors, \<open>dlclose\<close>.  Under acyclic dependencies no freed object is used
      and what is still open stays; with a cycle below the root a freed root stays referenced.
    \<^item> \<open>Linker_Walk\<close>: the walk of dependencies is breadth first and ends; \<open>dlsym\<close>, \<open>dladdr\<close> and the counters of
      thread-local destructors.
    \<^item> \<open>Linker_Init\<close>: constructors run once, children first.
    \<^item> \<open>Hooks_Shm\<close> (\<open>hooks_shm.c\<close>): the pool of shared objects over several processes.
    \<^item> \<open>Bionic_Sync\<close> (\<open>bionic_sync.c\<close>), \<open>Bionic_Cond\<close> (\<open>bionic_cond.c\<close>): the hooks, with the heap and the pool explicit.
    \<^item> \<open>Sync_Safety\<close>: the locale \<open>static_object\<close> for the publication of statically initialised objects, interpreted for
      mutexes, conditions and read-write locks, and the invariant of all hooks together.
    \<^item> \<open>Spirv_Edit\<close> (\<open>hybris/vulkan/compat/malibridge/spirv_edit.{c,h}\<close>): the editor of SPIR-V modules.  Parsing accepts
      exactly what writing produces; requests for types and constants are answered with one definition each; edits
      keep a module well formed; two malformed inputs make it read outside of an instruction.
    \<^item> \<open>Handle_Map\<close> (\<open>hybris/vulkan/compat/null_map.h\<close>): chained maps from handles to values, which implement finite
      functions through growth and failed allocations; the locale \<open>dictionary\<close> is their contract.
    \<^item> \<open>Null_Descriptors\<close> (\<open>hybris/vulkan/compat/null_descriptors.c\<close>): a client of \<open>dictionary\<close>, the tables of
      descriptor sets.  They are exact when calls come one after the other; two threads can break them.

  \<^bold>\<open>State and effects.\<close>  A structure of the source is a record, an enumeration a datatype, an integer a word of its
  width, so sums wrap as in C.  A function that changes state takes it and returns it; an error, an abort and
  an access outside of live memory are values on the left of a sum.  What the host does (memory mapping,
  allocation, threads, the clock) is a parameter that answers each call, and a theorem names what it needs of the
  answers.  Threads interleave at the granularity of the locks or atomic operations of the source.

  \<^bold>\<open>Loops.\<close>  Loops over data are recursions on the data.  Loops that may not end (chains of a hash table, the walk, the
  collection of a load group, the search for a free handle) are partial functions with \<open>None\<close> for not
  returning, and the theorems show that they return.  The only fuel is the recursion depth of
  \<open>call_constructors\<close>, where one more than the number of objects not yet initialised is enough, since each nested call
  marks an object first, and the depth of \<open>loc_count\<close>, which the source itself bounds.

  \<^bold>\<open>Not modelled.\<close>  The linkers for older Android releases (\<open>jb\<close>, \<open>mm\<close>, \<open>n\<close>, \<open>o\<close>) repeat the Q linker in older forms.  Of
  the Q linker: opening of files and the search through directories and zip archives, the order of loading in
  \<open>find_libraries\<close>, the relocation loop apart from its TLS cases, the parser of the configuration, CFI shadow,
  debugger support and the builds for other machines.  The bodies of constructors, destructors and indirect
  functions belong to the loaded objects.  The tables of hooks (\<open>hooks.c\<close>), the wrappers of standard
  input and output, properties, and the front ends for EGL, OpenGL ES, OpenCL, camera, media, sensors, NFC and the
  like, and the rest of the Vulkan layer, pass calls to the Android library or to the host and have no state that the theorems could be
  about without a model of those libraries.
\<close>

end
